(* ===== verification/Prelude.thy ===== *)
theory Prelude
  imports Main "HOL-Library.Word" "HOL-Library.Code_Target_Nat"
begin

text \<open>
  Shared vocabulary of the development: the machine integers and byte strings of the Rust
  code, the outcome of a fallible Rust function (a value, a returned error, a panic), the
  arithmetic of the two build profiles, slices, indexing and the counted loops.

  A Rust byte is a \<^typ>\<open>char\<close> (Isabelle's type of 8-bit values); a \<^verbatim>\<open>&[u8]\<close>, a
  \<^verbatim>\<open>Vec<u8>\<close> and the UTF-8 bytes of a \<^verbatim>\<open>String\<close> are lists of them.
  \<^verbatim>\<open>usize\<close> is 64 bits wide (the 64-bit targets of the project).

  The flag \<open>oc\<close> that many definitions take first is the build profile's
  \<^verbatim>\<open>overflow-checks\<close>: \<^const>\<open>True\<close> in a debug build, where \<^verbatim>\<open>+\<close>, \<^verbatim>\<open>-\<close>
  and \<^verbatim>\<open>*\<close> panic on overflow, \<^const>\<open>False\<close> in the release build of the workspace's
  \<^verbatim>\<open>Cargo.toml\<close>, where they wrap around.
\<close>

type_synonym bytes = "char list"
type_synonym u16 = "16 word"
type_synonym u32 = "32 word"
type_synonym i32 = "32 word"
type_synonym u64 = "64 word"
type_synonym usize = "64 word"

named_theorems outcome_intros \<open>how a Rust computation comes to return a value\<close>

section \<open>Outcomes\<close>

datatype panic =
    ArithOverflow | SliceRange | IndexBounds | CapacityOverflow | MissingKey | StackOverflow | MapTruncated

text \<open>
  \<open>Val\<close>: the function returns; \<open>Fail\<close>: it returns \<^verbatim>\<open>Err\<close>; \<open>Panic\<close>: the
  thread panics, or the process is killed on an exhausted stack or, with \<open>MapTruncated\<close>, a
  memory-mapped file is truncated, after which the code's behaviour is undefined.
\<close>

datatype ('e, 'a) outcome = Val 'a | Fail 'e | Panic panic

text \<open>The \<^verbatim>\<open>?\<close> operator, and sequencing after a statement that may panic.\<close>

fun and_then :: "('e, 'a) outcome \<Rightarrow> ('a \<Rightarrow> ('e, 'b) outcome) \<Rightarrow> ('e, 'b) outcome" where
  "and_then (Val x) f = f x"
| "and_then (Fail e) f = Fail e"
| "and_then (Panic p) f = Panic p"

lemma and_then_cong [fundef_cong]:
  "m = m' \<Longrightarrow> (\<And>x. m' = Val x \<Longrightarrow> f x = g x) \<Longrightarrow> and_then m f = and_then m' g"
  by (cases m') auto

lemma and_then_eq_Val:
  "and_then m f = Val y \<longleftrightarrow> (\<exists>x. m = Val x \<and> f x = Val y)"
  by (cases m) auto

lemma and_then_eq_Panic:
  "and_then m f = Panic p \<longleftrightarrow> m = Panic p \<or> (\<exists>x. m = Val x \<and> f x = Panic p)"
  by (cases m) auto

lemma and_then_eq_Fail:
  "and_then m f = Fail e \<longleftrightarrow> m = Fail e \<or> (\<exists>x. m = Val x \<and> f x = Fail e)"
  by (cases m) auto

lemma and_then_assoc: "and_then (and_then m f) g = and_then m (\<lambda>x. and_then (f x) g)"
  by (cases m) auto

lemma and_then_Val_id [simp]: "and_then m Val = m"
  by (cases m) auto

lemma and_then_ValI [outcome_intros]: "m = Val x \<Longrightarrow> f x = Val y \<Longrightarrow> and_then m f = Val y"
  by (simp add: and_then_eq_Val)

lemma outcome_ValE:
  assumes "\<And>e. m \<noteq> Fail e" and "\<And>p. m \<noteq> Panic p"
  obtains x where "m = Val x"
  using assms by (cases m) auto

text \<open>A computation on a state \<open>s\<close> that stays as it is if \<open>m\<close> fails or panics.\<close>

definition in_state :: "'s \<Rightarrow> ('e, 'a) outcome \<Rightarrow> ('a \<Rightarrow> 's \<times> ('e, 'b) outcome) \<Rightarrow> 's \<times> ('e, 'b) outcome" where
  "in_state s m k =
     (case m of Val x \<Rightarrow> k x | Fail e \<Rightarrow> (s, Fail e) | Panic p \<Rightarrow> (s, Panic p))"

lemma in_state_simps [simp]:
  "in_state s (Val x) k = k x" "in_state s (Fail e) k = (s, Fail e)" "in_state s (Panic p) k = (s, Panic p)"
  by (simp_all add: in_state_def)

section \<open>Arithmetic of the two build profiles\<close>

definition wadd :: "bool \<Rightarrow> 'w::len word \<Rightarrow> 'w word \<Rightarrow> ('e, 'w word) outcome" where
  "wadd oc a b =
     (if oc \<and> 2 ^ LENGTH('w) \<le> unat a + unat b then Panic ArithOverflow else Val (a + b))"

definition wsub :: "bool \<Rightarrow> 'w::len word \<Rightarrow> 'w word \<Rightarrow> ('e, 'w word) outcome" where
  "wsub oc a b = (if oc \<and> a < b then Panic ArithOverflow else Val (a - b))"

definition wmul :: "bool \<Rightarrow> 'w::len word \<Rightarrow> 'w word \<Rightarrow> ('e, 'w word) outcome" where
  "wmul oc a b =
     (if oc \<and> 2 ^ LENGTH('w) \<le> unat a * unat b then Panic ArithOverflow else Val (a * b))"

text \<open>\<^verbatim>\<open>saturating_sub\<close> and \<^verbatim>\<open>saturating_add\<close> do not depend on the profile.\<close>

definition sat_sub :: "'w::len word \<Rightarrow> 'w word \<Rightarrow> 'w word" where
  "sat_sub a b = (if a < b then 0 else a - b)"

definition sat_add :: "'w::len word \<Rightarrow> 'w word \<Rightarrow> 'w word" where
  "sat_add a b = (if 2 ^ LENGTH('w) \<le> unat a + unat b then - 1 else a + b)"

lemma unat_add_exact:
  "unat a + unat b < 2 ^ LENGTH('w) \<Longrightarrow> unat (a + b) = unat a + unat b" for a b :: "'w::len word"
  by (simp add: unat_add_lem [symmetric])

lemma unat_sub_exact: "b \<le> a \<Longrightarrow> unat (a - b) = unat a - unat b" for a b :: "'w::len word"
  by (rule unat_sub)

lemma wadd_exact [outcome_intros]:
  "unat a + unat b < 2 ^ LENGTH('w) \<Longrightarrow> wadd oc a b = Val (a + b)" for a b :: "'w::len word"
  by (simp add: wadd_def)

lemma wsub_exact [outcome_intros]: "b \<le> a \<Longrightarrow> wsub oc a b = Val (a - b)" for a b :: "'w::len word"
  by (auto simp: wsub_def)

lemma wmul_exact [outcome_intros]:
  "unat a * unat b < 2 ^ LENGTH('w) \<Longrightarrow> wmul oc a b = Val (a * b)" for a b :: "'w::len word"
  by (simp add: wmul_def)

lemma unat_mult_exact:
  "unat a * unat b < 2 ^ LENGTH('w) \<Longrightarrow> unat (a * b) = unat a * unat b" for a b :: "'w::len word"
  by (simp add: unat_word_ariths)

lemma wadd_checked:
  "wadd True a b = Val c \<longleftrightarrow> unat a + unat b < 2 ^ LENGTH('w) \<and> c = a + b"
  for a b c :: "'w::len word"
  by (auto simp: wadd_def)

lemma wadd_Val_imp: "wadd oc a b = Val c \<Longrightarrow> c = a + b"
  by (auto simp: wadd_def split: if_splits)

lemma wadd_not_Fail [simp]: "wadd oc a b \<noteq> Fail e"
  by (simp add: wadd_def)

lemma wsub_not_Fail [simp]: "wsub oc a b \<noteq> Fail e"
  by (simp add: wsub_def)

lemma wadd_Panic: "wadd oc a b = Panic p \<Longrightarrow> p = ArithOverflow"
  by (auto simp: wadd_def split: if_splits)

lemma unat_of_nat64 [simp]: "n < 2 ^ 64 \<Longrightarrow> unat (word_of_nat n :: u64) = n"
  by (simp add: unat_of_nat)

lemma unat_of_nat32 [simp]: "n < 2 ^ 32 \<Longrightarrow> unat (word_of_nat n :: u32) = n"
  by (simp add: unat_of_nat)

section \<open>Slices, indexing, counted loops\<close>

text \<open>A Rust slice is at most \<^verbatim>\<open>isize::MAX\<close> bytes long.\<close>

definition valid_slice :: "'a list \<Rightarrow> bool" where
  "valid_slice xs \<longleftrightarrow> length xs < 2 ^ 63"

abbreviation wlen :: "'a list \<Rightarrow> usize" where
  "wlen xs \<equiv> word_of_nat (length xs)"

lemma unat_wlen: "valid_slice xs \<Longrightarrow> unat (wlen xs) = length xs"
  by (simp add: valid_slice_def)

text \<open>\<^verbatim>\<open>&xs[a..b]\<close> and \<^verbatim>\<open>xs[i]\<close>, which panic out of range.\<close>

definition subslice :: "'a list \<Rightarrow> usize \<Rightarrow> usize \<Rightarrow> ('e, 'a list) outcome" where
  "subslice xs a b =
     (if a \<le> b \<and> unat b \<le> length xs then Val (take (unat b - unat a) (drop (unat a) xs))
      else Panic SliceRange)"

definition nth_out :: "'a list \<Rightarrow> nat \<Rightarrow> ('e, 'a) outcome" where
  "nth_out xs i = (if i < length xs then Val (xs ! i) else Panic IndexBounds)"

lemma subslice_mid [simp]:
  "length pre = unat a \<Longrightarrow> length pre + length mid = unat b \<Longrightarrow> subslice (pre @ mid @ post) a b = Val mid"
  by (auto simp: subslice_def word_le_nat_alt)

lemma subslice_Val_iff:
  "subslice xs a b = Val ys \<longleftrightarrow>
     a \<le> b \<and> unat b \<le> length xs \<and> ys = take (unat b - unat a) (drop (unat a) xs)"
  by (auto simp: subslice_def)

lemma subslice_not_Fail [simp]: "subslice xs a b \<noteq> Fail e"
  by (simp add: subslice_def)

lemma nth_out_Val [simp]: "nth_out xs i = Val x \<longleftrightarrow> i < length xs \<and> x = xs ! i"
  by (auto simp: nth_out_def)

text \<open>\<^verbatim>\<open>for _ in 0..n\<close> over a mutable variable, and the loop that pushes what it reads.\<close>

fun repeat_out :: "nat \<Rightarrow> ('s \<Rightarrow> ('e, 's) outcome) \<Rightarrow> 's \<Rightarrow> ('e, 's) outcome" where
  "repeat_out 0 f s = Val s"
| "repeat_out (Suc n) f s = and_then (f s) (repeat_out n f)"

fun read_times :: "nat \<Rightarrow> ('o \<Rightarrow> ('e, 'a \<times> 'o) outcome) \<Rightarrow> 'o \<Rightarrow> ('e, 'a list \<times> 'o) outcome" where
  "read_times 0 rd off = Val ([], off)"
| "read_times (Suc n) rd off =
     and_then (rd off) (\<lambda>(x, off1).
     and_then (read_times n rd off1) (\<lambda>(xs, off2). Val (x # xs, off2)))"

lemma read_times_length: "read_times n rd off = Val (xs, off') \<Longrightarrow> length xs = n"
  by (induction n arbitrary: off xs) (auto simp: and_then_eq_Val)

lemma repeat_out_cong [fundef_cong]:
  "n = n' \<Longrightarrow> s = s' \<Longrightarrow> (\<And>x. f x = g x) \<Longrightarrow> repeat_out n f s = repeat_out n' g s'"
  by (metis ext)

lemma repeat_out_invariant:
  assumes "repeat_out n f s = Val s'" and "P s" and "\<And>x y. P x \<Longrightarrow> f x = Val y \<Longrightarrow> P y"
  shows "P s'"
  using assms(1,2) by (induction n arbitrary: s) (auto simp: and_then_eq_Val intro: assms(3))

text \<open>A loop whose body never panics with \<open>p\<close> (from states of an invariant) does not either.\<close>

lemma repeat_out_no_Panic:
  assumes "P s" and "\<And>x y. P x \<Longrightarrow> f x = Val y \<Longrightarrow> P y" and "\<And>x. P x \<Longrightarrow> f x \<noteq> Panic p"
  shows "repeat_out n f s \<noteq> Panic p"
  using assms(1)
proof (induction n arbitrary: s)
  case (Suc n)
  then show ?case
    using assms(2,3) by (auto simp: and_then_eq_Panic)
qed simp

text \<open>Iterating over a list with a mutable variable: \<^verbatim>\<open>for x in xs { ... }\<close>.\<close>

fun fold_out :: "('a \<Rightarrow> 's \<Rightarrow> ('e, 's) outcome) \<Rightarrow> 'a list \<Rightarrow> 's \<Rightarrow> ('e, 's) outcome" where
  "fold_out f [] s = Val s"
| "fold_out f (x # xs) s = and_then (f x s) (fold_out f xs)"

text \<open>Collecting a value per element, left to right.\<close>

fun map_out :: "('a \<Rightarrow> ('e, 'b) outcome) \<Rightarrow> 'a list \<Rightarrow> ('e, 'b list) outcome" where
  "map_out f [] = Val []"
| "map_out f (x # xs) =
     and_then (f x) (\<lambda>y. and_then (map_out f xs) (\<lambda>ys. Val (y # ys)))"

lemma map_out_cong [fundef_cong]:
  "xs = ys \<Longrightarrow> (\<And>x. x \<in> set ys \<Longrightarrow> f x = g x) \<Longrightarrow> map_out f xs = map_out g ys"
proof (induction ys arbitrary: xs)
  case (Cons y ys)
  then have "map_out f ys = map_out g ys" by simp
  with Cons.prems show ?case by simp
qed simp

lemma map_out_Val: "(\<And>x. x \<in> set xs \<Longrightarrow> f x = Val (g x)) \<Longrightarrow> map_out f xs = Val (map g xs)"
  by (induction xs) auto

lemma map_out_Val_nth:
  "map_out f xs = Val ys \<Longrightarrow> length ys = length xs \<and> (\<forall>i < length xs. f (xs ! i) = Val (ys ! i))"
proof (induction xs arbitrary: ys)
  case (Cons x xs)
  then show ?case by (auto simp: and_then_eq_Val nth_Cons split: nat.split)
qed simp

lemma fold_out_append: "fold_out f (xs @ ys) s = and_then (fold_out f xs s) (fold_out f ys)"
proof (induction xs arbitrary: s)
  case (Cons x xs)
  then show ?case by (cases "f x s") auto
qed simp

text \<open>Mapping to lists and flattening, twice.\<close>

lemma concat_map_concat: "concat (map f (concat xss)) = concat (map (\<lambda>xs. concat (map f xs)) xss)"
  by (induction xss) auto

end
