(* ===== verification/Rust_Text.thy ===== *)
theory Rust_Text
  imports Prelude
begin

text \<open>
  The operations of Rust's \<^verbatim>\<open>str\<close> and \<^verbatim>\<open>String\<close> that the program uses, on the
  UTF-8 bytes of the string: validation and lossy decoding, search, prefixes, parsing and
  printing of decimal numbers. The lemmas are the facts the components need: lossy decoding
  is the identity on valid text, and parsing inverts printing.
\<close>

section \<open>UTF-8\<close>

abbreviation code :: "char \<Rightarrow> nat" where
  "code c \<equiv> of_char c"

definition is_cont :: "char \<Rightarrow> bool" where
  "is_cont c \<longleftrightarrow> 128 \<le> code c \<and> code c < 192"

text \<open>The range of the second byte of a three-byte and of a four-byte sequence.\<close>

definition second3 :: "char \<Rightarrow> char \<Rightarrow> bool" where
  "second3 b c \<longleftrightarrow>
     (if code b = 224 then 160 \<le> code c \<and> code c < 192
      else if code b = 237 then 128 \<le> code c \<and> code c < 160
      else is_cont c)"

definition second4 :: "char \<Rightarrow> char \<Rightarrow> bool" where
  "second4 b c \<longleftrightarrow>
     (if code b = 240 then 144 \<le> code c \<and> code c < 192
      else if code b = 244 then 128 \<le> code c \<and> code c < 144
      else is_cont c)"

text \<open>
  The next chunk of a byte string: a well-formed scalar value (\<^const>\<open>True\<close> and its length)
  or the longest prefix of one that the decoder replaces as a whole.
\<close>

definition utf8_next :: "char \<Rightarrow> bytes \<Rightarrow> bool \<times> nat" where
  "utf8_next b r =
     (if code b < 128 then (True, 1)
      else if 194 \<le> code b \<and> code b < 224 then
        (case r of c # _ \<Rightarrow> if is_cont c then (True, 2) else (False, 1) | [] \<Rightarrow> (False, 1))
      else if 224 \<le> code b \<and> code b < 240 then
        (case r of
           c # d # _ \<Rightarrow>
             if \<not> second3 b c then (False, 1) else if is_cont d then (True, 3) else (False, 2)
         | [c] \<Rightarrow> if second3 b c then (False, 2) else (False, 1)
         | [] \<Rightarrow> (False, 1))
      else if 240 \<le> code b \<and> code b < 245 then
        (case r of
           c # d # e # _ \<Rightarrow>
             if \<not> second4 b c then (False, 1)
             else if \<not> is_cont d then (False, 2)
             else if is_cont e then (True, 4) else (False, 3)
         | [c, d] \<Rightarrow>
             if \<not> second4 b c then (False, 1) else if is_cont d then (False, 3) else (False, 2)
         | [c] \<Rightarrow> if second4 b c then (False, 2) else (False, 1)
         | [] \<Rightarrow> (False, 1))
      else (False, 1))"

lemma utf8_next_pos: "0 < snd (utf8_next b r)"
  by (simp add: utf8_next_def split: list.splits)

text \<open>\<^verbatim>\<open>str::from_utf8\<close> succeeds.\<close>

function utf8_valid :: "bytes \<Rightarrow> bool" where
  "utf8_valid [] = True"
| "utf8_valid (b # r) =
     (fst (utf8_next b r) \<and> utf8_valid (drop (snd (utf8_next b r) - 1) r))"
  by pat_completeness auto
termination
  by (relation "measure length") auto

text \<open>\<^verbatim>\<open>String::from_utf8_lossy\<close>: an ill-formed chunk becomes U+FFFD.\<close>

function utf8_lossy :: "bytes \<Rightarrow> bytes" where
  "utf8_lossy [] = []"
| "utf8_lossy (b # r) =
     (let (ok, n) = utf8_next b r
      in (if ok then b # take (n - 1) r else [CHR 0xEF, CHR 0xBF, CHR 0xBD])
         @ utf8_lossy (drop (n - 1) r))"
  by pat_completeness auto
termination
  by (relation "measure length") auto

lemma utf8_lossy_valid: "utf8_valid s \<Longrightarrow> utf8_lossy s = s"
proof (induction s rule: utf8_valid.induct)
  case (2 b r)
  then show ?case by (cases "utf8_next b r") simp
qed simp

lemma utf8_valid_ascii: "(\<forall>c \<in> set s. code c < 128) \<Longrightarrow> utf8_valid s"
  by (induction s) (auto simp: utf8_next_def)

lemma utf8_valid_ascii_append:
  "(\<forall>c \<in> set s. code c < 128) \<Longrightarrow> utf8_valid (s @ t) = utf8_valid t"
  by (induction s) (auto simp: utf8_next_def)

section \<open>Search and prefixes\<close>

definition starts_with :: "string \<Rightarrow> string \<Rightarrow> bool" where
  "starts_with s p \<longleftrightarrow> take (length p) s = p"

fun contains :: "string \<Rightarrow> string \<Rightarrow> bool" where
  "contains [] p = (p = [])"
| "contains (x # xs) p = (starts_with (x # xs) p \<or> contains xs p)"

definition strip_prefix :: "string \<Rightarrow> string \<Rightarrow> string option" where
  "strip_prefix s p = (if starts_with s p then Some (drop (length p) s) else None)"

fun find_char :: "string \<Rightarrow> char \<Rightarrow> nat option" where
  "find_char [] c = None"
| "find_char (x # xs) c = (if x = c then Some 0 else map_option Suc (find_char xs c))"

lemma strip_prefix_append [simp]: "strip_prefix (p @ s) p = Some s"
  by (simp add: strip_prefix_def starts_with_def)

lemma strip_prefix_Some: "strip_prefix s p = Some r \<longleftrightarrow> s = p @ r"
  by (auto simp: strip_prefix_def starts_with_def) (metis append_take_drop_id)

lemma find_char_append: "c \<notin> set s \<Longrightarrow> find_char (s @ c # t) c = Some (length s)"
  by (induction s) auto

lemma find_char_Some:
  "find_char s c = Some n \<longleftrightarrow> n < length s \<and> s ! n = c \<and> c \<notin> set (take n s)"
proof (induction s arbitrary: n)
  case (Cons x xs)
  then show ?case by (cases n) auto
qed simp

lemma starts_with_append [simp]: "starts_with (p @ s) p"
  by (simp add: starts_with_def)

lemma contains_iff: "contains s p \<longleftrightarrow> (\<exists>a b. s = a @ p @ b)"
proof (induction s)
  case (Cons x xs)
  have "starts_with (x # xs) p \<longleftrightarrow> (\<exists>b. x # xs = p @ b)"
    by (metis append_take_drop_id starts_with_append starts_with_def)
  moreover have "(\<exists>a b. x # xs = a @ p @ b) \<longleftrightarrow> (\<exists>b. x # xs = p @ b) \<or> (\<exists>a b. xs = a @ p @ b)"
    by (metis Cons_eq_append_conv append_Cons)
  ultimately show ?case using Cons.IH by auto
qed auto

lemma contains_char: "contains s [c] \<longleftrightarrow> c \<in> set s"
  by (auto simp: contains_iff in_set_conv_decomp)

section \<open>Decimal numbers\<close>

definition digit_val :: "char \<Rightarrow> nat option" where
  "digit_val c = (if 48 \<le> code c \<and> code c \<le> 57 then Some (code c - 48) else None)"

text \<open>Accumulates digits; the checked multiplication and addition fail at \<open>lim\<close>.\<close>

fun parse_digits :: "nat \<Rightarrow> nat \<Rightarrow> string \<Rightarrow> nat option" where
  "parse_digits lim acc [] = Some acc"
| "parse_digits lim acc (c # cs) =
     (case digit_val c of
        None \<Rightarrow> None
      | Some d \<Rightarrow> if 10 * acc + d < lim then parse_digits lim (10 * acc + d) cs else None)"

text \<open>
  \<^verbatim>\<open>from_str_radix\<close> for an unsigned type with values below \<open>lim\<close>: a lone sign is
  an error, one leading \<^verbatim>\<open>+\<close> is skipped, a \<^verbatim>\<open>-\<close> is an invalid digit.
\<close>

definition parse_uint :: "nat \<Rightarrow> string \<Rightarrow> nat option" where
  "parse_uint lim s =
     (case s of
        [] \<Rightarrow> None
      | c # cs \<Rightarrow>
          if cs = [] \<and> (c = CHR ''+'' \<or> c = CHR ''-'') then None
          else if c = CHR ''+'' then parse_digits lim 0 cs
          else parse_digits lim 0 (c # cs))"

definition parse_u32 :: "string \<Rightarrow> u32 option" where
  "parse_u32 s = map_option word_of_nat (parse_uint (2 ^ 32) s)"

definition parse_u64 :: "string \<Rightarrow> u64 option" where
  "parse_u64 s = map_option word_of_nat (parse_uint (2 ^ 64) s)"

text \<open>\<^verbatim>\<open>parse::<i32>\<close> accumulates a negative number downwards, to \<^verbatim>\<open>i32::MIN\<close>.\<close>

definition parse_i32 :: "string \<Rightarrow> i32 option" where
  "parse_i32 s =
     (case s of
        c # d # cs \<Rightarrow>
          if c = CHR ''-'' then map_option (\<lambda>n. - word_of_nat n) (parse_digits (2 ^ 31 + 1) 0 (d # cs))
          else map_option word_of_nat (parse_uint (2 ^ 31) s)
      | _ \<Rightarrow> map_option word_of_nat (parse_uint (2 ^ 31) s))"

definition digit_char :: "nat \<Rightarrow> char" where
  "digit_char d = char_of (48 + d)"

fun dec :: "nat \<Rightarrow> string" where
  "dec n = (if n < 10 then [digit_char n] else dec (n div 10) @ [digit_char (n mod 10)])"

declare dec.simps [simp del]

text \<open>\<^verbatim>\<open>{:03}\<close>: zero-padded to three characters.\<close>

definition pad3 :: "nat \<Rightarrow> string" where
  "pad3 n = replicate (3 - length (dec n)) CHR ''0'' @ dec n"

lemma code_digit_char: "d < 10 \<Longrightarrow> code (digit_char d) = 48 + d"
  by (simp add: digit_char_def)

lemma digit_val_digit_char: "d < 10 \<Longrightarrow> digit_val (digit_char d) = Some d"
  by (simp add: digit_val_def code_digit_char)

lemma parse_digits_snoc:
  "parse_digits lim acc (s @ [c]) =
     (case parse_digits lim acc s of
        None \<Rightarrow> None
      | Some v \<Rightarrow> (case digit_val c of
          None \<Rightarrow> None
        | Some d \<Rightarrow> if 10 * v + d < lim then Some (10 * v + d) else None))"
  by (induction s arbitrary: acc) (auto split: option.splits)

lemma parse_digits_less: "parse_digits lim acc s = Some v \<Longrightarrow> acc < lim \<Longrightarrow> v < lim"
  by (induction s arbitrary: acc) (auto split: option.splits if_splits)

lemma parse_digits_mono:
  "parse_digits lim acc s = Some v \<Longrightarrow> lim \<le> lim' \<Longrightarrow> parse_digits lim' acc s = Some v"
  by (induction s arbitrary: acc) (auto split: option.splits if_splits)

lemma parse_digits_cut:
  "parse_digits lim' acc s = Some v \<Longrightarrow> v < lim \<Longrightarrow> parse_digits lim acc s = Some v"
proof (induction s arbitrary: acc)
  case (Cons c cs)
  have grow: "a \<le> v" if "parse_digits lim' a cs = Some v" for a
    using that by (induction cs arbitrary: a) (fastforce split: option.splits if_splits)+
  from Cons show ?case
    by (auto split: option.splits if_splits dest: grow)
qed simp

lemma dec_digits: "c \<in> set (dec n) \<Longrightarrow> 48 \<le> code c \<and> code c \<le> 57"
proof (induction n rule: dec.induct)
  case (1 n)
  then show ?case
    by (subst (asm) (2) dec.simps) (auto simp: code_digit_char split: if_splits)
qed

lemma dec_not_Nil [simp]: "dec n \<noteq> []"
  by (subst dec.simps) simp

lemma parse_digits_dec: "n < lim \<Longrightarrow> parse_digits lim 0 (dec n) = Some n"
proof (induction n rule: dec.induct)
  case (1 n)
  show ?case
  proof (cases "n < 10")
    case True
    with "1.prems" show ?thesis by (subst dec.simps) (simp add: digit_val_digit_char)
  next
    case False
    with "1.prems" have "n div 10 < lim" by linarith
    with False "1.IH" have "parse_digits lim 0 (dec (n div 10)) = Some (n div 10)" by simp
    with False "1.prems" show ?thesis
      by (subst dec.simps) (simp add: parse_digits_snoc digit_val_digit_char)
  qed
qed

lemma parse_uint_dec: "n < lim \<Longrightarrow> parse_uint lim (dec n) = Some n"
proof -
  assume "n < lim"
  obtain c cs where d: "dec n = c # cs" by (cases "dec n") auto
  then have "c \<noteq> CHR ''+'' \<and> c \<noteq> CHR ''-''" using dec_digits [of c n] by auto
  with d parse_digits_dec [OF \<open>n < lim\<close>] show ?thesis by (simp add: parse_uint_def)
qed

lemma parse_uint_less: "parse_uint lim s = Some v \<Longrightarrow> 0 < lim \<Longrightarrow> v < lim"
  by (auto simp: parse_uint_def simp del: parse_digits.simps(2)
      split: list.splits if_splits dest: parse_digits_less)

lemma parse_uint_cut: "parse_uint lim' s = Some v \<Longrightarrow> v < lim \<Longrightarrow> parse_uint lim s = Some v"
  by (auto simp: parse_uint_def simp del: parse_digits.simps(2)
      split: list.splits if_splits dest: parse_digits_cut)

lemma parse_u32_dec: "n < 2 ^ 32 \<Longrightarrow> parse_u32 (dec n) = Some (word_of_nat n)"
  by (simp add: parse_u32_def parse_uint_dec del: power_numeral)

lemma parse_digits_Some_nonsign:
  "parse_digits lim acc s = Some v \<Longrightarrow> c \<in> set s \<Longrightarrow> 48 \<le> code c \<and> code c \<le> 57"
  by (induction s arbitrary: acc) (auto simp: digit_val_def split: option.splits if_splits)

text \<open>Below 2^31 the two 32-bit parsers agree.\<close>

lemma parse_i32_u32:
  assumes "parse_u32 s = Some v" and "unat v < 2 ^ 31"
  shows "parse_i32 s = Some v"
proof -
  obtain n where n: "parse_uint (2 ^ 32) s = Some n" "v = word_of_nat n"
    using assms(1) by (auto simp: parse_u32_def simp del: power_numeral)
  have "n < 2 ^ 32"
    using n(1) by (rule parse_uint_less) simp
  with assms(2) n(2) have n31: "n < 2 ^ 31" by simp
  from n(1) n31 have "parse_uint (2 ^ 31) s = Some n"
    by (rule parse_uint_cut)
  moreover have "s = CHR ''-'' # d # cs \<Longrightarrow> False" for d cs
    using n(1) by (simp add: parse_uint_def digit_val_def)
  ultimately show ?thesis
    using n(2) by (auto simp: parse_i32_def split: list.splits)
qed

end
