(* ===== verification/Gguf_Bytes.thy ===== *)
theory Gguf_Bytes
  imports Rust_Text
begin

text \<open>
  The byte level of the GGUF splitter (\<^verbatim>\<open>tools/gguf-splitter/src/main.rs\<close>): its error
  values, little-endian numbers, \<^verbatim>\<open>read_u32\<close> and \<^verbatim>\<open>read_u64\<close>, \<^verbatim>\<open>align_up\<close>.
  Two interfaces are stated here as locales: a \<open>skipper\<close> moves an offset past an encoded
  item, a \<open>codec\<close> also returns the item; each gives the law of its counted loop. The
  integer readers are interpreted as codecs.
\<close>

unbundle bit_operations_syntax

section \<open>Errors of the splitter\<close>

datatype gguf_error =
    ModelNotFound string
  | FileTooSmall
  | BadMagic u32
  | EofU32 usize
  | EofU64 usize
  | TypeCount
  | UnknownType u32
  | NameOverflow usize
  | NotUtf8
  | ZeroLayersPerShard
  | ShardExists string
  | BadConfig
  | IoError string
  | WriteError

type_synonym 'a gres = "(gguf_error, 'a) outcome"

section \<open>Little-endian numbers\<close>

fun le_nat :: "bytes \<Rightarrow> nat" where
  "le_nat [] = 0"
| "le_nat (b # bs) = code b + 256 * le_nat bs"

fun le_bytes :: "nat \<Rightarrow> nat \<Rightarrow> bytes" where
  "le_bytes 0 n = []"
| "le_bytes (Suc k) n = char_of (n mod 256) # le_bytes k (n div 256)"

definition u32_from_le :: "bytes \<Rightarrow> u32" where
  "u32_from_le bs = word_of_nat (le_nat bs)"

definition u64_from_le :: "bytes \<Rightarrow> u64" where
  "u64_from_le bs = word_of_nat (le_nat bs)"

definition u32_to_le :: "u32 \<Rightarrow> bytes" where
  "u32_to_le w = le_bytes 4 (unat w)"

definition u64_to_le :: "u64 \<Rightarrow> bytes" where
  "u64_to_le w = le_bytes 8 (unat w)"

lemma length_le_bytes [simp]: "length (le_bytes k n) = k"
  by (induction k arbitrary: n) auto

lemma length_u32_to_le [simp]: "length (u32_to_le w) = 4"
  by (simp add: u32_to_le_def)

lemma length_u64_to_le [simp]: "length (u64_to_le w) = 8"
  by (simp add: u64_to_le_def)

lemma le_nat_le_bytes: "le_nat (le_bytes k n) = n mod 256 ^ k"
proof (induction k arbitrary: n)
  case (Suc k)
  have "n mod (256 * 256 ^ k) = 256 * (n div 256 mod 256 ^ k) + n mod 256"
    by (rule mod_mult2_eq)
  with Suc show ?case by (simp add: add.commute)
qed simp

lemma u32_from_to_le [simp]: "u32_from_le (u32_to_le w) = w"
proof -
  have "unat w < 256 ^ 4" using unsigned_less [of w] by simp
  then show ?thesis by (simp add: u32_from_le_def u32_to_le_def le_nat_le_bytes)
qed

lemma u64_from_to_le [simp]: "u64_from_le (u64_to_le w) = w"
proof -
  have "unat w < 256 ^ 8" using unsigned_less [of w] by simp
  then show ?thesis by (simp add: u64_from_le_def u64_to_le_def le_nat_le_bytes)
qed

lemma le_nat_append: "le_nat (a @ b) = le_nat a + 256 ^ length a * le_nat b"
  by (induction a) (auto simp: algebra_simps)

lemma code_less_256: "code c < 256"
  by (cases c) (auto simp: of_bool_def)

lemma le_nat_less: "le_nat bs < 256 ^ length bs"
proof (induction bs)
  case (Cons b bs)
  have "code b + 256 * le_nat bs < 256 + 256 * le_nat bs" using code_less_256 by simp
  also have "\<dots> = 256 * Suc (le_nat bs)" by simp
  also have "\<dots> \<le> 256 * 256 ^ length bs" using Cons by (simp del: mult_Suc_right)
  finally show ?case by simp
qed simp

lemma unat_u64_from_le: "length bs = 8 \<Longrightarrow> unat (u64_from_le bs) = le_nat bs"
proof -
  assume "length bs = 8"
  then have "le_nat bs < 2 ^ 64" using le_nat_less [of bs] by simp
  then show ?thesis by (simp add: u64_from_le_def)
qed

lemma take_le_bytes: "k \<le> m \<Longrightarrow> take k (le_bytes m n) = le_bytes k n"
proof (induction k arbitrary: m n)
  case (Suc k)
  then show ?case by (cases m) auto
qed simp

section \<open>Reading at an offset\<close>

definition read_u32 :: "bool \<Rightarrow> bytes \<Rightarrow> usize \<Rightarrow> (u32 \<times> usize) gres" where
  "read_u32 oc data off =
     and_then (wadd oc off 4) (\<lambda>e.
       if wlen data < e then Fail (EofU32 off)
       else and_then (subslice data off e) (\<lambda>bs. Val (u32_from_le bs, e)))"

definition read_u64 :: "bool \<Rightarrow> bytes \<Rightarrow> usize \<Rightarrow> (u64 \<times> usize) gres" where
  "read_u64 oc data off =
     and_then (wadd oc off 8) (\<lambda>e.
       if wlen data < e then Fail (EofU64 off)
       else and_then (subslice data off e) (\<lambda>bs. Val (u64_from_le bs, e)))"

text \<open>The bytes \<open>bs\<close> stand at offset \<open>off\<close> of \<open>data\<close>.\<close>

definition holds_at :: "bytes \<Rightarrow> usize \<Rightarrow> bytes \<Rightarrow> bool" where
  "holds_at data off bs \<longleftrightarrow>
     unat off + length bs \<le> length data \<and> take (length bs) (drop (unat off) data) = bs"

lemma holds_at_unat:
  assumes "valid_slice data" and "holds_at data off bs"
  shows "unat (off + word_of_nat (length bs)) = unat off + length bs"
    and "unat off + length bs < 2 ^ 63"
proof -
  from assms show bound: "unat off + length bs < 2 ^ 63"
    by (simp add: valid_slice_def holds_at_def)
  then have "unat (wlen bs) = length bs" by simp
  with bound show "unat (off + word_of_nat (length bs)) = unat off + length bs"
    by (subst unat_add_exact) auto
qed

lemma holds_at_append:
  assumes "valid_slice data"
  shows "holds_at data off (a @ b) \<longleftrightarrow>
           holds_at data off a \<and> holds_at data (off + word_of_nat (length a)) b"
proof (cases "holds_at data off a")
  case True
  note len = holds_at_unat [OF assms True]
  have "take (length a + length b) (drop (unat off) data) =
      take (length a) (drop (unat off) data) @ take (length b) (drop (unat off + length a) data)"
    by (simp add: take_add add.commute)
  with True show ?thesis
    unfolding holds_at_def len by (simp add: add.assoc)
next
  case False
  have "holds_at data off (a @ b) \<Longrightarrow> holds_at data off a"
    by (auto simp: holds_at_def take_add append_eq_append_conv dest: arg_cong [where f = "take (length a)"])
  with False show ?thesis by blast
qed

lemma holds_at_concat: "length pre = unat off \<Longrightarrow> holds_at (pre @ bs @ post) off bs"
  by (simp add: holds_at_def)

lemma holds_at_Nil: "unat off \<le> length data \<Longrightarrow> holds_at data off []"
  by (simp add: holds_at_def)

lemma subslice_holds_at:
  assumes "valid_slice data" and "holds_at data off bs" and "e = off + word_of_nat (length bs)"
  shows "subslice data off e = Val bs"
  using assms holds_at_unat [OF assms(1,2)]
  by (auto simp: subslice_def holds_at_def word_le_nat_alt)

lemma wadd_holds_at:
  assumes "valid_slice data" and "holds_at data off bs" and "length bs = unat n"
  shows "wadd oc off n = Val (off + n)"
  using assms holds_at_unat [OF assms(1,2)] by (intro wadd_exact) simp

text \<open>Both readers succeed exactly when the bytes are there, in either build profile.\<close>

lemma read_u32_eq_Val:
  assumes "valid_slice data"
  shows "read_u32 oc data off = Val (v, off') \<longleftrightarrow>
    unat off + 4 \<le> length data \<and> off' = off + 4 \<and> unat off' = unat off + 4 \<and>
    v = u32_from_le (take 4 (drop (unat off) data))"
proof (cases "unat off + 4 < 2 ^ 64")
  case True
  then have e: "unat (off + 4) = unat off + 4" by (simp add: unat_add_exact)
  with True assms show ?thesis
    by (auto simp: read_u32_def and_then_eq_Val wadd_def subslice_def word_le_nat_alt word_less_nat_alt unat_wlen)
next
  case False
  with assms have "\<not> off \<le> off + 4" by (simp add: no_olen_add_nat)
  with False assms show ?thesis
    by (auto simp: read_u32_def and_then_eq_Val wadd_def subslice_def valid_slice_def)
qed

lemma read_u64_eq_Val:
  assumes "valid_slice data"
  shows "read_u64 oc data off = Val (v, off') \<longleftrightarrow>
    unat off + 8 \<le> length data \<and> off' = off + 8 \<and> unat off' = unat off + 8 \<and>
    v = u64_from_le (take 8 (drop (unat off) data))"
proof (cases "unat off + 8 < 2 ^ 64")
  case True
  then have e: "unat (off + 8) = unat off + 8" by (simp add: unat_add_exact)
  with True assms show ?thesis
    by (auto simp: read_u64_def and_then_eq_Val wadd_def subslice_def word_le_nat_alt word_less_nat_alt unat_wlen)
next
  case False
  with assms have "\<not> off \<le> off + 8" by (simp add: no_olen_add_nat)
  with False assms show ?thesis
    by (auto simp: read_u64_def and_then_eq_Val wadd_def subslice_def valid_slice_def)
qed

lemma read_no_StackOverflow [simp]:
  "read_u32 oc data off \<noteq> Panic StackOverflow" "read_u64 oc data off \<noteq> Panic StackOverflow"
  by (auto simp: read_u32_def read_u64_def and_then_eq_Panic subslice_def dest: wadd_Panic)

section \<open>Alignment\<close>

definition align_up :: "bool \<Rightarrow> 'w::len word \<Rightarrow> 'w word \<Rightarrow> ('e, 'w word) outcome" where
  "align_up oc x align =
     and_then (wadd oc x align) (\<lambda>s.
     and_then (wsub oc s 1) (\<lambda>t.
     and_then (wsub oc align 1) (\<lambda>m. Val (t AND NOT m))))"

lemma word_of_nat_unat [simp]: "word_of_nat (unat w) = w"
  by (rule word_unat_eq_iff [THEN iffD2]) (simp add: unat_of_nat)

lemma unat_lt_64: "unat t < 2 ^ 64" for t :: u64
  using unsigned_less [of t] by simp

lemma align_down_32: "unat (t AND NOT 31) = unat t div 32 * 32" for t :: u64
proof -
  have m: "(31 :: u64) = mask 5" by (simp add: mask_eq_exp_minus_1)
  have "t AND NOT 31 = push_bit 5 (drop_bit 5 t)"
    unfolding m by (rule bit_eqI) (auto simp: bit_simps)
  also have "unat \<dots> = unat (drop_bit 5 t) * 32"
  proof -
    have "unat (drop_bit 5 t) * 32 < 2 ^ 64"
      using unat_lt_64 [of t] by (simp add: drop_bit_eq_div unat_div)
    then show ?thesis by (simp add: push_bit_eq_mult unat_word_ariths)
  qed
  finally show ?thesis by (simp add: drop_bit_eq_div unat_div)
qed

text \<open>Rounding up to the next multiple of 32, the alignment the splitter uses.\<close>

definition round32 :: "nat \<Rightarrow> nat" where
  "round32 n = (n + 31) div 32 * 32"

lemma round32_ge: "n \<le> round32 n"
  by (simp add: round32_def)

lemma round32_less: "round32 n < n + 32"
  by (simp add: round32_def)

lemma round32_dvd [simp]: "32 dvd round32 n"
  by (simp add: round32_def)

lemma round32_mult: "32 dvd n \<Longrightarrow> round32 n = n"
  by (auto simp: round32_def dvd_def)

lemma round32_add: "32 dvd m \<Longrightarrow> round32 (m + n) = m + round32 n"
  by (auto simp: round32_def dvd_def add.assoc)

lemma round32_least: "32 dvd m \<Longrightarrow> n \<le> m \<Longrightarrow> round32 n \<le> m"
  by (auto simp: round32_def dvd_def)

lemma align_up_32:
  fixes x :: u64
  assumes "unat x + 32 < 2 ^ 64"
  shows "align_up oc x 32 = Val (word_of_nat (round32 (unat x)))"
proof -
  have s: "unat (x + 32) = unat x + 32" using assms unat_add_exact [of x 32] by simp
  have one: "1 \<le> x + 32" using s by (simp add: word_le_nat_alt)
  then have "unat (x + 32 - 1) = unat x + 31" using s by (simp only: unat_sub_exact) simp
  then have "unat (x + 32 - 1 AND NOT 31) = round32 (unat x)"
    by (simp only: align_down_32 round32_def)
  then have "x + 32 - 1 AND NOT 31 = word_of_nat (round32 (unat x))"
    by (metis word_of_nat_unat)
  then show ?thesis
    using assms one by (simp add: align_up_def wadd_exact wsub_exact word_le_nat_alt)
qed

section \<open>Interfaces: items encoded in a byte string\<close>

text \<open>
  A skipper moves the offset past one encoded item, wherever it stands in the data. The
  items it may meet are those that satisfy \<open>ok\<close>.
\<close>

locale skipper =
  fixes ok :: "'a \<Rightarrow> bool"
    and enc :: "'a \<Rightarrow> bytes"
    and sk :: "bytes \<Rightarrow> usize \<Rightarrow> ('e, usize) outcome"
  assumes sk_enc:
    "\<lbrakk>ok x; valid_slice data; holds_at data off (enc x)\<rbrakk>
      \<Longrightarrow> sk data off = Val (off + word_of_nat (length (enc x)))"
begin

lemma repeat_enc:
  assumes "\<forall>x \<in> set xs. ok x" and "valid_slice data" and "holds_at data off (concat (map enc xs))"
  shows "repeat_out (length xs) (sk data) off =
           Val (off + word_of_nat (length (concat (map enc xs))))"
  using assms(1,3)
proof (induction xs arbitrary: off)
  case (Cons x xs)
  then have "sk data off = Val (off + word_of_nat (length (enc x)))"
    using assms(2) by (intro sk_enc) (auto simp: holds_at_append)
  then show ?case
    using Cons assms(2) by (simp add: holds_at_append add.assoc)
qed simp

end

text \<open>A codec returns the decoded item (its \<open>view\<close>) together with the new offset.\<close>

locale codec =
  fixes ok :: "'a \<Rightarrow> bool"
    and enc :: "'a \<Rightarrow> bytes"
    and view :: "'a \<Rightarrow> 'b"
    and rd :: "bytes \<Rightarrow> usize \<Rightarrow> ('e, 'b \<times> usize) outcome"
  assumes rd_enc:
    "\<lbrakk>ok x; valid_slice data; holds_at data off (enc x)\<rbrakk>
      \<Longrightarrow> rd data off = Val (view x, off + word_of_nat (length (enc x)))"
begin

lemma read_times_enc:
  assumes "\<forall>x \<in> set xs. ok x" and "valid_slice data" and "holds_at data off (concat (map enc xs))"
  shows "read_times (length xs) (rd data) off =
           Val (map view xs, off + word_of_nat (length (concat (map enc xs))))"
  using assms(1,3)
proof (induction xs arbitrary: off)
  case (Cons x xs)
  then have "rd data off = Val (view x, off + word_of_nat (length (enc x)))"
    using assms(2) by (intro rd_enc) (auto simp: holds_at_append)
  then show ?case
    using Cons assms(2) by (simp add: holds_at_append add.assoc)
qed simp

end

text \<open>Dropping the item, every codec is a skipper.\<close>

sublocale codec \<subseteq> forget: skipper ok enc "\<lambda>data off. and_then (rd data off) (\<lambda>(_, off'). Val off')"
  by unfold_locales (simp add: rd_enc)

interpretation u32_codec: codec "\<lambda>_. True" u32_to_le "\<lambda>w. w" "read_u32 oc" for oc
proof unfold_locales
  fix x :: u32 and data off
  assume "valid_slice data" and "holds_at data off (u32_to_le x)"
  then show "read_u32 oc data off = Val (x, off + word_of_nat (length (u32_to_le x)))"
    using holds_at_unat [of data off "u32_to_le x"]
    by (simp add: read_u32_eq_Val holds_at_def)
qed

interpretation u64_codec: codec "\<lambda>_. True" u64_to_le "\<lambda>w. w" "read_u64 oc" for oc
proof unfold_locales
  fix x :: u64 and data off
  assume "valid_slice data" and "holds_at data off (u64_to_le x)"
  then show "read_u64 oc data off = Val (x, off + word_of_nat (length (u64_to_le x)))"
    using holds_at_unat [of data off "u64_to_le x"]
    by (simp add: read_u64_eq_Val holds_at_def)
qed

lemmas read_int_enc = u32_codec.rd_enc [OF TrueI] u64_codec.rd_enc [OF TrueI]

end
