(* ===== verification/Gguf_Metadata.thy ===== *)
theory Gguf_Metadata
  imports Gguf_Bytes
begin

text \<open>
  The metadata section of a GGUF file: \<^verbatim>\<open>skip_value\<close>, the scan that finds the end of the
  section, and \<^verbatim>\<open>get_metadata_string\<close>. The abstract specification is the encoding of a
  list of keys and typed values; the scan is shown to stop exactly behind it and the lookup
  to return the string of the first matching key.

  \<^verbatim>\<open>skip_value\<close> recurses once per level of array nesting, on a stack that is finite: the
  first argument \<open>d\<close> is the number of frames left, and a call without one kills the process
  (\<open>Panic StackOverflow\<close>). With overflow checks, a stack of one frame per twelve bytes of
  the file is enough for every file; in a release build no stack is (a crafted string
  length moves the offset backwards).
\<close>

section \<open>Skipping values\<close>

fun skip_value :: "nat \<Rightarrow> bool \<Rightarrow> bytes \<Rightarrow> usize \<Rightarrow> u32 \<Rightarrow> usize gres" where
  "skip_value 0 oc data off ty = Panic StackOverflow"
| "skip_value (Suc d) oc data off ty =
     (if ty = 0 \<or> ty = 1 \<or> ty = 7 then wadd oc off 1
      else if ty = 2 \<or> ty = 3 then wadd oc off 2
      else if ty = 4 \<or> ty = 5 \<or> ty = 6 then wadd oc off 4
      else if ty = 10 \<or> ty = 11 \<or> ty = 12 then wadd oc off 8
      else if ty = 8 then
        and_then (read_u64 oc data off) (\<lambda>(len, off). wadd oc off len)
      else if ty = 9 then
        and_then (read_u32 oc data off) (\<lambda>(element_type, off).
        and_then (read_u64 oc data off) (\<lambda>(arr_len, off).
        repeat_out (unat arr_len) (\<lambda>off. skip_value d oc data off element_type) off))
      else if ty = 13 then Fail TypeCount
      else Fail (UnknownType ty))"

text \<open>One key-value pair, and the scan over all of them from the end of the header.\<close>

definition skip_kv :: "nat \<Rightarrow> bool \<Rightarrow> bytes \<Rightarrow> usize \<Rightarrow> usize gres" where
  "skip_kv d oc data off =
     and_then (read_u64 oc data off) (\<lambda>(key_len, off).
     and_then (wadd oc off key_len) (\<lambda>off.
     and_then (read_u32 oc data off) (\<lambda>(value_type, off).
     skip_value d oc data off value_type)))"

definition scan_metadata :: "nat \<Rightarrow> bool \<Rightarrow> bytes \<Rightarrow> u64 \<Rightarrow> usize gres" where
  "scan_metadata d oc data kv_count = repeat_out (unat kv_count) (skip_kv d oc data) 24"

text \<open>\<^verbatim>\<open>.ok()?\<close> in a function that returns an \<^verbatim>\<open>Option\<close>: an error ends it with \<^verbatim>\<open>None\<close>.\<close>

fun ok_then :: "('e, 'a) outcome \<Rightarrow> ('a \<Rightarrow> ('e, 'b option) outcome) \<Rightarrow> ('e, 'b option) outcome" where
  "ok_then (Val x) f = f x"
| "ok_then (Fail e) f = Val None"
| "ok_then (Panic p) f = Panic p"

fun get_metadata_string ::
  "nat \<Rightarrow> nat \<Rightarrow> bool \<Rightarrow> bytes \<Rightarrow> usize \<Rightarrow> string \<Rightarrow> (string option) gres" where
  "get_metadata_string 0 d oc data off target_key = Val None"
| "get_metadata_string (Suc kv_count) d oc data off target_key =
     ok_then (read_u64 oc data off) (\<lambda>(key_len, off).
     and_then (wadd oc off key_len) (\<lambda>key_end.
     and_then (subslice data off key_end) (\<lambda>key.
     if \<not> utf8_valid key then Val None
     else
       ok_then (read_u32 oc data key_end) (\<lambda>(value_type, off).
       if key = target_key then
         (if value_type = 8 then
            ok_then (read_u64 oc data off) (\<lambda>(str_len, off).
            and_then (wadd oc off str_len) (\<lambda>str_end.
            and_then (subslice data off str_end) (\<lambda>s.
            Val (if utf8_valid s then Some s else None))))
          else Val None)
       else
         ok_then (skip_value d oc data off value_type) (\<lambda>off.
         get_metadata_string kv_count d oc data off target_key)))))"

section \<open>The format: typed values and their encoding\<close>

datatype gval =
    Scalar u32 bytes
  | Str bytes
  | Arr u32 "gval list"

fun value_type :: "gval \<Rightarrow> u32" where
  "value_type (Scalar t bs) = t"
| "value_type (Str s) = 8"
| "value_type (Arr t vs) = 9"

fun enc_value :: "gval \<Rightarrow> bytes" where
  "enc_value (Scalar t bs) = bs"
| "enc_value (Str s) = u64_to_le (wlen s) @ s"
| "enc_value (Arr t vs) = u32_to_le t @ u64_to_le (wlen vs) @ concat (map enc_value vs)"

definition scalar_size :: "u32 \<Rightarrow> nat option" where
  "scalar_size t =
     (if t = 0 \<or> t = 1 \<or> t = 7 then Some 1
      else if t = 2 \<or> t = 3 then Some 2
      else if t = 4 \<or> t = 5 \<or> t = 6 then Some 4
      else if t = 10 \<or> t = 11 \<or> t = 12 then Some 8
      else None)"

fun wf_value :: "gval \<Rightarrow> bool" where
  "wf_value (Scalar t bs) = (scalar_size t = Some (length bs))"
| "wf_value (Str s) = True"
| "wf_value (Arr t vs) =
     (length vs < 2 ^ 64 \<and> list_all (\<lambda>v. value_type v = t \<and> wf_value v) vs)"

text \<open>Levels of nesting: the stack frames that skipping the value takes.\<close>

fun nesting :: "gval \<Rightarrow> nat" where
  "nesting (Arr t vs) = Suc (fold max (map nesting vs) 0)"
| "nesting v = 1"

type_synonym kv = "bytes \<times> gval"

definition enc_kv :: "kv \<Rightarrow> bytes" where
  "enc_kv kv = u64_to_le (wlen (fst kv)) @ fst kv @ u32_to_le (value_type (snd kv)) @ enc_value (snd kv)"

definition wf_kv :: "nat \<Rightarrow> kv \<Rightarrow> bool" where
  "wf_kv d kv \<longleftrightarrow> wf_value (snd kv) \<and> nesting (snd kv) \<le> d"

text \<open>What a lookup of a string in the list of pairs means.\<close>

definition lookup_string :: "kv list \<Rightarrow> bytes \<Rightarrow> string option" where
  "lookup_string kvs key =
     (case map_of kvs key of
        Some (Str s) \<Rightarrow> if utf8_valid s then Some s else None
      | _ \<Rightarrow> None)"

lemma fold_max_le_iff: "fold max xs (m :: nat) \<le> n \<longleftrightarrow> m \<le> n \<and> (\<forall>x \<in> set xs. x \<le> n)"
  by (induction xs arbitrary: m) auto

lemma wlen_eq_unat: "holds_at data off s \<Longrightarrow> valid_slice data \<Longrightarrow> unat (wlen s) = length s"
  by (simp add: holds_at_def valid_slice_def)

section \<open>Skipping inverts the encoding\<close>

text \<open>The branches of \<^verbatim>\<open>skip_value\<close>, one equation each.\<close>

lemma skip_value_scalar:
  "scalar_size t = Some n \<Longrightarrow> skip_value (Suc d) oc data off t = wadd oc off (word_of_nat n)"
  by (auto simp: scalar_size_def split: if_split_asm)

lemma skip_value_string:
  "skip_value (Suc d) oc data off 8 = and_then (read_u64 oc data off) (\<lambda>(len, off). wadd oc off len)"
  by simp

lemma skip_value_array:
  "skip_value (Suc d) oc data off 9 =
     and_then (read_u32 oc data off) (\<lambda>(element_type, off).
     and_then (read_u64 oc data off) (\<lambda>(arr_len, off).
     repeat_out (unat arr_len) (\<lambda>off. skip_value d oc data off element_type) off))"
  by simp

lemma skip_value_bad:
  "scalar_size t = None \<Longrightarrow> t \<noteq> 8 \<Longrightarrow> t \<noteq> 9 \<Longrightarrow>
     \<exists>e. skip_value (Suc d) oc data off t = Fail e"
  by (auto simp: scalar_size_def split: if_splits)

declare skip_value.simps(2) [simp del]

lemmas skip_value_branches = skip_value_scalar skip_value_string skip_value_array

lemma skip_value_enc:
  assumes "wf_value v" and "nesting v \<le> d" and "valid_slice data"
    and "holds_at data off (enc_value v)"
  shows "skip_value d oc data off (value_type v) = Val (off + word_of_nat (length (enc_value v)))"
  using assms
proof (induction d arbitrary: v data off)
  case 0
  then show ?case by (cases v) auto
next
  case (Suc d)
  show ?case
  proof (cases v)
    case (Scalar t bs)
    with Suc.prems have "wadd oc off (wlen bs) = Val (off + wlen bs)"
      by (intro wadd_holds_at) (auto simp: wlen_eq_unat)
    with Scalar Suc.prems show ?thesis by (simp add: skip_value_scalar)
  next
    case (Str s)
    with Suc.prems have h: "holds_at data off (u64_to_le (wlen s))"
      and s: "holds_at data (off + 8) s"
      by (auto simp: holds_at_append)
    with Suc.prems have "wadd oc (off + 8) (wlen s) = Val (off + 8 + wlen s)"
      by (intro wadd_holds_at) (auto simp: wlen_eq_unat)
    with Str read_int_enc(2) [OF \<open>valid_slice data\<close> h] show ?thesis
      by (simp add: skip_value_string add.assoc)
  next
    case (Arr t vs)
    have elems: "skipper (\<lambda>v. value_type v = t \<and> wf_value v \<and> nesting v \<le> d) enc_value
        (\<lambda>data off. skip_value d oc data off t)"
      by unfold_locales (auto intro: Suc.IH)
    from Arr Suc.prems have h: "holds_at data off (u32_to_le t)"
      "holds_at data (off + 4) (u64_to_le (wlen vs))"
      "holds_at data (off + 4 + 8) (concat (map enc_value vs))"
      by (auto simp: holds_at_append)
    from Arr Suc.prems have "unat (wlen vs) = length vs" by simp
    with skipper.repeat_enc [OF elems, of vs, OF _ \<open>valid_slice data\<close> h(3)] Arr Suc.prems
    have "repeat_out (unat (wlen vs)) (\<lambda>off. skip_value d oc data off t) (off + 4 + 8) =
        Val (off + 4 + 8 + word_of_nat (length (concat (map enc_value vs))))"
      by (auto simp: fold_max_le_iff list_all_iff)
    with Arr h(1,2) read_int_enc \<open>valid_slice data\<close> show ?thesis
      by (simp add: skip_value_array add.assoc)
  qed
qed

text \<open>The parts of an encoded pair at offset \<open>off\<close>, and what the readers make of them.\<close>

lemma kv_parts:
  assumes v: "valid_slice data" and h: "holds_at data off (enc_kv (k, w))"
  obtains off1 off2 where
    "read_u64 oc data off = Val (wlen k, off1)"
    and "wadd oc off1 (wlen k) = (Val off2 :: usize gres)"
    and "subslice data off1 off2 = (Val k :: bytes gres)"
    and "read_u32 oc data off2 = Val (value_type w, off2 + 4)"
    and "holds_at data (off2 + 4) (enc_value w)"
    and "off + word_of_nat (length (enc_kv (k, w))) = off2 + 4 + word_of_nat (length (enc_value w))"
proof
  define off2 where "off2 = off + 8 + wlen k"
  from h v have p: "holds_at data off (u64_to_le (wlen k))" "holds_at data (off + 8) k"
      "holds_at data off2 (u32_to_le (value_type w))" "holds_at data (off2 + 4) (enc_value w)"
    by (auto simp: enc_kv_def holds_at_append off2_def add.assoc)
  show "read_u64 oc data off = Val (wlen k, off + 8)"
    "read_u32 oc data off2 = Val (value_type w, off2 + 4)" "holds_at data (off2 + 4) (enc_value w)"
    using read_int_enc v p by simp_all
  show "wadd oc (off + 8) (wlen k) = (Val off2 :: usize gres)"
    "subslice data (off + 8) off2 = (Val k :: bytes gres)"
    using p(2) v by (auto simp: off2_def wlen_eq_unat intro: wadd_holds_at subslice_holds_at)
  show "off + word_of_nat (length (enc_kv (k, w))) = off2 + 4 + word_of_nat (length (enc_value w))"
    by (simp add: off2_def enc_kv_def)
qed

interpretation metadata_kv: skipper "wf_kv d" enc_kv "skip_kv d oc" for d oc
proof unfold_locales
  fix kv data off
  assume ok: "wf_kv d kv" and v: "valid_slice data" and h: "holds_at data off (enc_kv kv)"
  obtain k w where kv: "kv = (k, w)" by force
  from kv_parts [OF v h [unfolded kv], of oc] show "skip_kv d oc data off = Val (off + word_of_nat (length (enc_kv kv)))"
    using ok v by cases (simp add: skip_kv_def kv skip_value_enc wf_kv_def del: add.assoc)
qed

lemma scan_metadata_enc:
  assumes "\<forall>kv \<in> set kvs. wf_kv d kv" and "length kvs < 2 ^ 64" and "valid_slice data"
    and "holds_at data 24 (concat (map enc_kv kvs))"
  shows "scan_metadata d oc data (wlen kvs) = Val (24 + word_of_nat (length (concat (map enc_kv kvs))))"
  using metadata_kv.repeat_enc [OF assms(1,3,4)] assms(2) by (simp add: scan_metadata_def)

section \<open>Looking a string up\<close>

lemma get_metadata_string_enc:
  assumes "\<forall>kv \<in> set kvs. wf_kv d kv" and "\<forall>kv \<in> set kvs. utf8_valid (fst kv)"
    and "valid_slice data" and "holds_at data off (concat (map enc_kv kvs))"
  shows "get_metadata_string (length kvs) d oc data off key = Val (lookup_string kvs key)"
  using assms(1,2,4)
proof (induction kvs arbitrary: off)
  case Nil
  show ?case by (simp add: lookup_string_def)
next
  case (Cons kv kvs)
  note v = assms(3)
  obtain k w where kv: "kv = (k, w)" by force
  from Cons.prems(3) v have h: "holds_at data off (enc_kv (k, w))"
    and rest: "holds_at data (off + word_of_nat (length (enc_kv (k, w)))) (concat (map enc_kv kvs))"
    by (auto simp: kv holds_at_append)
  obtain off1 off2 where parts: "read_u64 oc data off = Val (wlen k, off1)"
    "wadd oc off1 (wlen k) = (Val off2 :: usize gres)"
    "subslice data off1 off2 = (Val k :: bytes gres)"
    "read_u32 oc data off2 = Val (value_type w, off2 + 4)"
    "holds_at data (off2 + 4) (enc_value w)"
    "off + word_of_nat (length (enc_kv (k, w))) = off2 + 4 + word_of_nat (length (enc_value w))"
    using kv_parts [OF v h] .
  have utf8: "utf8_valid k" using Cons.prems(2) kv by simp
  show ?case
  proof (cases "k = key")
    case False
    have "skip_value d oc data (off2 + 4) (value_type w) =
        Val (off + word_of_nat (length (enc_kv (k, w))))"
      unfolding parts(6) using Cons.prems(1) kv v parts(5) by (intro skip_value_enc) (auto simp: wf_kv_def)
    with False Cons.IH [OF _ _ rest] Cons.prems(1,2) show ?thesis
      by (simp add: kv parts utf8 lookup_string_def)
  next
    case True
    note parts = parts [unfolded True] and utf8 = utf8 [unfolded True]
    show ?thesis
    proof (cases w)
      case (Str s)
      with parts(5) v have "holds_at data (off2 + 4) (u64_to_le (wlen s))" and s: "holds_at data (off2 + 4 + 8) s"
        by (auto simp: holds_at_append)
      then have "read_u64 oc data (off2 + 4) = Val (wlen s, off2 + 4 + 8)"
        using read_int_enc(2) v by simp
      moreover have
        "wadd oc (off2 + 4 + 8) (wlen s) = (Val (off2 + 4 + 8 + wlen s) :: usize gres)"
        "subslice data (off2 + 4 + 8) (off2 + 4 + 8 + wlen s) = (Val s :: bytes gres)"
        using s v by (auto simp: wlen_eq_unat intro: wadd_holds_at subslice_holds_at)
      ultimately show ?thesis
        using Str True by (simp add: kv parts utf8 lookup_string_def)
    next
      case (Scalar t bs)
      with Cons.prems(1) kv have "t \<noteq> 8" by (auto simp: wf_kv_def scalar_size_def)
      with Scalar True show ?thesis by (simp add: kv parts utf8 lookup_string_def)
    next
      case (Arr t vs)
      with True show ?thesis by (simp add: kv parts utf8 lookup_string_def)
    qed
  qed
qed

section \<open>The stack\<close>

text \<open>With overflow checks, the offset only moves forward.\<close>

lemma wadd_True_forward: "wadd True a b = Val c \<Longrightarrow> unat a \<le> unat c"
  by (auto simp: wadd_checked unat_add_exact)

lemma skip_value_forward:
  "valid_slice data \<Longrightarrow> skip_value d True data off ty = Val off' \<Longrightarrow> unat off \<le> unat off'"
proof (induction d arbitrary: off ty off')
  case (Suc d)
  consider n where "scalar_size ty = Some n" | "ty = 8" | "ty = 9"
    | "scalar_size ty = None" "ty \<noteq> 8" "ty \<noteq> 9" by fastforce
  then show ?case
  proof cases
    case 3
    with Suc.prems obtain et off1 n off2 where
      r: "read_u32 True data off = Val (et, off1)" "read_u64 True data off1 = Val (n, off2)"
      and loop: "repeat_out (unat n) (\<lambda>off. skip_value d True data off et) off2 = Val off'"
      by (auto simp: skip_value_array and_then_eq_Val)
    have "unat off2 \<le> unat off'"
      using Suc.IH [OF Suc.prems(1)]
      by (intro repeat_out_invariant [OF loop, of "\<lambda>x. unat off2 \<le> unat x"]) (auto intro: order_trans)
    with r Suc.prems(1) show ?thesis by (auto simp: read_u32_eq_Val read_u64_eq_Val)
  qed (use Suc.prems in \<open>auto simp: skip_value_branches read_u64_eq_Val and_then_eq_Val
        dest: skip_value_bad [of _ d True data off] dest!: wadd_True_forward\<close>)
qed simp

lemma skip_value_stack_enough:
  assumes "valid_slice data" and "length data < 12 * d + unat off" and "0 < d"
  shows "skip_value d True data off ty \<noteq> Panic StackOverflow"
  using assms(2,3)
proof (induction d arbitrary: off ty)
  case (Suc d)
  consider n where "scalar_size ty = Some n" | "ty = 8" | "ty = 9"
    | "scalar_size ty = None" "ty \<noteq> 8" "ty \<noteq> 9" by fastforce
  then show ?case
  proof cases
    case 3
    have "repeat_out (unat n) (\<lambda>off. skip_value d True data off et) off2 \<noteq> Panic StackOverflow"
      if "read_u32 True data off = Val (et, off1)" "read_u64 True data off1 = Val (n, off2)"
      for et off1 n off2
    proof -
      from that assms(1) have "unat off2 = unat off + 12" "unat off2 \<le> length data"
        by (auto simp: read_u32_eq_Val read_u64_eq_Val)
      with Suc.prems have d: "length data < 12 * d + unat off2" "0 < d" by auto
      show ?thesis
      proof (rule repeat_out_no_Panic [of "\<lambda>x. unat off2 \<le> unat x"])
        show "skip_value d True data x et \<noteq> Panic StackOverflow" if "unat off2 \<le> unat x" for x
          using that d by (intro Suc.IH) auto
      qed (use skip_value_forward [OF assms(1)] in \<open>auto intro: order_trans\<close>)
    qed
    with 3 show ?thesis by (auto simp: skip_value_array and_then_eq_Panic)
  qed (auto simp: skip_value_branches and_then_eq_Panic
        dest: wadd_Panic skip_value_bad [of _ d True data off])
qed simp

section \<open>A file on which the release build recurses without end\<close>

text \<open>
  One pair with an array of two elements of type array; the first holds a string whose length
  wraps the offset back to the start of the outer array, which is then read as the second.
\<close>

definition loop_file :: bytes where
  "loop_file =
     u32_to_le 0x46554747 @ u32_to_le 3 @ u64_to_le 1 @ u64_to_le 1 @
     u64_to_le 0 @ u32_to_le 9 @
     u32_to_le 9 @ u64_to_le 2 @
     u32_to_le 8 @ u64_to_le 1 @ u64_to_le 0xFFFFFFFFFFFFFFE0"

lemma loop_file_length: "length loop_file = 68" "valid_slice loop_file"
  by (simp_all add: loop_file_def valid_slice_def)

lemma loop_file_reads:
  "read_u64 oc loop_file 24 = Val (0, 32)" "read_u32 oc loop_file 32 = Val (9, 36)"
  "read_u32 oc loop_file 36 = Val (9, 40)" "read_u64 oc loop_file 40 = Val (2, 48)"
  "read_u32 oc loop_file 48 = Val (8, 52)" "read_u64 oc loop_file 52 = Val (1, 60)"
  "read_u64 oc loop_file 60 = Val (0xFFFFFFFFFFFFFFE0, 68)"
proof -
  have h: "holds_at loop_file 24 (u64_to_le 0)" "holds_at loop_file 32 (u32_to_le 9)"
    "holds_at loop_file 36 (u32_to_le 9)" "holds_at loop_file 40 (u64_to_le 2)"
    "holds_at loop_file 48 (u32_to_le 8)" "holds_at loop_file 52 (u64_to_le 1)"
    "holds_at loop_file 60 (u64_to_le 0xFFFFFFFFFFFFFFE0)"
    by (simp_all add: holds_at_def loop_file_def)
  note rd = read_int_enc [OF loop_file_length(2)]
  show "read_u64 oc loop_file 24 = Val (0, 32)" "read_u32 oc loop_file 32 = Val (9, 36)"
    "read_u32 oc loop_file 36 = Val (9, 40)" "read_u64 oc loop_file 40 = Val (2, 48)"
    "read_u32 oc loop_file 48 = Val (8, 52)" "read_u64 oc loop_file 52 = Val (1, 60)"
    "read_u64 oc loop_file 60 = Val (0xFFFFFFFFFFFFFFE0, 68)"
    by (simp_all add: rd(2) [OF h(1)] rd(1) [OF h(2)] rd(1) [OF h(3)] rd(2) [OF h(4)]
        rd(1) [OF h(5)] rd(2) [OF h(6)] rd(2) [OF h(7)])
qed

lemma repeat_out_0: "repeat_out 0 f = Val"
  by (rule ext) simp

lemma repeat_out_2: "repeat_out 2 f s = and_then (f s) (\<lambda>s. and_then (f s) Val)"
  by (cases "f s") (simp_all add: numeral_2_eq_2 repeat_out_0)

lemma loop_file_element: "skip_value (Suc (Suc d)) False loop_file 48 9 = Val 36"
  by (simp add: skip_value_array skip_value_string loop_file_reads wadd_def)

lemma loop_file_skip: "skip_value d False loop_file 36 9 = Panic StackOverflow"
proof (induction d)
  case (Suc d)
  consider "d = 0" | "d = 1" | d' where "d = Suc (Suc d')" by (cases d rule: nat.exhaust; cases "d - 1") auto
  then show ?case
  proof cases
    case 2
    then show ?thesis by (simp add: skip_value_array loop_file_reads repeat_out_2)
  next
    case 3
    with Suc loop_file_element [of d'] show ?thesis
      by (simp add: skip_value_array loop_file_reads repeat_out_2)
  qed (simp add: skip_value_array loop_file_reads repeat_out_2)
qed simp

section \<open>Properties\<close>

text \<open>
  C25: The metadata scan of \<^verbatim>\<open>main\<close> stops exactly behind the metadata section: on a file that
  holds any list of keys and well-formed typed values (strings, scalars, nested arrays) from
  byte 24 on, in either build profile, the result is the offset of the byte after them.
\<close>
theorem scan_finds_end:
  assumes "\<forall>kv \<in> set kvs. wf_kv d kv" and "length kvs < 2 ^ 64" and "valid_slice data"
    and "holds_at data 24 (concat (map enc_kv kvs))"
  shows "scan_metadata d oc data (wlen kvs) = Val (24 + word_of_nat (length (concat (map enc_kv kvs))))"
  using assms by (rule scan_metadata_enc)

definition demo_kvs :: "kv list" where
  "demo_kvs =
     [(''general.architecture'', Str ''llama''),
      (''demo.nested'', Arr 9 [Arr 4 [Scalar 4 (u32_to_le 7)], Arr 8 [Str ''a'', Str []]]),
      (''general.quantization_version'', Scalar 4 (u32_to_le 2))]"

definition demo_metadata :: bytes where
  "demo_metadata = replicate 24 (CHR 0x00) @ concat (map enc_kv demo_kvs)"

lemma demo_metadata_ok:
  "\<forall>kv \<in> set demo_kvs. wf_kv 3 kv" "\<forall>kv \<in> set demo_kvs. utf8_valid (fst kv)"
  "length demo_kvs < 2 ^ 64" "valid_slice demo_metadata"
  "holds_at demo_metadata 24 (concat (map enc_kv demo_kvs))"
proof -
  show "holds_at demo_metadata 24 (concat (map enc_kv demo_kvs))"
    by (simp add: demo_metadata_def holds_at_def)
  show "valid_slice demo_metadata"
    by (simp add: valid_slice_def demo_metadata_def demo_kvs_def enc_kv_def)
qed code_simp+

theorem scan_finds_end_witness:
  "scan_metadata 3 False demo_metadata 3 = Val (24 + word_of_nat (length (concat (map enc_kv demo_kvs))))"
  using scan_finds_end [OF demo_metadata_ok(1,3,4,5), of False] by (simp add: demo_kvs_def)

text \<open>
  \<^verbatim>\<open>get_metadata_string\<close> returns the value of the first pair with the key, when it is
  a string in UTF-8, and \<^verbatim>\<open>None\<close> when the key is absent, has a value of another type, or a
  string that is not UTF-8.
\<close>
theorem string_lookup:
  assumes "\<forall>kv \<in> set kvs. wf_kv d kv" and "\<forall>kv \<in> set kvs. utf8_valid (fst kv)"
    and "valid_slice data" and "holds_at data off (concat (map enc_kv kvs))"
  shows "get_metadata_string (length kvs) d oc data off key = Val (lookup_string kvs key)"
  using assms by (rule get_metadata_string_enc)

theorem string_lookup_witness:
  "get_metadata_string 3 3 False demo_metadata 24 ''general.architecture'' = Val (Some ''llama'')"
proof -
  have "lookup_string demo_kvs ''general.architecture'' = Some ''llama''" by code_simp
  moreover have "length demo_kvs = 3" by (simp add: demo_kvs_def)
  ultimately show ?thesis
    using string_lookup [OF demo_metadata_ok(1,2,4,5), of False "''general.architecture''"] by simp
qed

text \<open>
  C26: With overflow checks, \<^verbatim>\<open>skip_value\<close> never exhausts a stack of one frame per twelve
  bytes of the file that follow the offset, whatever the file holds: nesting is paid for in
  bytes.
\<close>
theorem checked_stack_enough:
  assumes "valid_slice data" and "length data < 12 * d + unat off" and "0 < d"
  shows "skip_value d True data off ty \<noteq> Panic StackOverflow"
  using assms by (rule skip_value_stack_enough)

theorem checked_stack_enough_witness: "skip_value 3 True loop_file 36 9 \<noteq> Panic StackOverflow"
proof -
  have "length loop_file < 12 * 3 + unat (36 :: usize)" by (simp add: loop_file_length)
  with loop_file_length(2) show ?thesis by (rule checked_stack_enough) simp
qed

text \<open>
  C27: Without overflow checks, as in the release build, no stack is enough: on a file of 68
  bytes the scan exhausts every stack, where the checked build stops with an arithmetic
  overflow.
\<close>
theorem release_stack_exhausted:
  "length loop_file = 68 \<and> scan_metadata d False loop_file 1 = Panic StackOverflow \<and>
   scan_metadata 3 True loop_file 1 = Panic ArithOverflow"
proof -
  have "scan_metadata d False loop_file 1 = Panic StackOverflow"
    by (simp add: scan_metadata_def skip_kv_def loop_file_reads wadd_def loop_file_skip)
  moreover have "scan_metadata 3 True loop_file 1 = Panic ArithOverflow"
    by (simp add: scan_metadata_def skip_kv_def loop_file_reads wadd_def numeral_3_eq_3 skip_value_array
        skip_value_string repeat_out_2)
  ultimately show ?thesis using loop_file_length by blast
qed

end
