(* ===== verification/Gguf_Tensors.thy ===== *)
theory Gguf_Tensors
  imports Gguf_Metadata
begin

text \<open>
  The reading half of the splitter's \<^verbatim>\<open>main\<close>: the header, the search for the first tensor
  info, the tensor infos and the start of the tensor data. The search looks at sixteen
  positions around the end of the metadata and takes the first that looks like a tensor
  name; it is shown equal to a pure search for the first plausible position. The file format
  is specified by \<open>gguf_image\<close>, and parsing is shown to recover what an image was built from
  whenever the search finds the true start.
\<close>

section \<open>Tensor infos\<close>

record tensor_info =
  name :: string
  n_dims :: u32
  dims :: "u64 list"
  ggml_type :: u32
  offset :: u64

definition read_tensor_info :: "bool \<Rightarrow> bytes \<Rightarrow> usize \<Rightarrow> (tensor_info \<times> usize) gres" where
  "read_tensor_info oc data off =
     and_then (read_u64 oc data off) (\<lambda>(name_len, off).
     and_then (wadd oc off name_len) (\<lambda>name_end.
     if wlen data < name_end then Fail (NameOverflow off)
     else
       and_then (subslice data off name_end) (\<lambda>nm.
       if \<not> utf8_valid nm then Fail NotUtf8
       else
         and_then (read_u32 oc data name_end) (\<lambda>(nd, off).
         and_then (read_times (unat nd) (read_u64 oc data) off) (\<lambda>(ds, off).
         and_then (read_u32 oc data off) (\<lambda>(ty, off).
         and_then (read_u64 oc data off) (\<lambda>(toff, off).
         Val (\<lparr>name = nm, n_dims = nd, dims = ds, ggml_type = ty, offset = toff\<rparr>, off))))))))"

section \<open>The search for the first tensor info\<close>

definition tensor_name_like :: "string \<Rightarrow> bool" where
  "tensor_name_like nm \<longleftrightarrow>
     contains nm ''.'' \<or> contains nm ''weight'' \<or> contains nm ''bias'' \<or>
     contains nm ''norm'' \<or> contains nm ''embd'' \<or> contains nm ''rope'' \<or>
     contains nm ''freq'' \<or> contains nm ''tok_embd''"

text \<open>\<^verbatim>\<open>(lo..hi).step_by(4)\<close>\<close>

definition window :: "usize \<Rightarrow> usize \<Rightarrow> usize list" where
  "window lo hi = map (\<lambda>k. lo + word_of_nat (4 * k)) [0..<(unat hi - unat lo + 3) div 4]"

fun find_start :: "bool \<Rightarrow> bytes \<Rightarrow> usize list \<Rightarrow> usize \<Rightarrow> usize gres" where
  "find_start oc data [] best = Val best"
| "find_start oc data (candidate # cs) best =
     and_then (wadd oc candidate 8) (\<lambda>e.
     if wlen data < e then find_start oc data cs best
     else
       and_then (subslice data candidate e) (\<lambda>bs.
       let nl = u64_from_le bs in
       if 0 < nl \<and> nl < 256 then
         and_then (wadd oc e nl) (\<lambda>f.
         if f \<le> wlen data then
           and_then (subslice data e f) (\<lambda>nm.
           if tensor_name_like (utf8_lossy nm) then Val candidate
           else find_start oc data cs best)
         else find_start oc data cs best)
       else find_start oc data cs best))"

definition find_tensor_info_start :: "bool \<Rightarrow> bytes \<Rightarrow> usize \<Rightarrow> usize gres" where
  "find_tensor_info_start oc data metadata_end =
     and_then (wadd oc metadata_end 32) (\<lambda>hi.
     find_start oc data (window (sat_sub metadata_end 32) hi) metadata_end)"

section \<open>Reading the file\<close>

record gguf =
  version :: u32
  kv_count :: u64
  info_start :: usize
  tensors :: "tensor_info list"
  data_start :: usize

definition read_header :: "bool \<Rightarrow> bytes \<Rightarrow> (u32 \<times> u64 \<times> u64) gres" where
  "read_header oc data =
     (if length data < 24 then Fail FileTooSmall
      else
        and_then (subslice data 0 4) (\<lambda>m.
        if u32_from_le m \<noteq> 0x46554747 then Fail (BadMagic (u32_from_le m))
        else
          and_then (subslice data 4 8) (\<lambda>v.
          and_then (subslice data 8 16) (\<lambda>t.
          and_then (subslice data 16 24) (\<lambda>k.
          Val (u32_from_le v, u64_from_le t, u64_from_le k))))))"

text \<open>
  \<^verbatim>\<open>Vec::with_capacity\<close> panics when the allocation would exceed \<^verbatim>\<open>isize::MAX\<close> bytes;
  a \<^verbatim>\<open>TensorInfo\<close> takes 64.
\<close>

definition with_capacity :: "nat \<Rightarrow> u64 \<Rightarrow> ('e, unit) outcome" where
  "with_capacity elem n = (if 2 ^ 63 \<le> elem * unat n then Panic CapacityOverflow else Val ())"

definition parse_gguf :: "nat \<Rightarrow> bool \<Rightarrow> bytes \<Rightarrow> gguf gres" where
  "parse_gguf d oc data =
     and_then (read_header oc data) (\<lambda>(ver, tensor_count, kvs).
     and_then (scan_metadata d oc data kvs) (\<lambda>metadata_end.
     and_then (find_tensor_info_start oc data metadata_end) (\<lambda>start.
     and_then (with_capacity 64 tensor_count) (\<lambda>_.
     and_then (read_times (unat tensor_count) (read_tensor_info oc data) start) (\<lambda>(ts, tensor_info_end).
     and_then (align_up oc tensor_info_end 32) (\<lambda>dstart.
     Val \<lparr>version = ver, kv_count = kvs, info_start = start, tensors = ts, data_start = dstart\<rparr>))))))"

section \<open>The search is a pure one\<close>

definition plausible :: "bytes \<Rightarrow> usize \<Rightarrow> bool" where
  "plausible data c \<longleftrightarrow>
     unat c + 8 \<le> length data \<and>
     (let nl = unat (u64_from_le (take 8 (drop (unat c) data))) in
      0 < nl \<and> nl < 256 \<and> unat c + 8 + nl \<le> length data \<and>
      tensor_name_like (utf8_lossy (take nl (drop (unat c + 8) data))))"

definition start_of :: "bytes \<Rightarrow> usize \<Rightarrow> usize" where
  "start_of data metadata_end =
     (case find (plausible data) (window (sat_sub metadata_end 32) (metadata_end + 32)) of
        Some c \<Rightarrow> c
      | None \<Rightarrow> metadata_end)"

lemma find_start_eq:
  assumes v: "valid_slice data" and "\<forall>c \<in> set cs. unat c + 8 < 2 ^ 64"
  shows "find_start oc data cs best =
           Val (case find (plausible data) cs of Some c \<Rightarrow> c | None \<Rightarrow> best)"
  using assms(2)
proof (induction cs)
  case (Cons c cs)
  have u: "unat (c + 8) = unat c + 8" "wadd oc c 8 = (Val (c + 8) :: usize gres)"
    using Cons.prems unat_add_exact [of c 8] by (auto intro: wadd_exact)
  show ?case
  proof (cases "unat c + 8 \<le> length data")
    case False
    with v u have "wlen data < c + 8" by (simp add: word_less_nat_alt unat_wlen)
    with False u Cons show ?thesis by (simp add: plausible_def)
  next
    case True
    define nl where "nl = u64_from_le (take 8 (drop (unat c) data))"
    from True v u have in_range: "\<not> wlen data < c + 8"
      "subslice data c (c + 8) = (Val (take 8 (drop (unat c) data)) :: bytes gres)"
      by (auto simp: word_less_nat_alt unat_wlen subslice_def word_le_nat_alt)
    show ?thesis
    proof (cases "0 < nl \<and> nl < 256")
      case False
      then have "\<not> plausible data c"
        by (auto simp: plausible_def Let_def nl_def [symmetric] word_less_nat_alt)
      with False in_range u Cons show ?thesis by (auto simp: nl_def [symmetric])
    next
      case nl: True
      then have "unat nl < 256" by (simp add: word_less_nat_alt)
      with True v have sum: "unat (c + 8) + unat nl < 2 ^ 64"
        by (simp add: u valid_slice_def)
      then have f: "unat (c + 8 + nl) = unat c + 8 + unat nl"
        "wadd oc (c + 8) nl = (Val (c + 8 + nl) :: usize gres)"
        using unat_add_exact [of "c + 8" nl] by (auto simp: u intro: wadd_exact)
      have p: "plausible data c \<longleftrightarrow> unat c + 8 + unat nl \<le> length data \<and>
          tensor_name_like (utf8_lossy (take (unat nl) (drop (unat c + 8) data)))"
        using nl True by (auto simp: plausible_def Let_def nl_def [symmetric] word_less_nat_alt)
      have "(c + 8 + nl \<le> wlen data) = (unat c + 8 + unat nl \<le> length data)"
        using v f by (simp add: word_le_nat_alt unat_wlen)
      moreover have "unat c + 8 + unat nl \<le> length data \<Longrightarrow>
          subslice data (c + 8) (c + 8 + nl) =
            (Val (take (unat nl) (drop (unat c + 8) data)) :: bytes gres)"
        using f u by (simp add: subslice_def word_le_nat_alt)
      ultimately show ?thesis
        using nl in_range u f p Cons by (simp add: nl_def [symmetric])
    qed
  qed
qed simp

lemma window_bound:
  "unat hi < 2 ^ 64 - 8 \<Longrightarrow> c \<in> set (window lo hi) \<Longrightarrow> unat c + 8 < 2 ^ 64"
proof -
  assume hi: "unat hi < 2 ^ 64 - 8" and "c \<in> set (window lo hi)"
  then obtain k where k: "k < (unat hi - unat lo + 3) div 4" "c = lo + word_of_nat (4 * k)"
    by (auto simp only: window_def set_map set_upt atLeastLessThan_iff image_iff)
  then have "unat lo + 4 * k < unat hi" by linarith
  moreover from this hi have "unat (word_of_nat (4 * k) :: usize) = 4 * k"
    by (intro unat_of_nat64) simp
  ultimately have "unat (lo + word_of_nat (4 * k)) = unat lo + 4 * k"
    using hi by (subst unat_add_exact) (simp_all del: of_nat_mult)
  with k hi \<open>unat lo + 4 * k < unat hi\<close> show ?thesis by simp
qed

lemma find_tensor_info_start_eq:
  assumes "valid_slice data" and "unat metadata_end < 2 ^ 63"
  shows "find_tensor_info_start oc data metadata_end = Val (start_of data metadata_end)"
proof -
  have hi: "unat (metadata_end + 32) = unat metadata_end + 32"
    using assms(2) unat_add_exact [of metadata_end 32] by simp
  then have "\<forall>c \<in> set (window (sat_sub metadata_end 32) (metadata_end + 32)). unat c + 8 < 2 ^ 64"
    using assms(2) by (intro ballI window_bound) auto
  moreover have "wadd oc metadata_end 32 = (Val (metadata_end + 32) :: usize gres)"
    using assms(2) by (intro wadd_exact) simp
  ultimately show ?thesis
    by (simp add: find_tensor_info_start_def find_start_eq [OF assms(1)] start_of_def)
qed

section \<open>The format of the tensor infos and of a whole file\<close>

definition enc_tensor :: "tensor_info \<Rightarrow> bytes" where
  "enc_tensor t =
     u64_to_le (wlen (name t)) @ name t @ u32_to_le (n_dims t) @
     concat (map u64_to_le (dims t)) @ u32_to_le (ggml_type t) @ u64_to_le (offset t)"

definition ok_tensor :: "tensor_info \<Rightarrow> bool" where
  "ok_tensor t \<longleftrightarrow> utf8_valid (name t) \<and> unat (n_dims t) = length (dims t)"

lemma length_concat_u64 [simp]: "length (concat (map u64_to_le ds)) = 8 * length ds"
  by (induction ds) auto

interpretation tensor_codec: codec ok_tensor enc_tensor "\<lambda>t. t" "read_tensor_info oc" for oc
proof unfold_locales
  fix t :: tensor_info and data off
  assume ok: "ok_tensor t" and v: "valid_slice data" and h: "holds_at data off (enc_tensor t)"
  define o1 where "o1 = off + 8 + wlen (name t)"
  define o2 where "o2 = o1 + 4 + word_of_nat (8 * length (dims t))"
  from h v have p: "holds_at data off (u64_to_le (wlen (name t)))" "holds_at data (off + 8) (name t)"
    "holds_at data o1 (u32_to_le (n_dims t))" "holds_at data (o1 + 4) (concat (map u64_to_le (dims t)))"
    "holds_at data o2 (u32_to_le (ggml_type t))" "holds_at data (o2 + 4) (u64_to_le (offset t))"
    by (auto simp: enc_tensor_def holds_at_append o1_def o2_def add.assoc)
  note ints = read_int_enc [OF v]
  have nm: "wadd oc (off + 8) (wlen (name t)) = (Val o1 :: usize gres)"
    "subslice data (off + 8) o1 = (Val (name t) :: bytes gres)" "\<not> wlen data < o1"
    using p(2) v holds_at_unat [OF v p(2)]
    by (auto simp: o1_def wlen_eq_unat word_less_nat_alt unat_wlen holds_at_def
        intro: wadd_holds_at subslice_holds_at)
  have ds: "read_times (length (dims t)) (read_u64 oc data) (o1 + 4) = Val (dims t, o2)"
    using u64_codec.read_times_enc [OF _ v p(4)] ok
    by (simp add: ok_tensor_def o2_def)
  define o3 where "o3 = o2 + 4"
  have "off + word_of_nat (length (enc_tensor t)) = o3 + 8"
    by (simp add: enc_tensor_def o1_def o2_def o3_def)
  then show "read_tensor_info oc data off = Val (t, off + word_of_nat (length (enc_tensor t)))"
    using ok by (simp add: read_tensor_info_def nm ds ints(1) [OF p(3)] ints(1) [OF p(5)]
        ints(2) [OF p(1)] ints(2) [OF p(6), folded o3_def] ok_tensor_def o3_def [symmetric])
qed

text \<open>Zero bytes up to the next multiple of 32.\<close>

definition pad32 :: "nat \<Rightarrow> bytes" where
  "pad32 n = replicate (round32 n - n) (CHR 0x00)"

definition gguf_header :: "u32 \<Rightarrow> u64 \<Rightarrow> u64 \<Rightarrow> bytes" where
  "gguf_header ver tensor_count kvs =
     u32_to_le 0x46554747 @ u32_to_le ver @ u64_to_le tensor_count @ u64_to_le kvs"

definition gguf_front :: "u32 \<Rightarrow> u64 \<Rightarrow> bytes \<Rightarrow> tensor_info list \<Rightarrow> bytes" where
  "gguf_front ver kvs meta ts = gguf_header ver (wlen ts) kvs @ meta @ concat (map enc_tensor ts)"

definition gguf_image :: "u32 \<Rightarrow> u64 \<Rightarrow> bytes \<Rightarrow> tensor_info list \<Rightarrow> bytes \<Rightarrow> bytes" where
  "gguf_image ver kvs meta ts body =
     gguf_front ver kvs meta ts @ pad32 (length (gguf_front ver kvs meta ts)) @ body"

lemma length_gguf_header [simp]: "length (gguf_header ver n k) = 24"
  by (simp add: gguf_header_def)

lemma length_pad32 [simp]: "length (pad32 n) = round32 n - n"
  by (simp add: pad32_def)

lemma length_front_pad: "length (gguf_front v k m ts) + length (pad32 (length (gguf_front v k m ts))) =
    round32 (length (gguf_front v k m ts))"
  by (simp add: round32_ge)

lemma read_header_image:
  "read_header oc (gguf_header ver n k @ rest) = Val (ver, n, k)"
proof -
  let ?d = "gguf_header ver n k @ rest"
  have "subslice ?d 0 4 = (Val (u32_to_le 0x46554747) :: bytes gres)"
    "subslice ?d 4 8 = (Val (u32_to_le ver) :: bytes gres)"
    "subslice ?d 8 16 = (Val (u64_to_le n) :: bytes gres)"
    "subslice ?d 16 24 = (Val (u64_to_le k) :: bytes gres)"
    by (simp_all add: subslice_def gguf_header_def)
  then show ?thesis by (simp add: read_header_def)
qed

text \<open>
  The search finds the true start: the position right after the metadata looks like a tensor
  name and none of the earlier positions of the window does.
\<close>

definition start_found :: "bytes \<Rightarrow> usize \<Rightarrow> bool" where
  "start_found data metadata_end \<longleftrightarrow> start_of data metadata_end = metadata_end"

theorem parse_gguf_image:
  assumes kvs: "\<forall>kv \<in> set kvs. wf_kv d kv" and ts: "\<forall>t \<in> set ts. ok_tensor t"
    and len: "valid_slice (gguf_image ver (wlen kvs) (concat (map enc_kv kvs)) ts body)"
    and cap: "64 * length ts < 2 ^ 63"
    and start: "start_found (gguf_image ver (wlen kvs) (concat (map enc_kv kvs)) ts body)
                  (24 + word_of_nat (length (concat (map enc_kv kvs))))"
  shows "parse_gguf d oc (gguf_image ver (wlen kvs) (concat (map enc_kv kvs)) ts body) =
    Val \<lparr>version = ver, kv_count = wlen kvs,
         info_start = 24 + word_of_nat (length (concat (map enc_kv kvs))), tensors = ts,
         data_start = word_of_nat (round32 (length (gguf_front ver (wlen kvs) (concat (map enc_kv kvs)) ts)))\<rparr>"
proof -
  let ?meta = "concat (map enc_kv kvs)" and ?infos = "concat (map enc_tensor ts)"
  define data where "data = gguf_image ver (wlen kvs) ?meta ts body"
  define front where "front = length (gguf_front ver (wlen kvs) ?meta ts)"
  define me where "me = 24 + (word_of_nat (length ?meta) :: usize)"
  have front_len: "front = 24 + length ?meta + length ?infos"
    by (simp add: front_def gguf_front_def)
  have v: "valid_slice data" using len by (simp add: data_def)
  have len_data: "length data = round32 front + length body"
    unfolding data_def gguf_image_def front_def using length_front_pad by simp
  with v have small: "round32 front < 2 ^ 63" by (simp add: valid_slice_def)
  then have front63: "front < 2 ^ 63" using round32_ge [of front] by simp
  have "data = gguf_header ver (wlen ts) (wlen kvs) @ ?meta @ ?infos @ pad32 front @ body"
    by (simp add: data_def gguf_image_def front_def gguf_front_def)
  then have at_meta: "holds_at data 24 (?meta @ ?infos)"
    and header: "read_header oc data = Val (ver, wlen ts, wlen kvs)"
    using holds_at_concat [of "gguf_header ver (wlen ts) (wlen kvs)" 24 "?meta @ ?infos" "pad32 front @ body"]
    by (simp_all add: read_header_image)
  with v have meta: "holds_at data 24 ?meta" and infos: "holds_at data me ?infos"
    by (auto simp: holds_at_append me_def)
  have "length kvs < 2 ^ 64"
  proof -
    have "length kvs \<le> length ?meta"
      by (induction kvs) (auto simp: enc_kv_def)
    then show ?thesis using front_len front63 by simp
  qed
  with kvs v meta have scan: "scan_metadata d oc data (wlen kvs) = Val me"
    by (simp add: scan_metadata_enc me_def)
  have me63: "unat me < 2 ^ 63"
    using holds_at_unat [OF v meta] by (simp add: me_def)
  have find: "find_tensor_info_start oc data me = Val me"
    using start find_tensor_info_start_eq [OF v me63]
    by (simp add: start_found_def data_def [symmetric] me_def)
  have end_infos: "unat (me + word_of_nat (length ?infos)) = front"
    using holds_at_unat [OF v infos] holds_at_unat [OF v meta] by (simp add: me_def front_len)
  have unat_ts: "unat (wlen ts) = length ts" using cap by simp
  have "read_times (length ts) (read_tensor_info oc data) me = Val (ts, me + word_of_nat (length ?infos))"
    using tensor_codec.read_times_enc [OF ts v infos] by simp
  moreover have "align_up oc (me + word_of_nat (length ?infos)) 32 =
      (Val (word_of_nat (round32 front)) :: usize gres)"
    using front63 by (simp add: align_up_32 end_infos)
  ultimately have "parse_gguf d oc data =
    Val \<lparr>version = ver, kv_count = wlen kvs, info_start = me, tensors = ts,
         data_start = word_of_nat (round32 front)\<rparr>"
    using cap by (simp add: parse_gguf_def header scan find with_capacity_def unat_ts)
  then show ?thesis by (simp add: data_def front_def me_def)
qed

section \<open>When the search finds the first tensor info\<close>

text \<open>
  None of the last positions of the metadata reads as a length between 1 and 255, and the
  name that follows is a tensor name of at most 255 bytes.
\<close>

definition quiet_tail :: "bytes \<Rightarrow> bool" where
  "quiet_tail meta \<longleftrightarrow>
     32 \<le> length meta \<and>
     list_all (\<lambda>k. let nl = le_nat (take 8 (drop (length meta - 4 * k) meta)) in nl = 0 \<or> 256 \<le> nl)
       [2..<9]"

definition good_name :: "string \<Rightarrow> bool" where
  "good_name nm \<longleftrightarrow> tensor_name_like nm \<and> 0 < length nm \<and> length nm < 256"

lemma not_plausible_length:
  assumes "unat c + 8 \<le> length data" and "le_nat (take 8 (drop (unat c) data)) = 0 \<or> 256 \<le> le_nat (take 8 (drop (unat c) data))"
  shows "\<not> plausible data c"
proof -
  have "unat (u64_from_le (take 8 (drop (unat c) data))) = le_nat (take 8 (drop (unat c) data))"
    using assms(1) by (intro unat_u64_from_le) simp
  with assms(2) show ?thesis by (auto simp: plausible_def Let_def)
qed

lemma window_pos:
  fixes me :: usize
  assumes "32 \<le> unat me" and "unat me < 2 ^ 63" and "k < 16"
  shows "unat (me - 32 + word_of_nat (4 * k)) = unat me - 32 + 4 * k"
proof -
  have "32 \<le> me" using assms(1) by (simp add: word_le_nat_alt)
  from unat_sub_exact [OF this] have "unat (me - 32) = unat me - 32" by simp
  moreover have "unat (word_of_nat (4 * k) :: usize) = 4 * k" using assms(3) by (intro unat_of_nat64) simp
  ultimately show ?thesis using assms by (subst unat_add_exact) (simp_all del: of_nat_mult)
qed

lemma window_eq:
  fixes me :: usize
  assumes "32 \<le> unat me" and "unat me < 2 ^ 63"
  shows "window (sat_sub me 32) (me + 32) = map (\<lambda>k. me - 32 + word_of_nat (4 * k)) [0..<16]"
proof -
  have le: "32 \<le> me" using assms(1) by (simp add: word_le_nat_alt)
  have "unat (me - 32) = unat me - 32" "sat_sub me 32 = me - 32"
    using unat_sub_exact [OF le] le by (auto simp: sat_sub_def)
  moreover have "unat (me + 32) = unat me + 32" using assms(2) by (simp add: unat_add_exact)
  ultimately show ?thesis using assms(1) by (simp add: window_def)
qed

lemma start_found_first:
  assumes data: "data = h @ meta @ enc_tensor t @ rest" and h: "length h = 24"
    and quiet: "quiet_tail meta" and nm: "utf8_valid (name t)" "good_name (name t)"
    and v: "valid_slice data"
  shows "start_found data (24 + wlen meta)"
proof -
  define M where "M = 24 + length meta"
  define me where "me = (24 + wlen meta :: usize)"
  have len: "M + length (enc_tensor t) \<le> length data" and "32 \<le> length meta"
    using data h quiet by (simp_all add: M_def quiet_tail_def)
  have l: "24 \<le> length (enc_tensor t)" "length data < 2 ^ 63" "56 \<le> M"
    using nm v \<open>32 \<le> length meta\<close> by (simp_all add: enc_tensor_def good_name_def valid_slice_def M_def)
  have me: "unat me = M" using len l by (simp add: me_def M_def unat_add_exact)
  have me_bounds: "32 \<le> unat me" "unat me < 2 ^ 63" using me len l by simp_all
  note pos = window_pos [OF me_bounds, unfolded me]
  have drop: "drop (M - 32 + 4 * k) data = drop (length meta - 4 * (8 - k)) meta @ enc_tensor t @ rest"
    if "k \<le> 8" for k
    using that \<open>32 \<le> length meta\<close> by (simp add: data h M_def diff_mult_distrib2)
  have early: "\<not> plausible data (me - 32 + word_of_nat (4 * k))" if "k < 8" for k
  proof (rule not_plausible_length)
    show "unat (me - 32 + word_of_nat (4 * k)) + 8 \<le> length data"
      using that pos [of k] len l by simp
    show "le_nat (take 8 (drop (unat (me - 32 + word_of_nat (4 * k))) data)) = 0 \<or>
        256 \<le> le_nat (take 8 (drop (unat (me - 32 + word_of_nat (4 * k))) data))"
    proof (cases "k < 7")
      case True
      then have "8 - k \<in> set [2..<9]" by auto
      with quiet have "let nl = le_nat (take 8 (drop (length meta - 4 * (8 - k)) meta)) in nl = 0 \<or> 256 \<le> nl"
        unfolding quiet_tail_def list_all_iff by blast
      moreover have "8 \<le> length (drop (length meta - 4 * (8 - k)) meta)"
        using True \<open>32 \<le> length meta\<close> by simp
      ultimately show ?thesis using True pos [of k] drop [of k] by (simp add: Let_def)
    next
      case False
      with that have k: "k = 7" by simp
      define a where "a = drop (length meta - 4) meta"
      have a: "length a = 4" using \<open>32 \<le> length meta\<close> by (simp add: a_def)
      have "take 8 (drop (M - 32 + 4 * k) data) = a @ take 4 (u64_to_le (wlen (name t)))"
        using drop [of k] a by (simp add: k a_def [symmetric] enc_tensor_def)
      moreover have "unat (wlen (name t)) = length (name t)" using nm(2) by (simp add: good_name_def)
      then have "le_nat (take 4 (u64_to_le (wlen (name t)))) = length (name t)"
        using nm(2) by (simp add: u64_to_le_def take_le_bytes le_nat_le_bytes good_name_def)
      ultimately have "le_nat (take 8 (drop (M - 32 + 4 * k) data)) = le_nat a + 256 ^ 4 * length (name t)"
        using a by (simp add: le_nat_append)
      moreover have "1 \<le> length (name t)" using nm(2) by (simp add: good_name_def Suc_le_eq)
      ultimately show ?thesis using pos [of k] k by simp
    qed
  qed
  have "me - 32 + word_of_nat (4 * 8) = me" by simp
  moreover have "plausible data me"
  proof -
    have d: "drop M data = enc_tensor t @ rest" using drop [of 8] \<open>32 \<le> length meta\<close> by (simp add: M_def)
    have "drop (M + 8) data = drop 8 (drop M data)" by (simp add: add.commute)
    then have d8: "drop (M + 8) data = name t @ drop (8 + length (name t)) (enc_tensor t) @ rest"
      by (simp add: d enc_tensor_def)
    have "u64_from_le (take 8 (drop M data)) = wlen (name t)"
      unfolding d by (simp add: enc_tensor_def)
    moreover have "unat (wlen (name t)) = length (name t)" using nm(2) by (simp add: good_name_def)
    moreover have "M + 8 + length (name t) \<le> length data" using len by (simp add: enc_tensor_def)
    ultimately show ?thesis
      using nm d8 by (simp add: plausible_def me Let_def utf8_lossy_valid good_name_def)
  qed
  ultimately have "find (plausible data) (window (sat_sub me 32) (me + 32)) = Some me"
    unfolding window_eq [OF me_bounds] find_Some_iff using early
    by (intro exI [of _ 8]) (auto simp: nth_map simp del: of_nat_mult)
  then show ?thesis by (simp add: start_found_def start_of_def me_def [symmetric])
qed

section \<open>When the search stops too early\<close>

lemma search_stops_early:
  assumes v: "valid_slice data" and h: "holds_at data p (enc_kv (k, w))"
    and me: "me = p + wlen (enc_kv (k, w))" and p: "24 \<le> unat p"
    and m: "length (enc_kv (k, w)) = 4 * m" "m \<le> 8"
    and nm: "utf8_valid k" "tensor_name_like k" "k \<noteq> []"
  shows "\<exists>s. find_tensor_info_start oc data me = Val s \<and> s < me"
proof -
  let ?L = "length (enc_kv (k, w))"
  have len_k: "12 + length k \<le> ?L" "length k < 256" using m by (auto simp: enc_kv_def)
  have "1 \<le> length k" using nm(3) by (simp add: Suc_le_eq)
  with len_k m have m4: "4 \<le> m" by linarith
  have ume: "unat me = unat p + 4 * m" "unat p + 4 * m < 2 ^ 63"
    using holds_at_unat [OF v h] by (simp_all add: me m(1))
  then have bounds: "32 \<le> unat me" "unat me < 2 ^ 63" using p m4 by simp_all
  define q where "q = me - 32 + word_of_nat (4 * (8 - m))"
  have uq: "unat q = unat p" using window_pos [OF bounds, of "8 - m"] ume m4 m(2) p by (simp add: q_def)
  have "plausible data q"
  proof -
    from h v have "holds_at data p (u64_to_le (wlen k))" "holds_at data (p + 8) k"
      by (auto simp: enc_kv_def holds_at_append)
    moreover have "unat (p + 8) = unat p + 8" using ume m4 by (simp add: unat_add_exact)
    ultimately have "take 8 (drop (unat p) data) = u64_to_le (wlen k)" "take (length k) (drop (unat p + 8) data) = k"
      "unat p + 8 + length k \<le> length data"
      by (simp_all add: holds_at_def add.commute)
    moreover have "unat (wlen k) = length k" using len_k by simp
    ultimately show ?thesis
      using nm len_k by (simp add: plausible_def uq Let_def utf8_lossy_valid)
  qed
  moreover have "8 - m < 8" using m4 by simp
  ultimately have ex: "\<exists>i < 16. plausible data (me - 32 + word_of_nat (4 * i))"
    unfolding q_def by (intro exI [of _ "8 - m"]) simp
  define i where "i = (LEAST i. plausible data (me - 32 + word_of_nat (4 * i)))"
  have i: "plausible data (me - 32 + word_of_nat (4 * i))" "i \<le> 8 - m"
    unfolding i_def using \<open>plausible data q\<close> [unfolded q_def] by (auto intro: LeastI Least_le)
  have "find (plausible data) (window (sat_sub me 32) (me + 32)) = Some (me - 32 + word_of_nat (4 * i))"
    unfolding window_eq [OF bounds] find_Some_iff
    using i \<open>8 - m < 8\<close> not_less_Least [of _ "\<lambda>i. plausible data (me - 32 + word_of_nat (4 * i))", folded i_def]
    by (intro exI [of _ i]) (auto simp del: of_nat_mult)
  moreover have "me - 32 + word_of_nat (4 * i) < me"
    using window_pos [OF bounds, of i] i(2) \<open>8 - m < 8\<close> bounds by (simp add: word_less_nat_alt del: of_nat_mult)
  ultimately show ?thesis
    by (simp add: find_tensor_info_start_eq [OF v bounds(2)] start_of_def del: of_nat_mult)
qed

section \<open>Properties\<close>

text \<open>
  C30: The search for the first tensor info neither panics nor overflows, in either build
  profile, and is the pure search for the first of the sixteen positions from 32 bytes
  before to 28 bytes behind the end of the metadata that reads as the length and the text of
  a tensor name, with the end of the metadata as the answer when there is none.
\<close>
theorem search_first_plausible:
  assumes "valid_slice data" and "unat metadata_end < 2 ^ 63"
  shows "find_tensor_info_start oc data metadata_end = Val (start_of data metadata_end)"
  using assms by (rule find_tensor_info_start_eq)

definition demo_tensors :: "tensor_info list" where
  "demo_tensors =
     [\<lparr>name = ''token_embd.weight'', n_dims = 2, dims = [4, 2], ggml_type = 0, offset = 32\<rparr>,
      \<lparr>name = ''blk.1.ffn_up.weight'', n_dims = 1, dims = [16], ggml_type = 0, offset = 0\<rparr>,
      \<lparr>name = ''blk.0.attn_q.weight'', n_dims = 1, dims = [9], ggml_type = 1, offset = 96\<rparr>,
      \<lparr>name = ''output_norm.weight'', n_dims = 1, dims = [8], ggml_type = 0, offset = 64\<rparr>]"

definition demo_body :: bytes where
  "demo_body = map char_of [0..<114]"

text \<open>A file whose only pair is the vocabulary size, and one tensor.\<close>

definition vocab_kv :: kv where
  "vocab_kv = (''llama.vocab_size'', Scalar 4 (u32_to_le 32000))"

definition vocab_file :: bytes where
  "vocab_file = gguf_image 3 1 (enc_kv vocab_kv) [hd demo_tensors] demo_body"

lemma vocab_file_ok: "valid_slice vocab_file" "holds_at vocab_file 24 (enc_kv vocab_kv)"
proof -
  have e: "vocab_file = gguf_header 3 1 1 @ enc_kv vocab_kv @ enc_tensor (hd demo_tensors) @
      pad32 (length (gguf_front 3 1 (enc_kv vocab_kv) [hd demo_tensors])) @ demo_body"
    by (simp add: vocab_file_def gguf_image_def gguf_front_def)
  show "holds_at vocab_file 24 (enc_kv vocab_kv)" unfolding e by (rule holds_at_concat) simp
  show "valid_slice vocab_file"
    by (simp add: valid_slice_def vocab_file_def gguf_image_def gguf_front_def vocab_kv_def enc_kv_def
        demo_tensors_def enc_tensor_def demo_body_def round32_def)
qed

theorem search_first_plausible_witness: "find_tensor_info_start False vocab_file 56 = Val 24"
proof -
  have "plausible vocab_file 24" by code_simp
  moreover have "[0..<16] = 0 # [1..<16::nat]" by (simp add: upt_conv_Cons)
  ultimately have "start_of vocab_file 56 = 24"
    using window_eq [of 56] by (simp add: start_of_def del: upt_conv_Cons)
  with search_first_plausible [OF vocab_file_ok(1), of 56] show ?thesis by simp
qed

text \<open>
  C31: The search stops too early on valid files: when the last metadata pair takes at most 32
  bytes, a multiple of four, and its key contains a dot (a 16-byte key such as
  \<^verbatim>\<open>llama.vocab_size\<close> with a 32-bit value), the position it returns lies before the end of
  the metadata, so the first tensor info is read from inside a metadata pair.
\<close>
theorem search_misfires:
  assumes "valid_slice data" and "holds_at data p (enc_kv (k, w))"
    and "me = p + wlen (enc_kv (k, w))" and "24 \<le> unat p"
    and "length (enc_kv (k, w)) = 4 * m" and "m \<le> 8"
    and "utf8_valid k" and "tensor_name_like k" and "k \<noteq> []"
  shows "\<exists>s. find_tensor_info_start oc data me = Val s \<and> s < me"
  using assms by (rule search_stops_early)

theorem search_misfires_witness:
  "\<exists>s. find_tensor_info_start False vocab_file 56 = Val s \<and> s < 56"
proof (rule search_misfires [OF vocab_file_ok(1) vocab_file_ok(2) [unfolded vocab_kv_def], where m = 8])
  show "56 = 24 + (wlen (enc_kv (''llama.vocab_size'', Scalar 4 (u32_to_le 32000))) :: usize)"
    "length (enc_kv (''llama.vocab_size'', Scalar 4 (u32_to_le 32000))) = 4 * 8"
    by (simp_all add: enc_kv_def)
  show "utf8_valid ''llama.vocab_size''" "tensor_name_like ''llama.vocab_size''" by code_simp+
qed simp_all

section \<open>What parsing guarantees\<close>

lemma read_tensor_info_ok: "read_tensor_info oc data off = Val (t, off') \<Longrightarrow> ok_tensor t"
  by (auto simp: read_tensor_info_def and_then_eq_Val ok_tensor_def dest: read_times_length split: if_splits)

lemma read_times_all:
  "read_times n rd off = Val (xs, off') \<Longrightarrow> (\<And>o1 x o2. rd o1 = Val (x, o2) \<Longrightarrow> P x) \<Longrightarrow> \<forall>x \<in> set xs. P x"
  by (induction n arbitrary: off xs) (auto simp: and_then_eq_Val)

lemma align_up_dvd: "align_up oc x 32 = (Val y :: ('e, usize) outcome) \<Longrightarrow> 32 dvd unat y"
proof -
  have "32 dvd unat (t AND - 32)" for t :: u64 using align_down_32 [of t] by simp
  then show "align_up oc x 32 = (Val y :: ('e, usize) outcome) \<Longrightarrow> 32 dvd unat y"
    by (auto simp: align_up_def and_then_eq_Val wsub_def split: if_splits)
qed

lemma read_header_Val:
  assumes "read_header oc data = Val (ver, n, kvs)"
  shows "24 \<le> length data \<and> u32_from_le (take 4 data) = 0x46554747 \<and>
    ver = u32_from_le (take 4 (drop 4 data)) \<and> n = u64_from_le (take 8 (drop 8 data)) \<and>
    kvs = u64_from_le (take 8 (drop 16 data))"
  using assms by (auto simp: read_header_def and_then_eq_Val subslice_def split: if_splits)

lemma parse_gguf_Val:
  assumes "parse_gguf d oc data = Val g"
  shows "24 \<le> length data \<and> u32_from_le (take 4 data) = 0x46554747 \<and>
    version g = u32_from_le (take 4 (drop 4 data)) \<and> kv_count g = u64_from_le (take 8 (drop 16 data)) \<and>
    length (tensors g) = unat (u64_from_le (take 8 (drop 8 data))) \<and>
    (\<forall>t \<in> set (tensors g). ok_tensor t) \<and> 32 dvd unat (data_start g)"
proof -
  obtain ver n kvs me st ts e ds where p: "read_header oc data = Val (ver, n, kvs)"
    "read_times (unat n) (read_tensor_info oc data) st = Val (ts, e)" "align_up oc e 32 = (Val ds :: usize gres)"
    "g = \<lparr>version = ver, kv_count = kvs, info_start = st, tensors = ts, data_start = ds\<rparr>"
    using assms by (auto simp: parse_gguf_def and_then_eq_Val)
  with read_header_Val [OF p(1)] read_times_length [OF p(2)] read_times_all [OF p(2), of ok_tensor]
    read_tensor_info_ok align_up_dvd [OF p(3)] show ?thesis by fastforce
qed

end
