(* ===== verification/Rust_Float.thy ===== *)
theory Rust_Float
  imports Prelude "HOL-Library.Log_Nat"
begin

text \<open>
  The one floating-point computation that decides something in the splitter:
  \<^verbatim>\<open>(a as f64 / b as f64).ceil() as u32\<close> for 32-bit \<open>a\<close> and \<open>b\<close>. The quotient is
  rounded to a binary64 number (53 significant bits, ties to even) as IEEE 754 prescribes,
  then the ceiling is taken and cast. The lemma of this theory is that the rounding never
  shows: the result is the exact integer ceiling of the quotient.
\<close>

text \<open>The quotient of two naturals, rounded to the nearest natural, ties to even.\<close>

definition round_half_even :: "nat \<Rightarrow> nat \<Rightarrow> nat" where
  "round_half_even a b =
     (let q = a div b; r = a mod b in if 2 * r < b \<or> (2 * r = b \<and> even q) then q else q + 1)"

text \<open>
  A positive binary64 number is a significand of 53 bits times a power of two. Values are
  kept in units of \<open>2 ^ -128\<close>, below the smallest unit in the last place that a quotient of
  32-bit numbers has: \<open>f64_ulp p q\<close> is the exponent of the unit in the last place of
  \<open>p / q\<close> in those units, \<open>f64_div p q\<close> the rounded quotient.
\<close>

definition f64_unit :: nat where
  "f64_unit = 2 ^ 128"

definition f64_ulp :: "nat \<Rightarrow> nat \<Rightarrow> nat" where
  "f64_ulp p q = floorlog 2 (p * f64_unit div q) - 53"

definition f64_div :: "nat \<Rightarrow> nat \<Rightarrow> nat" where
  "f64_div p q =
     (let s = f64_ulp p q in round_half_even (p * f64_unit) (q * 2 ^ s) * 2 ^ s)"

text \<open>\<^verbatim>\<open>.ceil() as u32\<close>; the cast saturates, and the quotient by zero is infinite or NaN.\<close>

definition f64_ceil_div :: "u32 \<Rightarrow> u32 \<Rightarrow> u32" where
  "f64_ceil_div a b =
     (if b = 0 then (if a = 0 then 0 else - 1)
      else
        let c = (f64_div (unat a) (unat b) + (f64_unit - 1)) div f64_unit
        in if c < 2 ^ 32 then word_of_nat c else - 1)"

lemma round_half_even_ge: "a div b \<le> round_half_even a b"
  by (simp add: round_half_even_def Let_def)

lemma round_half_even_le: "round_half_even a b \<le> a div b + 1"
  by (simp add: round_half_even_def Let_def)

lemma round_half_even_exact: "0 < b \<Longrightarrow> b dvd a \<Longrightarrow> round_half_even a b = a div b"
  by (simp add: round_half_even_def Let_def dvd_eq_mod_eq_0)

lemma f64_unit_split: "s \<le> 128 \<Longrightarrow> f64_unit = 2 ^ (128 - s) * 2 ^ s"
  by (simp only: f64_unit_def power_add [symmetric]) simp

lemma f64_ulp_bounds:
  assumes "0 < p" and "p < 2 ^ 53" and "0 < q" and "q < 2 ^ 53"
  shows "q * 2 ^ f64_ulp p q * 2 ^ 52 \<le> p * f64_unit" and "f64_ulp p q \<le> 128"
proof -
  define n where "n = p * f64_unit div q"
  have "2 ^ 75 * q \<le> p * f64_unit"
  proof -
    have "2 ^ 75 * q \<le> 2 ^ 75 * (2 ^ 53 :: nat)" using assms(4) by simp
    also have "\<dots> \<le> p * f64_unit" using assms(1) by (simp add: f64_unit_def)
    finally show ?thesis .
  qed
  then have n75: "2 ^ 75 \<le> n" using assms(3) by (simp add: n_def less_eq_div_iff_mult_less_eq)
  then have n0: "0 < n" by (rule order_less_le_trans [rotated]) simp
  define L where "L = floorlog 2 n"
  have L: "2 ^ (L - 1) \<le> n" "n < 2 ^ L"
    using floorlog_bounds [of n 2] n0 by (auto simp: L_def)
  have "L \<ge> 76"
  proof (rule ccontr)
    assume "\<not> 76 \<le> L"
    then have "(2 :: nat) ^ L \<le> 2 ^ 75" by (intro power_increasing) auto
    with L(2) n75 show False by simp
  qed
  have ulp: "f64_ulp p q = L - 53" by (simp add: f64_ulp_def n_def L_def)
  have "L - 53 + 52 = L - 1" using \<open>L \<ge> 76\<close> by simp
  then have "q * 2 ^ (L - 53) * 2 ^ 52 = q * 2 ^ (L - 1)"
    by (simp only: mult.assoc power_add [symmetric])
  also have "\<dots> \<le> q * n" using L(1) by simp
  also have "\<dots> \<le> p * f64_unit" by (simp add: n_def)
  finally show "q * 2 ^ f64_ulp p q * 2 ^ 52 \<le> p * f64_unit" by (simp add: ulp)
  have "n \<le> p * f64_unit" by (simp add: n_def)
  also have "\<dots> < 2 ^ 53 * f64_unit" using assms(2) by (simp add: f64_unit_def)
  finally have "n < 2 ^ 181" by (simp add: f64_unit_def)
  have "L - 1 < 181"
  proof (rule ccontr)
    assume "\<not> L - 1 < 181"
    then have "(2 :: nat) ^ 181 \<le> 2 ^ (L - 1)" by (intro power_increasing) auto
    with L(1) \<open>n < 2 ^ 181\<close> show False by simp
  qed
  then show "f64_ulp p q \<le> 128" by (simp add: ulp)
qed

text \<open>The rounded quotient lies in the same interval between integers as the exact one.\<close>

lemma f64_div_between:
  assumes p: "p = k * q + r" and r: "0 < r" "r \<le> q" and "p < 2 ^ 53" and "q < 2 ^ 53"
  shows "k * f64_unit < f64_div p q" and "f64_div p q \<le> (k + 1) * f64_unit"
proof -
  define s where "s = f64_ulp p q"
  have pq: "0 < p" "0 < q" using p r by auto
  note ulp = f64_ulp_bounds [OF pq(1) \<open>p < 2 ^ 53\<close> pq(2) \<open>q < 2 ^ 53\<close>, folded s_def]
  note unit = f64_unit_split [OF ulp(2)]
  define b where "b = q * 2 ^ s"
  define w where "w = (2 :: nat) ^ (128 - s)"
  define m where "m = round_half_even (p * f64_unit) b"
  have b: "0 < b" using pq by (simp add: b_def)
  have unit: "f64_unit = w * 2 ^ s" using unit by (simp add: w_def)
  have unit_b: "q * f64_unit = w * b" by (simp add: unit b_def)
  have a: "p * f64_unit = k * w * b + r * f64_unit"
    using unit_b by (simp add: p algebra_simps)
  have half: "b < 2 * (r * f64_unit)"
  proof -
    have "b * 2 ^ 52 \<le> p * f64_unit" using ulp(1) by (simp add: b_def)
    also have "\<dots> < 2 ^ 53 * f64_unit" using \<open>p < 2 ^ 53\<close> by (simp add: f64_unit_def)
    finally have "b < 2 * f64_unit" by simp
    also have "\<dots> \<le> 2 * (r * f64_unit)" using r(1) by simp
    finally show ?thesis .
  qed
  have "k * w < m"
  proof (cases "p * f64_unit div b = k * w")
    case True
    then have "p * f64_unit mod b = r * f64_unit"
      using a by (metis add_diff_cancel_left' minus_mult_div_eq_mod mult.commute)
    with half True show ?thesis by (simp add: m_def round_half_even_def Let_def)
  next
    case False
    have "k * w \<le> p * f64_unit div b"
      using a b by (simp add: less_eq_div_iff_mult_less_eq)
    with False show ?thesis using round_half_even_ge [of "p * f64_unit" b] by (simp add: m_def)
  qed
  then have "k * w * 2 ^ s < m * 2 ^ s" by simp
  moreover have div: "f64_div p q = m * 2 ^ s"
    by (simp add: f64_div_def Let_def m_def b_def s_def)
  ultimately show "k * f64_unit < f64_div p q" by (simp add: unit mult.assoc)
  have top: "p * f64_unit \<le> (k * w + w) * b"
    using a unit_b r(2) by (simp add: distrib_right) (metis mult_le_mono1)
  have "m \<le> k * w + w"
  proof (cases "p * f64_unit = (k * w + w) * b")
    case True
    with b show ?thesis by (simp add: m_def round_half_even_exact)
  next
    case False
    with top have "p * f64_unit < (k * w + w) * b" by simp
    then have "p * f64_unit div b < k * w + w" by (rule less_mult_imp_div_less)
    then show ?thesis using round_half_even_le [of "p * f64_unit" b] by (simp add: m_def)
  qed
  then have "m * 2 ^ s \<le> (k * w + w) * 2 ^ s" by simp
  then show "f64_div p q \<le> (k + 1) * f64_unit"
    by (simp add: div unit algebra_simps)
qed

lemma ceil_between:
  fixes x k m :: nat
  assumes "0 < m" and "k * m < x" and "x \<le> (k + 1) * m"
  shows "(x + (m - 1)) div m = k + 1"
proof (rule div_nat_eqI)
  show "m * (k + 1) \<le> x + (m - 1)" using assms by (simp add: algebra_simps)
  show "x + (m - 1) < m * Suc (k + 1)" using assms by (simp add: algebra_simps)
qed

lemma f64_ceil_div_exact:
  assumes "b \<noteq> 0"
  shows "f64_ceil_div a b = word_of_nat ((unat a + unat b - 1) div unat b)"
proof (cases "a = 0")
  case True
  with assms show ?thesis
    by (simp add: f64_ceil_div_def f64_div_def f64_unit_def round_half_even_def Let_def unat_gt_0)
next
  case False
  define p where "p = unat a"
  define q where "q = unat b"
  have q: "0 < q" and p: "0 < p" using assms False by (simp_all add: unat_gt_0 p_def q_def)
  define k where "k = (p - 1) div q"
  define r where "r = p - k * q"
  have "k * q \<le> p - 1" by (simp add: k_def)
  moreover have "p - 1 < (k + 1) * q"
    using dividend_less_times_div [OF q, of "p - 1"] by (simp add: k_def algebra_simps)
  ultimately have pr: "p = k * q + r" "0 < r" "r \<le> q"
    using p by (auto simp: r_def)
  have lt: "p < 2 ^ 32" "q < 2 ^ 32"
    using unsigned_less [of a] unsigned_less [of b] by (simp_all add: p_def q_def)
  then have "p < 2 ^ 53" "q < 2 ^ 53" by simp_all
  note between = f64_div_between [OF pr this]
  have c: "(f64_div p q + (f64_unit - 1)) div f64_unit = k + 1"
    by (rule ceil_between [OF _ between]) (simp add: f64_unit_def)
  have "k \<le> p - 1" using q by (simp add: k_def div_le_dividend)
  then have "k + 1 < 2 ^ 32" using lt(1) p by simp
  moreover have "(p + q - 1) div q = k + 1"
    using pr q by (intro div_nat_eqI) (auto simp: algebra_simps)
  ultimately show ?thesis
    using assms c by (simp add: f64_ceil_div_def Let_def p_def q_def)
qed

end
