(* ===== verification/Gguf_Layers.thy ===== *)
theory Gguf_Layers
  imports Gguf_Tensors Rust_Float "HOL-Library.Multiset"
begin

text \<open>
  Which tensor goes to which shard: \<^verbatim>\<open>get_layer_id\<close>, \<^verbatim>\<open>count_layers\<close>,
  \<^verbatim>\<open>group_tensors_by_layer\<close>, the shard ranges of \<^verbatim>\<open>main\<close> and
  \<^verbatim>\<open>get_shard_tensor_indices\<close>. The specification orders the groups as a linear order on
  \<open>slot\<close>s (the layers by number, then the tensors of no layer): the shards, one after the
  other, list the tensors in the order of a stable sort by slot, so every tensor is in
  exactly one shard.
\<close>

section \<open>Layers of tensors\<close>

definition get_layer_id :: "string \<Rightarrow> u32 option" where
  "get_layer_id nm =
     (case strip_prefix nm ''blk.'' of
        None \<Rightarrow> None
      | Some rest \<Rightarrow>
          (case find_char rest CHR ''.'' of
             None \<Rightarrow> None
           | Some dot \<Rightarrow> parse_u32 (take dot rest)))"

definition count_step :: "bool \<Rightarrow> tensor_info \<Rightarrow> u32 \<Rightarrow> u32 gres" where
  "count_step oc t mx =
     (case get_layer_id (name t) of
        Some layer \<Rightarrow> if mx \<le> layer then wadd oc layer 1 else Val mx
      | None \<Rightarrow> Val mx)"

definition count_layers :: "bool \<Rightarrow> tensor_info list \<Rightarrow> u32 gres" where
  "count_layers oc ts = fold_out (count_step oc) ts 0"

text \<open>The loop over \<^verbatim>\<open>tensors.iter().enumerate()\<close>; the state is \<^verbatim>\<open>(groups, non_layer)\<close>.\<close>

fun group_loop ::
  "nat \<Rightarrow> tensor_info list \<Rightarrow> nat list list \<times> nat list \<Rightarrow> nat list list \<times> nat list" where
  "group_loop i [] st = st"
| "group_loop i (t # ts) (groups, non_layer) =
     group_loop (Suc i) ts
       (case get_layer_id (name t) of
          Some layer \<Rightarrow>
            if unat layer < length groups
            then (groups[unat layer := groups ! unat layer @ [i]], non_layer)
            else (groups, non_layer @ [i])
        | None \<Rightarrow> (groups, non_layer @ [i]))"

definition group_tensors_by_layer :: "tensor_info list \<Rightarrow> u32 \<Rightarrow> nat list list" where
  "group_tensors_by_layer ts num_layers =
     (let (groups, non_layer) = group_loop 0 ts (replicate (unat num_layers) [], [])
      in groups @ [non_layer])"

definition get_shard_tensor_indices ::
  "bool \<Rightarrow> nat list list \<Rightarrow> u32 \<Rightarrow> u32 \<Rightarrow> bool \<Rightarrow> nat list gres" where
  "get_shard_tensor_indices oc groups first_layer last_layer has_lm_head =
     and_then
       (fold_out
          (\<lambda>layer indices.
             and_then (wsub oc (wlen groups) 1) (\<lambda>n.
             if layer < unat n then
               and_then (nth_out groups layer) (\<lambda>g. Val (indices @ g))
             else Val indices))
          [unat first_layer..<Suc (unat last_layer)] [])
       (\<lambda>indices. Val (if has_lm_head \<and> groups \<noteq> [] then indices @ last groups else indices))"

section \<open>Shard ranges\<close>

text \<open>The body of the loops over \<^verbatim>\<open>0..num_shards\<close>: first and last layer, LM head.\<close>

definition shard_range :: "bool \<Rightarrow> u32 \<Rightarrow> u32 \<Rightarrow> u32 \<Rightarrow> u32 \<Rightarrow> (u32 \<times> u32 \<times> bool) gres" where
  "shard_range oc num_layers layers_per_shard num_shards i =
     and_then (wmul oc i layers_per_shard) (\<lambda>first.
     and_then (wadd oc first layers_per_shard) (\<lambda>e.
     and_then (wsub oc e 1) (\<lambda>l.
     and_then (wsub oc num_layers 1) (\<lambda>top.
     and_then (wadd oc i 1) (\<lambda>i1. Val (first, min l top, i1 = num_shards))))))"

definition shard_indices ::
  "bool \<Rightarrow> nat list list \<Rightarrow> u32 \<Rightarrow> u32 \<Rightarrow> u32 \<Rightarrow> u32 \<Rightarrow> nat list gres" where
  "shard_indices oc groups num_layers layers_per_shard num_shards i =
     and_then (shard_range oc num_layers layers_per_shard num_shards i) (\<lambda>(first, last, has).
     get_shard_tensor_indices oc groups first last has)"

definition num_shards_of :: "u32 \<Rightarrow> u32 \<Rightarrow> u32" where
  "num_shards_of num_layers layers_per_shard = f64_ceil_div num_layers layers_per_shard"

section \<open>The specification: slots in order\<close>

datatype slot = Layer nat | NonLayer

instantiation slot :: linorder
begin

fun less_eq_slot :: "slot \<Rightarrow> slot \<Rightarrow> bool" where
  "Layer a \<le> Layer b = (a \<le> b)"
| "Layer a \<le> NonLayer = True"
| "NonLayer \<le> Layer b = False"
| "NonLayer \<le> NonLayer = True"

definition less_slot :: "slot \<Rightarrow> slot \<Rightarrow> bool" where
  "less_slot a b = (a \<le> b \<and> \<not> b \<le> a)"

instance
proof
  fix x y z :: slot
  show "(x < y) = (x \<le> y \<and> \<not> y \<le> x)" by (simp add: less_slot_def)
  show "x \<le> x" by (cases x) auto
  show "x \<le> y \<Longrightarrow> y \<le> z \<Longrightarrow> x \<le> z" by (cases x; cases y; cases z) auto
  show "x \<le> y \<Longrightarrow> y \<le> x \<Longrightarrow> x = y" by (cases x; cases y) auto
  show "x \<le> y \<or> y \<le> x" by (cases x; cases y) auto
qed

end

definition slot_of :: "nat \<Rightarrow> tensor_info \<Rightarrow> slot" where
  "slot_of n t =
     (case get_layer_id (name t) of
        Some l \<Rightarrow> if unat l < n then Layer (unat l) else NonLayer
      | None \<Rightarrow> NonLayer)"

text \<open>All slots of a model of \<open>n\<close> layers, in order, and the tensors of a slot.\<close>

definition slots :: "nat \<Rightarrow> slot list" where
  "slots n = map Layer [0..<n] @ [NonLayer]"

definition members :: "nat \<Rightarrow> tensor_info list \<Rightarrow> slot \<Rightarrow> nat list" where
  "members n ts s = filter (\<lambda>i. slot_of n (ts ! i) = s) [0..<length ts]"

text \<open>The shard of a slot, and the tensors of a shard, in order of their slots.\<close>

fun shard_of :: "nat \<Rightarrow> nat \<Rightarrow> slot \<Rightarrow> nat" where
  "shard_of lps num (Layer l) = l div lps"
| "shard_of lps num NonLayer = num - 1"

definition shard_members :: "nat \<Rightarrow> nat \<Rightarrow> nat \<Rightarrow> tensor_info list \<Rightarrow> nat \<Rightarrow> nat list" where
  "shard_members n lps num ts i =
     sort_key (\<lambda>k. slot_of n (ts ! k))
       (filter (\<lambda>k. shard_of lps num (slot_of n (ts ! k)) = i) [0..<length ts])"

definition shard_assignment :: "u32 \<Rightarrow> u32 \<Rightarrow> tensor_info list \<Rightarrow> nat list list" where
  "shard_assignment num_layers lps ts =
     (let num = unat (num_shards_of num_layers lps) in
      map (shard_members (unat num_layers) (unat lps) num ts) [0..<num])"

lemma slot_of_in_slots: "slot_of n t \<in> set (slots n)"
  by (auto simp: slot_of_def slots_def split: option.splits)

lemma sorted_slots: "sorted (slots n)"
proof -
  have "sorted (map Layer [0..<n])" by (simp add: sorted_map)
  then show ?thesis by (auto simp: slots_def sorted_append)
qed

lemma distinct_slots: "distinct (slots n)"
  by (auto simp: slots_def distinct_map inj_on_def)

section \<open>Counting\<close>

lemma get_layer_id_canonical:
  "n < 2 ^ 32 \<Longrightarrow> get_layer_id (''blk.'' @ dec n @ ''.'' @ suffix) = Some (word_of_nat n)"
proof -
  assume n: "n < 2 ^ 32"
  have "CHR ''.'' \<notin> set (dec n)" using dec_digits [of "CHR ''.''" n] by auto
  then have "find_char (dec n @ CHR ''.'' # suffix) CHR ''.'' = Some (length (dec n))"
    by (rule find_char_append)
  with n show ?thesis
    by (simp add: get_layer_id_def strip_prefix_append [where p = "''blk.''", simplified] parse_u32_dec)
qed

text \<open>No tensor names the layer \<^verbatim>\<open>u32::MAX\<close>: the count then fits in 32 bits.\<close>

definition layers_in_range :: "tensor_info list \<Rightarrow> bool" where
  "layers_in_range ts \<longleftrightarrow> (\<forall>t \<in> set ts. get_layer_id (name t) \<noteq> Some (- 1))"

definition layer_bound :: "tensor_info \<Rightarrow> nat" where
  "layer_bound t = (case get_layer_id (name t) of Some l \<Rightarrow> Suc (unat l) | None \<Rightarrow> 0)"

lemma unat_succ32: "l \<noteq> - 1 \<Longrightarrow> unat (l + 1) = Suc (unat l)" for l :: u32
  by (metis Suc_eq_plus1 add.commute add_eq_0_iff unatSuc)

lemma unat_lt_32: "unat l < 2 ^ 32" for l :: u32
  using unsigned_less [of l] by simp

lemma count_step_ok:
  assumes "get_layer_id (name t) \<noteq> Some (- 1)"
  shows "\<exists>m'. count_step oc t m = Val m' \<and> unat m' = max (unat m) (layer_bound t)"
proof (cases "get_layer_id (name t)")
  case (Some l)
  with assms have l: "l \<noteq> - 1" by simp
  have "unat l + 1 < 2 ^ 32"
    using unat_lt_32 [of "l + 1"] unat_succ32 [OF l] by simp
  then have "wadd oc l 1 = (Val (l + 1) :: u32 gres)"
    by (intro wadd_exact) simp
  with Some l show ?thesis
    by (auto simp: unat_succ32 word_le_nat_alt max_def count_step_def layer_bound_def)
qed (auto simp: count_step_def layer_bound_def)

lemma count_loop_ok:
  "layers_in_range ts \<Longrightarrow>
     \<exists>m'. fold_out (count_step oc) ts m = Val m' \<and> unat m' = fold max (map layer_bound ts) (unat m)"
proof (induction ts arbitrary: m)
  case (Cons t ts)
  then obtain m1 where "count_step oc t m = Val m1" "unat m1 = max (unat m) (layer_bound t)"
    using count_step_ok [of t oc m] by (auto simp: layers_in_range_def)
  moreover obtain m' where "fold_out (count_step oc) ts m1 = Val m'"
      "unat m' = fold max (map layer_bound ts) (unat m1)"
    using Cons by (auto simp: layers_in_range_def)
  ultimately show ?case by (auto simp: max.commute)
qed simp

lemma count_layers_ok:
  assumes "layers_in_range ts"
  obtains n where "count_layers oc ts = Val n" and "unat n = fold max (map layer_bound ts) 0"
  using count_loop_ok [OF assms, of oc 0] by (auto simp: count_layers_def)

lemma count_layers_bound:
  assumes "count_layers oc ts = Val n" and "layers_in_range ts" and "t \<in> set ts"
    and "get_layer_id (name t) = Some l"
  shows "unat l < unat n"
proof -
  have "unat n = fold max (map layer_bound ts) 0"
    using count_layers_ok [OF assms(2), of oc] assms(1) by auto
  moreover have "Suc (unat l) = layer_bound t" using assms(4) by (simp add: layer_bound_def)
  ultimately show ?thesis
    using assms(3) fold_max_le_iff [of "map layer_bound ts" 0 "unat n"] by fastforce
qed

section \<open>Grouping\<close>

text \<open>The indices, counted from \<open>i\<close>, of the tensors in slot \<open>s\<close>.\<close>

definition pick :: "nat \<Rightarrow> nat \<Rightarrow> tensor_info list \<Rightarrow> slot \<Rightarrow> nat list" where
  "pick n i ts s = map fst (filter (\<lambda>p. slot_of n (snd p) = s) (enumerate i ts))"

lemma pick_simps [simp]:
  "pick n i [] s = []"
  "pick n i (t # ts) s = (if slot_of n t = s then i # pick n (Suc i) ts s else pick n (Suc i) ts s)"
  by (simp_all add: pick_def)

lemma pick_members: "pick n 0 ts s = members n ts s"
proof -
  have "enumerate 0 ts = map (\<lambda>i. (i, ts ! i)) [0..<length ts]"
    by (rule nth_equalityI) (auto simp: nth_enumerate_eq)
  then show ?thesis by (simp add: pick_def members_def filter_map o_def)
qed

lemma group_loop_eq:
  "length groups = n \<Longrightarrow>
   group_loop i ts (groups, nl) =
     (map (\<lambda>l. groups ! l @ pick n i ts (Layer l)) [0..<n], nl @ pick n i ts NonLayer)"
proof (induction ts arbitrary: i groups nl)
  case Nil
  then show ?case by (auto simp: map_nth)
next
  case (Cons t ts)
  show ?case
  proof (cases "slot_of n t")
    case (Layer l)
    then obtain w where w: "get_layer_id (name t) = Some w" "unat w = l" "l < n"
      by (auto simp: slot_of_def split: option.splits if_splits)
    with Cons.prems have "group_loop i (t # ts) (groups, nl) =
        group_loop (Suc i) ts (groups[l := groups ! l @ [i]], nl)" by simp
    with Cons.prems Layer w show ?thesis
      by (simp add: Cons.IH nth_list_update)
  next
    case NonLayer
    then have "group_loop i (t # ts) (groups, nl) = group_loop (Suc i) ts (groups, nl @ [i])"
      using Cons.prems by (auto simp: slot_of_def split: option.splits if_splits)
    with Cons.prems NonLayer show ?thesis by (simp add: Cons.IH)
  qed
qed

lemma group_tensors_eq:
  "group_tensors_by_layer ts num_layers = map (members (unat num_layers) ts) (slots (unat num_layers))"
  using group_loop_eq [of "replicate (unat num_layers) []" "unat num_layers" 0 ts "[]"]
  by (simp add: group_tensors_by_layer_def slots_def pick_members)

section \<open>Shards\<close>

lemma fold_out_collect:
  assumes "\<And>x acc. x \<in> set xs \<Longrightarrow> f x acc = Val (acc @ g x)"
  shows "fold_out f xs acc = Val (acc @ concat (map g xs))"
  using assms by (induction xs arbitrary: acc) auto

lemma get_shard_tensor_indices_eq:
  assumes "length groups = Suc n" and "n < 2 ^ 32" and "unat lst < n"
  shows "get_shard_tensor_indices oc groups first lst has =
    Val (concat (map (\<lambda>l. groups ! l) [unat first..<Suc (unat lst)]) @ (if has then groups ! n else []))"
proof -
  have "unat (word_of_nat (Suc n) :: usize) = Suc n" using assms(2) by (intro unat_of_nat64) simp
  then have "unat (wlen groups) = Suc n" using assms(1) by (simp only:)
  then have "wsub oc (wlen groups) 1 = (Val (word_of_nat n) :: usize gres)"
    using assms(1) by (subst wsub_exact) (auto simp: word_le_nat_alt)
  moreover have "unat (word_of_nat n :: usize) = n" using assms(2) by simp
  moreover have "groups \<noteq> []" "List.last groups = groups ! n"
    using assms(1) last_conv_nth [of groups] by (cases groups; simp)+
  moreover have "fold_out (\<lambda>layer indices.
        if layer < n then and_then (nth_out groups layer) (\<lambda>g. Val (indices @ g)) else Val indices)
      [unat first..<Suc (unat lst)] [] =
      (Val ([] @ concat (map (\<lambda>l. groups ! l) [unat first..<Suc (unat lst)])) :: nat list gres)"
    using assms(1,3) by (intro fold_out_collect) (auto simp: nth_out_def)
  ultimately show ?thesis
    by (simp add: get_shard_tensor_indices_def del: upt_Suc)
qed

text \<open>The number of shards in exact arithmetic.\<close>

lemma num_shards_exact:
  assumes "lps \<noteq> 0"
  shows "unat (num_shards_of n lps) = (unat n + unat lps - 1) div unat lps"
proof -
  have q: "0 < unat lps" using assms by (simp add: unat_gt_0)
  have "unat n \<le> unat n * unat lps" using q by simp
  then have "unat n + unat lps - 1 < (unat n + 1) * unat lps"
    using q by (simp only: add_mult_distrib)
  then have "(unat n + unat lps - 1) div unat lps < unat n + 1"
    by (rule less_mult_imp_div_less)
  then have "(unat n + unat lps - 1) div unat lps < 2 ^ 32"
    using unat_lt_32 [of n] by simp
  then show ?thesis using assms by (simp add: num_shards_of_def f64_ceil_div_exact)
qed

text \<open>The ranges fit in 32 bits when the layer count and the shard size add up to at most \<open>2 ^ 32\<close>.\<close>

definition ranges_fit :: "u32 \<Rightarrow> u32 \<Rightarrow> bool" where
  "ranges_fit num_layers lps \<longleftrightarrow> unat num_layers + unat lps \<le> 2 ^ 32"

lemma shard_range_eq:
  assumes fit: "ranges_fit n lps" and "lps \<noteq> 0" and i: "i < num_shards_of n lps"
  obtains first lst where
    "shard_range oc n lps (num_shards_of n lps) i = Val (first, lst, Suc (unat i) = unat (num_shards_of n lps))"
    and "unat first = unat i * unat lps"
    and "Suc (unat lst) = min (Suc (unat i) * unat lps) (unat n)"
    and "unat i * unat lps < unat n"
proof -
  let ?l = "unat lps" and ?i = "unat i" and ?n = "unat n"
  have q: "0 < ?l" using assms(2) by (simp add: unat_gt_0)
  have "?i < (?n + ?l - 1) div ?l"
    using i num_shards_exact [OF assms(2)] by (simp add: word_less_nat_alt)
  then have "Suc ?i * ?l \<le> ?n + ?l - 1"
    using q by (simp add: less_eq_div_iff_mult_less_eq Suc_le_eq [symmetric])
  then have lt: "?i * ?l < ?n" using q by simp
  with fit have bounds: "?i * ?l + ?l < 2 ^ 32" by (simp add: ranges_fit_def)
  have first: "wmul oc i lps = (Val (i * lps) :: u32 gres)" "unat (i * lps) = ?i * ?l"
    using bounds wmul_exact [of i lps] unat_mult_exact [of i lps] by auto
  have e: "wadd oc (i * lps) lps = (Val (i * lps + lps) :: u32 gres)"
    "unat (i * lps + lps) = ?i * ?l + ?l"
    using bounds first(2) wadd_exact [of "i * lps" lps] unat_add_exact [of "i * lps" lps] by auto
  have one: "1 \<le> i * lps + lps" using e(2) q by (simp add: word_le_nat_alt)
  then have l: "wsub oc (i * lps + lps) 1 = (Val (i * lps + lps - 1) :: u32 gres)"
    "unat (i * lps + lps - 1) = ?i * ?l + ?l - 1"
    using wsub_exact [OF one] unat_sub_exact [OF one] e(2) by auto
  have n1: "1 \<le> n" using lt by (simp add: word_le_nat_alt)
  then have top: "wsub oc n 1 = (Val (n - 1) :: u32 gres)" "unat (n - 1) = ?n - 1"
    using wsub_exact [OF n1] unat_sub_exact [OF n1] by auto
  have "i \<noteq> - 1" using i word_n1_ge [of "num_shards_of n lps"] by (metis leD)
  then have "unat (i + 1) = Suc ?i" by (rule unat_succ32)
  then have i1: "wadd oc i 1 = (Val (i + 1) :: u32 gres)"
    using unat_lt_32 [of "i + 1"] by (intro wadd_exact) simp
  have mn: "Suc (unat (min (i * lps + lps - 1) (n - 1))) = min (Suc ?i * ?l) ?n"
    using l(2) top(2) q lt by (auto simp: min_def word_le_nat_alt)
  have "(i + 1 = num_shards_of n lps) = (Suc ?i = unat (num_shards_of n lps))"
    using \<open>unat (i + 1) = Suc ?i\<close> by (auto simp: word_unat_eq_iff)
  then have "shard_range oc n lps (num_shards_of n lps) i =
      Val (i * lps, min (i * lps + lps - 1) (n - 1), Suc ?i = unat (num_shards_of n lps))"
    by (simp add: shard_range_def first e l top i1)
  then show ?thesis using that first(2) mn lt by blast
qed

section \<open>All shards together\<close>

lemma concat_chunks:
  "concat (map (\<lambda>i. [i * l..<min (Suc i * l) n]) [0..<k]) = [0..<min (k * l) n]"
proof (induction k)
  case (Suc k)
  have "[0..<min (k * l) n] @ [k * l..<min (Suc k * l) n] = [0..<min (Suc k * l) n]"
  proof (cases "k * l \<le> n")
    case True
    then have "min (k * l) n = k * l" "k * l \<le> min (Suc k * l) n" by auto
    then show ?thesis using upt_add_eq_append [of 0 "k * l" "min (Suc k * l) n - k * l"] by simp
  next
    case False
    then show ?thesis by auto
  qed
  with Suc show ?case by simp
qed simp

lemma sorted_groups_sort_key:
  fixes f :: "'a \<Rightarrow> 'k::linorder"
  assumes "sorted ks" and "distinct ks" and "\<And>x. x \<in> set xs \<Longrightarrow> f x \<in> set ks"
  shows "concat (map (\<lambda>k. filter (\<lambda>x. f x = k) xs) ks) = sort_key f xs"
proof -
  let ?ys = "concat (map (\<lambda>k. filter (\<lambda>x. f x = k) xs) ks)"
  have pick: "filter (\<lambda>x. f x = k) (concat (map (\<lambda>k. filter (\<lambda>x. f x = k) xs) ks)) =
      (if k \<in> set ks then filter (\<lambda>x. f x = k) xs else [])" if "distinct ks" for k ks
    using that
  proof (induction ks)
    case (Cons a ks)
    then show ?case by (cases "a = k") (auto simp: filter_empty_conv intro: filter_cong)
  qed simp
  have count: "count (mset ?ys) x = count (mset xs) x" for x
  proof -
    have "count (mset ?ys) x = count (mset (filter (\<lambda>y. f y = f x) ?ys)) x" by simp
    also have "\<dots> = count (mset xs) x"
      using pick [OF assms(2), of "f x"] assms(3) [of x] by (auto simp: count_eq_zero_iff)
    finally show ?thesis .
  qed
  have "sorted (map f ?ys)"
    using assms(1,2)
  proof (induction ks)
    case (Cons k ks)
    then show ?case
      by (auto simp: sorted_append sorted_map_same [where g = "\<lambda>_. k"])
  qed simp
  moreover have "filter (\<lambda>y. f x = f y) ?ys = filter (\<lambda>y. f x = f y) xs" if "x \<in> set ?ys" for x
    using pick [OF assms(2), of "f x"] that by (simp add: eq_commute [of "f x"] assms(3))
  moreover have "mset ?ys = mset xs" using count by (rule multiset_eqI)
  ultimately show ?thesis by (intro properties_for_sort_key [symmetric])
qed

lemma div_eq_iff_interval: "0 < l \<Longrightarrow> k div l = i \<longleftrightarrow> i * l \<le> k \<and> k < Suc i * l" for k l i :: nat
  by (metis div_less_iff_less_mult div_nat_eqI less_Suc_eq_le less_eq_div_iff_mult_less_eq mult.commute nat_less_le
      order_refl)

lemma slot_of_Layer: "slot_of n t = Layer k \<Longrightarrow> k < n"
  by (auto simp: slot_of_def split: option.splits if_splits)

lemma shard_members_groups:
  assumes l: "0 < l" and "i < num"
  shows "concat (map (\<lambda>k. members n ts (Layer k)) [i * l..<min (Suc i * l) n]) @
      (if Suc i = num then members n ts NonLayer else []) = shard_members n l num ts i"
proof -
  define ks where "ks = map Layer [i * l..<min (Suc i * l) n] @ (if Suc i = num then [NonLayer] else [])"
  define xs where "xs = filter (\<lambda>k. shard_of l num (slot_of n (ts ! k)) = i) [0..<length ts]"
  have shard: "shard_of l num s = i" if "s \<in> set ks" for s
    using that l assms(2) by (auto simp: ks_def div_eq_iff_interval split: if_splits)
  have "concat (map (\<lambda>k. members n ts (Layer k)) [i * l..<min (Suc i * l) n]) @
      (if Suc i = num then members n ts NonLayer else []) =
      concat (map (\<lambda>s. filter (\<lambda>k. slot_of n (ts ! k) = s) [0..<length ts]) ks)"
    by (simp add: ks_def members_def o_def)
  also have "\<dots> = concat (map (\<lambda>s. filter (\<lambda>k. slot_of n (ts ! k) = s) xs) ks)"
    unfolding xs_def filter_filter using shard
    by (intro arg_cong [where f = concat] map_cong filter_cong) auto
  also have "\<dots> = sort_key (\<lambda>k. slot_of n (ts ! k)) xs"
  proof (rule sorted_groups_sort_key)
    have "sorted (map Layer [i * l..<min (Suc i * l) n])" by (simp add: sorted_map)
    then show "sorted ks" by (auto simp: ks_def sorted_append)
    show "distinct ks" by (auto simp: ks_def distinct_map inj_on_def)
    fix k assume "k \<in> set xs"
    then have i: "shard_of l num (slot_of n (ts ! k)) = i" by (simp add: xs_def)
    show "slot_of n (ts ! k) \<in> set ks"
    proof (cases "slot_of n (ts ! k)")
      case (Layer q)
      with i slot_of_Layer [OF Layer] show ?thesis by (simp add: ks_def div_eq_iff_interval [OF l])
    next
      case NonLayer
      with i assms(2) show ?thesis by (auto simp: ks_def)
    qed
  qed
  finally show ?thesis by (simp add: shard_members_def xs_def)
qed

lemma all_shards_eq:
  assumes fit: "ranges_fit n lps" and lps: "lps \<noteq> 0" and n: "n \<noteq> 0"
  defines "num \<equiv> num_shards_of n lps"
  shows "map_out (\<lambda>i. shard_indices oc (group_tensors_by_layer ts n) n lps num (word_of_nat i)) [0..<unat num] =
      Val (shard_assignment n lps ts)"
    and "concat (shard_assignment n lps ts) = sort_key (\<lambda>i. slot_of (unat n) (ts ! i)) [0..<length ts]"
    and "length (shard_assignment n lps ts) = unat num"
proof -
  let ?n = "unat n" and ?l = "unat lps"
  define groups where "groups = group_tensors_by_layer ts n"
  have groups: "groups = map (members ?n ts) (slots ?n)" by (simp add: groups_def group_tensors_eq)
  then have len: "length groups = Suc ?n" by (simp add: slots_def)
  have q: "0 < ?l" using lps by (simp add: unat_gt_0)
  have num: "unat num = (?n + ?l - 1) div ?l" using num_shards_exact [OF lps] by (simp add: num_def)
  have n0: "0 < ?n" using n by (simp add: unat_gt_0)
  define g where "g i = concat (map (\<lambda>l. groups ! l) [i * ?l..<min (Suc i * ?l) ?n]) @
      (if Suc i = unat num then groups ! ?n else [])" for i
  have one: "shard_indices oc groups n lps num (word_of_nat i) = Val (g i)" if "i < unat num" for i
  proof -
    have "i < 2 ^ 32" using that unat_lt_32 [of num] by simp
    then have ui: "unat (word_of_nat i :: u32) = i" by simp
    then have "word_of_nat i < num" using that by (simp add: word_less_nat_alt)
    then obtain first lst where
      r: "shard_range oc n lps num (word_of_nat i) = Val (first, lst, Suc i = unat num)"
      and b: "unat first = i * ?l" "Suc (unat lst) = min (Suc i * ?l) ?n"
      using shard_range_eq [OF fit lps, of "word_of_nat i" oc] ui unfolding num_def by metis
    have "unat lst < ?n" using b(2) n0 by linarith
    from get_shard_tensor_indices_eq [OF len unat_lt_32 this] b show ?thesis
      by (simp add: shard_indices_def r g_def)
  qed
  then have m: "map_out (\<lambda>i. shard_indices oc groups n lps num (word_of_nat i)) [0..<unat num] =
      Val (map g [0..<unat num])"
    by (intro map_out_Val) auto
  have "?n \<le> unat num * ?l"
    using q n0 dividend_less_times_div [OF q, of "?n + ?l - 1"] by (simp add: num algebra_simps)
  then have chunks: "concat (map (\<lambda>i. [i * ?l..<min (Suc i * ?l) ?n]) [0..<unat num]) = [0..<?n]"
    by (simp only: concat_chunks min_absorb2)
  define a where "a = (\<lambda>i. concat (map (\<lambda>l. groups ! l) [i * ?l..<min (Suc i * ?l) ?n]))"
  have "0 < unat num" using num n0 q by (simp add: div_greater_zero_iff)
  then obtain m where Suc: "unat num = Suc m" by (cases "unat num") auto
  have init: "map g [0..<m] = map a [0..<m]" by (auto simp: g_def a_def Suc simp del: upt_Suc)
  have "g m = a m @ groups ! ?n" by (simp add: g_def a_def Suc)
  then have "concat (map g [0..<unat num]) = concat (map g [0..<m]) @ a m @ groups ! ?n"
    by (simp add: Suc)
  also have "\<dots> = concat (map a [0..<unat num]) @ groups ! ?n"
    unfolding init by (simp add: Suc)
  also have "concat (map a [0..<unat num]) = concat (map (\<lambda>l. groups ! l) [0..<?n])"
    unfolding chunks [symmetric] by (simp add: a_def concat_map_concat o_def del: upt_Suc)
  also have "\<dots> @ groups ! ?n = concat (map (\<lambda>l. groups ! l) [0..<length groups])"
    by (simp add: len)
  also have "\<dots> = concat groups" by (simp only: map_nth)
  also have "\<dots> = sort_key (\<lambda>i. slot_of ?n (ts ! i)) [0..<length ts]"
    unfolding groups members_def
    by (rule sorted_groups_sort_key) (simp_all add: sorted_slots distinct_slots slot_of_in_slots)
  finally have sorted: "concat (map g [0..<unat num]) = sort_key (\<lambda>i. slot_of ?n (ts ! i)) [0..<length ts]" .
  have "g i = shard_members ?n ?l (unat num) ts i" if "i < unat num" for i
  proof -
    have "groups ! k = members ?n ts (Layer k)" if "k < ?n" for k
      using that by (simp add: groups slots_def nth_append)
    moreover have "groups ! ?n = members ?n ts NonLayer"
      by (simp add: groups slots_def nth_append)
    ultimately have "g i = concat (map (\<lambda>k. members ?n ts (Layer k)) [i * ?l..<min (Suc i * ?l) ?n]) @
        (if Suc i = unat num then members ?n ts NonLayer else [])"
      unfolding g_def by (intro arg_cong2 [where f = "(@)"] arg_cong [where f = concat] map_cong) auto
    with shard_members_groups [OF q that] show ?thesis by simp
  qed
  then have g: "map g [0..<unat num] = shard_assignment n lps ts"
    by (simp add: shard_assignment_def num_def [symmetric] Let_def)
  show "map_out (\<lambda>i. shard_indices oc (group_tensors_by_layer ts n) n lps num (word_of_nat i)) [0..<unat num] =
      Val (shard_assignment n lps ts)"
    using m g by (simp add: groups_def)
  show "concat (shard_assignment n lps ts) = sort_key (\<lambda>i. slot_of ?n (ts ! i)) [0..<length ts]"
    using sorted g by simp
  show "length (shard_assignment n lps ts) = unat num" by (simp add: g [symmetric])
qed

section \<open>Properties\<close>

definition layer_tensor :: "string \<Rightarrow> tensor_info" where
  "layer_tensor nm = \<lparr>name = nm, n_dims = 0, dims = [], ggml_type = 0, offset = 0\<rparr>"

text \<open>
  The layer \<^verbatim>\<open>u32::MAX\<close> breaks the count: in the release build it wraps around to 0 even
  behind other layers, in a checked build it panics.
\<close>
theorem count_wraps:
  "count_layers False [layer_tensor ''blk.7.w'', layer_tensor ''blk.4294967295.w''] = Val 0 \<and>
   count_layers True [layer_tensor ''blk.7.w'', layer_tensor ''blk.4294967295.w''] = Panic ArithOverflow"
  by code_simp

text \<open>
  \<^verbatim>\<open>group_tensors_by_layer\<close> returns one group per layer and one for the tensors of no
  layer (or of a layer beyond the count), each listing its tensors in file order.
\<close>
theorem groups_by_slot:
  "group_tensors_by_layer ts num_layers = map (members (unat num_layers) ts) (slots (unat num_layers))"
  by (rule group_tensors_eq)

text \<open>
  C29: The number of shards, computed by a division of floating-point numbers, is the exact
  ceiling of the quotient of layers and layers per shard, for all 32-bit values.
\<close>
theorem shard_count_exact:
  assumes "lps \<noteq> 0"
  shows "unat (num_shards_of n lps) = (unat n + unat lps - 1) div unat lps"
  using assms by (rule num_shards_exact)

theorem shard_count_exact_witness: "unat (num_shards_of 4294967295 3) = 1431655765"
  using shard_count_exact [of 3 4294967295] by simp

text \<open>
  C28: Shard \<open>i\<close> covers the layers from \<open>i\<close> times the shard size up to the next multiple or
  the last layer, never an empty range; exactly the last shard gets the LM head.
\<close>
theorem shard_range_layers:
  assumes "ranges_fit n lps" and "lps \<noteq> 0" and "i < num_shards_of n lps"
  shows "\<exists>first lst.
    shard_range oc n lps (num_shards_of n lps) i = Val (first, lst, Suc (unat i) = unat (num_shards_of n lps)) \<and>
    unat first = unat i * unat lps \<and> unat first \<le> unat lst \<and>
    Suc (unat lst) = min (Suc (unat i) * unat lps) (unat n)"
proof -
  obtain first lst where r:
    "shard_range oc n lps (num_shards_of n lps) i = Val (first, lst, Suc (unat i) = unat (num_shards_of n lps))"
    "unat first = unat i * unat lps" "Suc (unat lst) = min (Suc (unat i) * unat lps) (unat n)"
    "unat i * unat lps < unat n"
    by (rule shard_range_eq [OF assms])
  moreover have "unat i * unat lps < Suc (unat i) * unat lps" using assms(2) by (simp add: unat_gt_0)
  ultimately have "unat first \<le> unat lst" by linarith
  with r show ?thesis by blast
qed

theorem shard_range_layers_witness:
  "\<exists>first lst. shard_range False 10 4 3 2 = Val (first, lst, True) \<and> unat first = 8 \<and> Suc (unat lst) = 10"
proof -
  have "ranges_fit 10 4" by code_simp
  moreover have "num_shards_of 10 4 = 3" by (simp add: word_unat_eq_iff num_shards_exact)
  ultimately show ?thesis
    using shard_range_layers [of 10 4 2 False] by simp blast
qed

text \<open>
  C12: Together the shards are a partition of the tensors: computing the indices of every
  shard never panics, shard \<open>i\<close> gets the tensors of the layers whose number divided by the
  shard size is \<open>i\<close> (the last one also those of no layer), and the lists, one after the other,
  are the stable sort of all tensor indices by layer, so each tensor is in exactly one shard.
\<close>
theorem shards_partition:
  assumes "ranges_fit n lps" and "lps \<noteq> 0" and "n \<noteq> 0"
  shows "map_out (\<lambda>i. shard_indices oc (group_tensors_by_layer ts n) n lps (num_shards_of n lps) (word_of_nat i))
      [0..<unat (num_shards_of n lps)] = Val (shard_assignment n lps ts) \<and>
    concat (shard_assignment n lps ts) = sort_key (\<lambda>i. slot_of (unat n) (ts ! i)) [0..<length ts]"
  using all_shards_eq(1) [OF assms, of oc ts] all_shards_eq(2) [OF assms, of ts] by blast

lemma demo_assignment: "shard_assignment 2 1 demo_tensors = [[2], [1, 0, 3]]"
proof -
  have "num_shards_of 2 1 = 2" by (simp add: word_unat_eq_iff num_shards_exact)
  moreover have "shard_members 2 1 2 demo_tensors 0 = [2]" "shard_members 2 1 2 demo_tensors 1 = [1, 0, 3]"
    by code_simp+
  moreover have "[0..<2] = [0, 1::nat]" by (simp add: upt_conv_Cons)
  ultimately show ?thesis by (simp add: shard_assignment_def Let_def)
qed

theorem shards_partition_witness:
  "map_out (\<lambda>i. shard_indices True (group_tensors_by_layer demo_tensors 2) 2 1 2 (word_of_nat i)) [0..<2] =
    Val [[2], [1, 0, 3]]"
proof -
  have "ranges_fit 2 1" by code_simp
  moreover have "num_shards_of 2 1 = 2" by (simp add: word_unat_eq_iff num_shards_exact)
  ultimately show ?thesis
    using shards_partition [of 2 1 True demo_tensors] by (simp add: demo_assignment del: upt_Suc)
qed

end
