(* ===== verification/Gguf_Sizes.thy ===== *)
theory Gguf_Sizes
  imports Gguf_Layers
begin

text \<open>
  \<^verbatim>\<open>compute_data_sizes\<close>: the size of a tensor's data is the gap to the next offset, and
  the last one reaches to the end of the file. The specification: cut at these sizes in the
  order of the offsets, the regions of all tensors are the file from the first region on,
  without gap or overlap.
\<close>

definition offset_order :: "tensor_info list \<Rightarrow> nat list \<Rightarrow> nat list" where
  "offset_order ts idxs = sort_key (\<lambda>i. offset (ts ! i)) idxs"

definition compute_data_sizes :: "bool \<Rightarrow> tensor_info list \<Rightarrow> usize \<Rightarrow> usize \<Rightarrow> u64 list gres" where
  "compute_data_sizes oc ts tensor_data_start file_size =
     (let n = length ts; order = offset_order ts [0..<n] in
      fold_out
        (\<lambda>j sizes.
           let idx = order ! j in
           and_then
             (if j + 1 < length order
              then wsub oc (offset (ts ! (order ! (j + 1)))) (offset (ts ! idx))
              else and_then (wadd oc tensor_data_start (offset (ts ! idx))) (wsub oc file_size))
             (\<lambda>size. Val (sizes[idx := size])))
        [0..<length order] (replicate n 0))"

text \<open>Every region starts inside the file.\<close>

definition in_file :: "bytes \<Rightarrow> usize \<Rightarrow> tensor_info list \<Rightarrow> bool" where
  "in_file data start ts \<longleftrightarrow> (\<forall>t \<in> set ts. unat start + unat (offset t) \<le> length data)"

definition region :: "bytes \<Rightarrow> usize \<Rightarrow> tensor_info list \<Rightarrow> u64 list \<Rightarrow> nat \<Rightarrow> bytes" where
  "region data start ts sizes i =
     take (unat (sizes ! i)) (drop (unat start + unat (offset (ts ! i))) data)"

lemma length_offset_order [simp]: "length (offset_order ts idxs) = length idxs"
  by (simp add: offset_order_def)

lemma set_offset_order [simp]: "set (offset_order ts idxs) = set idxs"
  by (simp add: offset_order_def)

lemma mset_offset_order [simp]: "mset (offset_order ts idxs) = mset idxs"
  by (simp add: offset_order_def)

lemma distinct_offset_order [simp]: "distinct (offset_order ts idxs) = distinct idxs"
  by (simp add: offset_order_def distinct_sort)

lemma sorted_offset_order: "sorted (map (\<lambda>i. offset (ts ! i)) (offset_order ts idxs))"
  by (simp add: offset_order_def)

lemma offset_order_mono:
  "i \<le> j \<Longrightarrow> j < length idxs \<Longrightarrow>
     offset (ts ! (offset_order ts idxs ! i)) \<le> offset (ts ! (offset_order ts idxs ! j))"
  using sorted_nth_mono [OF sorted_offset_order [of ts idxs]] by simp

text \<open>A loop that stores one value per distinct index.\<close>

lemma fold_out_scatter:
  assumes "\<And>j. j < k \<Longrightarrow> f j = Val (v j)" and "inj_on p {..<k}" and "\<And>j. j < k \<Longrightarrow> p j < length s"
  shows "\<exists>s'. fold_out (\<lambda>j s. and_then (f j) (\<lambda>x. Val (s[p j := x]))) [0..<k] s = Val s' \<and>
    length s' = length s \<and> (\<forall>j < k. s' ! p j = v j)"
  using assms
proof (induction k)
  case (Suc k)
  then obtain s' where s': "fold_out (\<lambda>j s. and_then (f j) (\<lambda>x. Val (s[p j := x]))) [0..<k] s = Val s'"
    "length s' = length s" "\<forall>j < k. s' ! p j = v j"
    by (auto simp: inj_on_def)
  have "fold_out (\<lambda>j s. and_then (f j) (\<lambda>x. Val (s[p j := x]))) [0..<Suc k] s = Val (s'[p k := v k])"
    using s'(1) Suc.prems(1) by (simp add: fold_out_append)
  moreover have "\<forall>j < Suc k. s'[p k := v k] ! p j = v j"
  proof (intro allI impI)
    fix j assume "j < Suc k"
    then show "s'[p k := v k] ! p j = v j"
      using s'(2,3) Suc.prems(2) Suc.prems(3) [of j] Suc.prems(3) [of k]
      by (cases "j = k") (auto simp: nth_list_update inj_on_def)
  qed
  ultimately show ?case using s'(2) by auto
qed simp

lemma compute_data_sizes_eq:
  assumes v: "valid_slice data" and inf: "in_file data start ts"
  defines "n \<equiv> length ts"
  defines "order \<equiv> offset_order ts [0..<n]"
  obtains sizes where "compute_data_sizes oc ts start (wlen data) = Val sizes"
    and "length sizes = n"
    and "\<And>j. j < n \<Longrightarrow> unat start + unat (offset (ts ! (order ! j))) + unat (sizes ! (order ! j)) =
           (if j + 1 < n then unat start + unat (offset (ts ! (order ! (j + 1)))) else length data)"
proof -
  define off where "off j = offset (ts ! (order ! j))" for j
  define sz where "sz j = (if j + 1 < n then off (j + 1) - off j else wlen data - (start + off j))" for j
  have mem: "order ! j < n" if "j < n" for j
    using that nth_mem [of j order] by (simp add: order_def)
  have bound: "unat start + unat (off j) \<le> length data" if "j < n" for j
    using inf mem [OF that] by (auto simp: in_file_def off_def n_def)
  have mono: "off j \<le> off (j + 1)" if "j + 1 < n" for j
    using offset_order_mono [of j "j + 1" "[0..<n]" ts] that by (simp add: off_def order_def)
  have sum: "unat (start + off j) = unat start + unat (off j)"
    "wadd oc start (off j) = (Val (start + off j) :: usize gres)" if "j < n" for j
    using bound [OF that] v unat_add_exact [of start "off j"]
    by (auto simp: valid_slice_def intro: wadd_exact)
  have le: "start + off j \<le> wlen data" if "j < n" for j
    using bound [OF that] sum [OF that] v by (simp add: word_le_nat_alt unat_wlen)
  define f :: "nat \<Rightarrow> u64 gres" where
    "f j = (if j + 1 < length order then wsub oc (offset (ts ! (order ! (j + 1)))) (offset (ts ! (order ! j)))
       else and_then (wadd oc start (offset (ts ! (order ! j)))) (wsub oc (wlen data)))" for j
  have f: "f j = Val (sz j)" if "j < n" for j
    using that mono [of j] le [OF that] sum [OF that]
    by (simp add: f_def sz_def order_def wsub_exact off_def [symmetric, unfolded order_def])
  have "inj_on (\<lambda>j. order ! j) {..<n}"
    by (intro inj_on_nth) (simp_all add: order_def)
  then obtain sizes where s: "fold_out (\<lambda>j s. and_then (f j) (\<lambda>x. Val (s[order ! j := x]))) [0..<n] (replicate n 0) = Val sizes"
    "length sizes = n" "\<forall>j < n. sizes ! (order ! j) = sz j"
    using fold_out_scatter [of n f sz "\<lambda>j. order ! j" "replicate n 0"] f mem by auto
  have "compute_data_sizes oc ts start (wlen data) = Val sizes"
    using s(1) unfolding compute_data_sizes_def Let_def n_def [symmetric] order_def [symmetric] f_def
    by (simp add: order_def)
  note s = this s(2,3)
  have "unat start + unat (off j) + unat (sz j) =
      (if j + 1 < n then unat start + unat (off (j + 1)) else length data)" if "j < n" for j
    using that mono [of j] le [OF that] sum [OF that] v bound [OF that]
    by (auto simp: sz_def unat_sub_exact word_le_nat_alt unat_wlen)
  with s that show ?thesis by (auto simp: off_def)
qed

text \<open>Cut in the order of the offsets, the regions are the file from the first one on.\<close>

lemma regions_tile:
  assumes v: "valid_slice data" and inf: "in_file data start ts" and ne: "ts \<noteq> []"
    and sizes: "compute_data_sizes oc ts start (wlen data) = Val sizes"
  shows "concat (map (region data start ts sizes) (offset_order ts [0..<length ts])) =
    drop (unat start + unat (offset (ts ! hd (offset_order ts [0..<length ts])))) data"
proof -
  define n where "n = length ts"
  define order where "order = offset_order ts [0..<n]"
  define pos where "pos j = unat start + unat (offset (ts ! (order ! j)))" for j
  have step: "\<And>j. j < n \<Longrightarrow> pos j + unat (sizes ! (order ! j)) = (if j + 1 < n then pos (j + 1) else length data)"
    using compute_data_sizes_eq [OF v inf, of oc] sizes
    by (metis n_def order_def outcome.inject(1) pos_def)
  have "concat (map (region data start ts sizes) (drop j order)) = drop (pos j) data" if "j < n" for j
    using that
  proof (induction "n - j" arbitrary: j)
    case (Suc m)
    have reg: "region data start ts sizes (order ! j) = take (unat (sizes ! (order ! j))) (drop (pos j) data)"
      by (simp add: region_def pos_def)
    have split: "drop j order = order ! j # drop (Suc j) order"
      using Suc.prems by (simp add: Cons_nth_drop_Suc order_def)
    show ?case
    proof (cases "j + 1 < n")
      case True
      with Suc have "concat (map (region data start ts sizes) (drop (Suc j) order)) = drop (pos (Suc j)) data"
        by simp
      moreover have "drop (pos (Suc j)) data = drop (unat (sizes ! (order ! j))) (drop (pos j) data)"
        using step [OF Suc.prems] True by (simp add: drop_drop add.commute)
      ultimately show ?thesis
        by (simp only: split reg list.map concat.simps append_take_drop_id)
    next
      case False
      then have "drop (Suc j) order = []" by (simp add: order_def)
      moreover have "unat (sizes ! (order ! j)) = length data - pos j"
        using step [OF Suc.prems] False by simp
      ultimately show ?thesis by (simp add: split reg)
    qed
  qed simp
  from this [of 0] ne show ?thesis
    by (simp add: n_def [symmetric] order_def [symmetric] pos_def hd_conv_nth)
      (metis hd_conv_nth length_greater_0_conv length_offset_order length_upt n_def order_def minus_nat.diff_0)
qed

section \<open>Properties\<close>

text \<open>
  C23: The sizes that \<^verbatim>\<open>compute_data_sizes\<close> returns cut the file without gap or overlap:
  when every tensor starts inside the file, no subtraction underflows in either build, and
  the regions of all tensors, in the order of their offsets, are exactly the bytes of the
  file from the first region to the end.
\<close>
theorem sizes_tile_file:
  assumes "valid_slice data" and "in_file data start ts" and "ts \<noteq> []"
  shows "\<exists>sizes. compute_data_sizes oc ts start (wlen data) = Val sizes \<and> length sizes = length ts \<and>
    concat (map (region data start ts sizes) (offset_order ts [0..<length ts])) =
      drop (unat start + unat (offset (ts ! hd (offset_order ts [0..<length ts])))) data"
proof -
  obtain sizes where "compute_data_sizes oc ts start (wlen data) = Val sizes" "length sizes = length ts"
    using compute_data_sizes_eq [OF assms(1,2), of oc] by metis
  with regions_tile [OF assms] show ?thesis by blast
qed

theorem sizes_tile_file_witness:
  "\<exists>sizes. compute_data_sizes True demo_tensors 0 114 = Val sizes \<and> length sizes = 4 \<and>
    concat (map (region demo_body 0 demo_tensors sizes) [1, 0, 3, 2]) = demo_body"
proof -
  have "in_file demo_body 0 demo_tensors" "offset_order demo_tensors [0..<length demo_tensors] = [1, 0, 3, 2]"
    "length demo_tensors = 4" by code_simp+
  moreover have "valid_slice demo_body" "length demo_body = 114" by (simp_all add: valid_slice_def demo_body_def)
  moreover have "demo_tensors \<noteq> []" "offset (demo_tensors ! 1) = 0" by (simp_all add: demo_tensors_def)
  ultimately show ?thesis
    using sizes_tile_file [of demo_body 0 demo_tensors True] by simp
qed

text \<open>
  A tensor whose offset lies behind the end of the file makes the sizes wrong in the
  release build, where the last subtraction wraps around, and panics in a checked build.
\<close>
theorem sizes_wrap_behind_end:
  assumes "length data < unat start + unat off" and "unat start + unat off < 2 ^ 64" and "valid_slice data"
  shows "compute_data_sizes False [t\<lparr>offset := off\<rparr>] start (wlen data) = Val [wlen data - (start + off)] \<and>
    length data < unat (wlen data - (start + off)) \<and>
    compute_data_sizes True [t\<lparr>offset := off\<rparr>] start (wlen data) = Panic ArithOverflow"
proof -
  let ?e = "start + off"
  have e: "unat ?e = unat start + unat off" using assms(2) by (simp add: unat_add_exact)
  have lt: "wlen data < ?e" using assms e by (simp add: word_less_nat_alt unat_wlen)
  have "unat (wlen data - ?e) = 2 ^ 64 + unat (wlen data :: usize) - unat ?e"
    using lt by (subst unat_sub_if') (auto simp: word_le_nat_alt word_less_nat_alt)
  then have "length data < unat (wlen data - ?e)"
    using assms e unat_lt_64 [of ?e] by (simp add: unat_wlen)
  moreover have "wadd oc start off = (Val ?e :: usize gres)" for oc using assms(2) by (intro wadd_exact) simp
  ultimately show ?thesis
    using lt by (simp add: compute_data_sizes_def offset_order_def wsub_def)
qed

theorem sizes_wrap_behind_end_witness:
  "compute_data_sizes False [(hd demo_tensors)\<lparr>offset := 100\<rparr>] 64 (wlen demo_body) = Val [- 50]"
proof -
  have "valid_slice demo_body" "length demo_body = 114" by (simp_all add: valid_slice_def demo_body_def)
  then show ?thesis using sizes_wrap_behind_end [of demo_body 64 100 "hd demo_tensors"] by simp
qed

end
