(* ===== verification/Gguf_Write.thy ===== *)
theory Gguf_Write
  imports Gguf_Sizes
begin

text \<open>
  \<^verbatim>\<open>write_shard\<close>: the bytes of one shard file. The written file is shown to be an image in
  the format of \<open>Gguf_Tensors\<close>, with the tensors of the shard at new offsets; when the
  offsets of the source file are multiples of 32, the bytes at a new offset are the
  tensor's bytes of the source file.
\<close>

section \<open>The writer\<close>

text \<open>The loop that fills \<^verbatim>\<open>new_offsets\<close>; the state is the map and \<^verbatim>\<open>cur\<close>.\<close>

definition assign_offset ::
  "bool \<Rightarrow> u64 list \<Rightarrow> nat \<Rightarrow> (nat \<rightharpoonup> u64) \<times> u64 \<Rightarrow> ((nat \<rightharpoonup> u64) \<times> u64) gres" where
  "assign_offset oc data_sizes idx st =
     (case st of (new_offsets, cur) \<Rightarrow>
        and_then (nth_out data_sizes idx) (\<lambda>size.
        and_then (wadd oc cur size) (\<lambda>e.
        and_then (align_up oc e 32) (\<lambda>nxt. Val (new_offsets(idx \<mapsto> cur), nxt)))))"

definition tensor_info_bytes :: "tensor_info \<Rightarrow> u64 \<Rightarrow> bytes" where
  "tensor_info_bytes t new_off =
     u64_to_le (wlen (name t)) @ name t @ u32_to_le (n_dims t) @
     concat (map u64_to_le (dims t)) @ u32_to_le (ggml_type t) @ u64_to_le new_off"

definition info_step ::
  "tensor_info list \<Rightarrow> (nat \<rightharpoonup> u64) \<Rightarrow> nat \<Rightarrow> bytes \<Rightarrow> bytes gres" where
  "info_step all_tensors new_offsets idx out =
     and_then (nth_out all_tensors idx) (\<lambda>t.
     case new_offsets idx of
       None \<Rightarrow> Panic MissingKey
     | Some new_off \<Rightarrow> Val (out @ tensor_info_bytes t new_off))"

definition data_step ::
  "bool \<Rightarrow> tensor_info list \<Rightarrow> u64 list \<Rightarrow> bytes \<Rightarrow> usize \<Rightarrow> nat \<Rightarrow> bytes \<Rightarrow> bytes gres" where
  "data_step oc all_tensors data_sizes mmap original_start idx out =
     and_then (nth_out all_tensors idx) (\<lambda>t.
     and_then (wadd oc original_start (offset t)) (\<lambda>start.
     and_then (nth_out data_sizes idx) (\<lambda>size.
     if 0 < size then
       and_then (wadd oc start size) (\<lambda>e.
       and_then (subslice mmap start e) (\<lambda>bs. Val (out @ bs)))
     else Val out)))"

definition write_shard ::
  "bool \<Rightarrow> u32 \<Rightarrow> u64 \<Rightarrow> nat list \<Rightarrow> tensor_info list \<Rightarrow> u64 list \<Rightarrow> bytes \<Rightarrow> bytes \<Rightarrow> usize \<Rightarrow> bytes gres" where
  "write_shard oc ver metadata_kv_count tensor_indices all_tensors data_sizes raw_metadata mmap original_start =
     (if \<not> list_all (\<lambda>i. i < length all_tensors) tensor_indices then Panic IndexBounds
      else
        let order = offset_order all_tensors tensor_indices in
        and_then (fold_out (assign_offset oc data_sizes) order (Map.empty, 0)) (\<lambda>(new_offsets, _).
        let out = u32_to_le 0x46554747 @ u32_to_le ver @ u64_to_le (wlen tensor_indices) @
                  u64_to_le metadata_kv_count @ raw_metadata
        in
        and_then (fold_out (info_step all_tensors new_offsets) tensor_indices out) (\<lambda>out.
        let pos = wlen out in
        and_then (align_up oc pos 32) (\<lambda>new_data_start.
        and_then (wsub oc new_data_start pos) (\<lambda>pad.
        let out = (if 0 < pad then out @ replicate (unat pad) (CHR 0x00) else out) in
        fold_out (data_step oc all_tensors data_sizes mmap original_start) order out)))))"

section \<open>The offsets it assigns\<close>

text \<open>In exact arithmetic: each tensor starts at the end of the one before, rounded up.\<close>

fun layout :: "(nat \<Rightarrow> nat) \<Rightarrow> nat list \<Rightarrow> nat \<Rightarrow> (nat \<times> nat) list" where
  "layout sz [] cur = []"
| "layout sz (x # xs) cur = (x, cur) # layout sz xs (round32 (cur + sz x))"

definition shard_offset :: "tensor_info list \<Rightarrow> u64 list \<Rightarrow> nat list \<Rightarrow> nat \<Rightarrow> u64" where
  "shard_offset all sizes idxs i =
     word_of_nat (the (map_of (layout (\<lambda>i. unat (sizes ! i)) (offset_order all idxs) 0) i))"

lemma map_fst_layout [simp]: "map fst (layout sz xs cur) = xs"
  by (induction xs arbitrary: cur) auto

lemma length_layout [simp]: "length (layout sz xs cur) = length xs"
  by (metis length_map map_fst_layout)

lemma layout_bound:
  "(x, off) \<in> set (layout sz xs cur) \<Longrightarrow> cur \<le> off \<and> off \<le> cur + sum_list (map sz xs) + 32 * length xs"
proof (induction xs arbitrary: cur)
  case (Cons y ys)
  let ?r = "round32 (cur + sz y)"
  consider "off = cur" | "(x, off) \<in> set (layout sz ys ?r)" using Cons.prems by auto
  then show ?case
  proof cases
    case 2
    with Cons.IH have "?r \<le> off \<and> off \<le> ?r + sum_list (map sz ys) + 32 * length ys" by blast
    then show ?thesis
      using round32_ge [of "cur + sz y"] round32_less [of "cur + sz y"]
      by simp
  qed simp
qed simp

lemma layout_dvd: "32 dvd cur \<Longrightarrow> (x, off) \<in> set (layout sz xs cur) \<Longrightarrow> 32 dvd off"
proof (induction xs arbitrary: cur)
  case (Cons y ys)
  then show ?case using Cons.IH [of "round32 (cur + sz y)"] by auto
qed simp

lemma assign_offsets_eq:
  assumes "\<forall>x \<in> set xs. x < length sizes" and "distinct xs"
    and "cur + sum_list (map (\<lambda>i. unat (sizes ! i)) xs) + 32 * (length xs + 1) < 2 ^ 64"
  shows "\<exists>m' c. fold_out (assign_offset oc sizes) xs (m, word_of_nat cur) = Val (m', c) \<and>
    (\<forall>(x, off) \<in> set (layout (\<lambda>i. unat (sizes ! i)) xs cur). m' x = Some (word_of_nat off)) \<and>
    (\<forall>x. x \<notin> set xs \<longrightarrow> m' x = m x)"
  using assms
proof (induction xs arbitrary: cur m)
  case (Cons x xs)
  let ?s = "unat (sizes ! x)"
  have cur: "unat (word_of_nat cur :: u64) = cur" using Cons.prems(3) by simp
  have sum: "unat (word_of_nat cur + sizes ! x) = cur + ?s"
    "wadd oc (word_of_nat cur) (sizes ! x) = (Val (word_of_nat cur + sizes ! x) :: u64 gres)"
    using Cons.prems(3) unat_add_exact [of "word_of_nat cur" "sizes ! x"]
    by (auto simp: cur intro: wadd_exact)
  then have "align_up oc (word_of_nat cur + sizes ! x) 32 =
      (Val (word_of_nat (round32 (cur + ?s))) :: u64 gres)"
    using Cons.prems(3) by (simp add: align_up_32)
  with sum Cons.prems(1) have head: "assign_offset oc sizes x (m, word_of_nat cur) =
      Val (m(x \<mapsto> word_of_nat cur), word_of_nat (round32 (cur + ?s)))"
    by (simp add: assign_offset_def nth_out_def)
  have "round32 (cur + ?s) + sum_list (map (\<lambda>i. unat (sizes ! i)) xs) + 32 * (length xs + 1) < 2 ^ 64"
    using Cons.prems(3) round32_less [of "cur + ?s"] by simp
  moreover have tl: "\<forall>x \<in> set xs. x < length sizes" "distinct xs" using Cons.prems(1,2) by auto
  ultimately obtain m' c where IH:
    "fold_out (assign_offset oc sizes) xs (m(x \<mapsto> word_of_nat cur), word_of_nat (round32 (cur + ?s))) = Val (m', c)"
    "\<forall>(y, off) \<in> set (layout (\<lambda>i. unat (sizes ! i)) xs (round32 (cur + ?s))). m' y = Some (word_of_nat off)"
    "\<forall>y. y \<notin> set xs \<longrightarrow> m' y = (m(x \<mapsto> word_of_nat cur)) y"
    using Cons.IH [of "round32 (cur + ?s)" "m(x \<mapsto> word_of_nat cur)"] tl by blast
  then show ?case
    using Cons.prems(2) by (auto simp: head)
qed simp

lemma assign_offsets_shard:
  fixes all sizes idxs
  defines "order \<equiv> offset_order all idxs"
  assumes "\<forall>i \<in> set idxs. i < length sizes" and "distinct idxs"
    and "sum_list (map (\<lambda>i. unat (sizes ! i)) idxs) + 32 * (length idxs + 1) < 2 ^ 64"
  obtains m c where "fold_out (assign_offset oc sizes) order (Map.empty, 0) = Val (m, c)"
    and "\<And>i. i \<in> set idxs \<Longrightarrow> m i = Some (shard_offset all sizes idxs i)"
proof -
  have perm: "sum_list (map (\<lambda>i. unat (sizes ! i)) order) = sum_list (map (\<lambda>i. unat (sizes ! i)) idxs)"
    unfolding order_def by (metis mset_map mset_offset_order sum_mset_sum_list)
  obtain m c where m: "fold_out (assign_offset oc sizes) order (Map.empty, word_of_nat 0) = Val (m, c)"
    "\<forall>(x, off) \<in> set (layout (\<lambda>i. unat (sizes ! i)) order 0). m x = Some (word_of_nat off)"
    using assms perm assign_offsets_eq [of order sizes 0 oc Map.empty] by (auto simp: order_def)
  have "m i = Some (shard_offset all sizes idxs i)" if "i \<in> set idxs" for i
  proof -
    have "i \<in> fst ` set (layout (\<lambda>i. unat (sizes ! i)) order 0)"
      using that by (metis list.set_map map_fst_layout order_def set_offset_order)
    then obtain off where "map_of (layout (\<lambda>i. unat (sizes ! i)) order 0) i = Some off"
      using map_of_eq_None_iff [of "layout (\<lambda>i. unat (sizes ! i)) order 0" i] by auto
    with m(2) show ?thesis by (auto simp: shard_offset_def order_def dest: map_of_SomeD)
  qed
  with m(1) that show ?thesis by simp
qed

section \<open>The file it writes\<close>

text \<open>
  What the writer needs: the chosen tensors exist once each, their regions lie in the
  source file, and the sums of sizes and of the parts of the new file fit in 63 bits.
\<close>

definition room :: "bytes \<Rightarrow> tensor_info list \<Rightarrow> u64 list \<Rightarrow> nat list \<Rightarrow> bool" where
  "room meta all sizes idxs \<longleftrightarrow>
     24 + length meta + sum_list (map (\<lambda>i. length (enc_tensor (all ! i))) idxs) +
     sum_list (map (\<lambda>i. unat (sizes ! i)) idxs) + 32 * (length idxs + 2) < 2 ^ 63"

definition shard_tensors :: "tensor_info list \<Rightarrow> u64 list \<Rightarrow> nat list \<Rightarrow> tensor_info list" where
  "shard_tensors all sizes idxs = map (\<lambda>i. (all ! i)\<lparr>offset := shard_offset all sizes idxs i\<rparr>) idxs"

definition shard_body :: "bytes \<Rightarrow> usize \<Rightarrow> tensor_info list \<Rightarrow> u64 list \<Rightarrow> nat list \<Rightarrow> bytes" where
  "shard_body data start all sizes idxs =
     concat (map (region data start all sizes) (offset_order all idxs))"

definition regions_in :: "bytes \<Rightarrow> usize \<Rightarrow> tensor_info list \<Rightarrow> u64 list \<Rightarrow> bool" where
  "regions_in data start all sizes \<longleftrightarrow>
     length sizes = length all \<and>
     (\<forall>i < length all. unat start + unat (offset (all ! i)) + unat (sizes ! i) \<le> length data)"

lemma enc_tensor_offset: "enc_tensor (t\<lparr>offset := off\<rparr>) = tensor_info_bytes t off"
  by (simp add: enc_tensor_def tensor_info_bytes_def)

lemma length_enc_tensor_offset [simp]: "length (enc_tensor (t\<lparr>offset := off\<rparr>)) = length (enc_tensor t)"
  by (simp add: enc_tensor_def)

lemma fold_out_append_bytes:
  assumes "\<And>x out. x \<in> set xs \<Longrightarrow> f x out = Val (out @ g x)"
  shows "fold_out f xs out = Val (out @ concat (map g xs))"
  using assms by (rule fold_out_collect)

lemma data_step_region:
  assumes v: "valid_slice data" and r: "regions_in data start all sizes" and i: "i < length all"
  shows "data_step oc all sizes data start i out = Val (out @ region data start all sizes i)"
proof -
  let ?o = "offset (all ! i)" and ?s = "sizes ! i"
  have b: "unat start + unat ?o + unat ?s \<le> length data" "length sizes = length all"
    using r i by (auto simp: regions_in_def)
  with v have start: "unat (start + ?o) = unat start + unat ?o"
    "wadd oc start ?o = (Val (start + ?o) :: usize gres)"
    using unat_add_exact [of start ?o] by (auto simp: valid_slice_def intro: wadd_exact)
  with v b have e: "unat (start + ?o + ?s) = unat start + unat ?o + unat ?s"
    "wadd oc (start + ?o) ?s = (Val (start + ?o + ?s) :: usize gres)"
    using unat_add_exact [of "start + ?o" ?s] by (auto simp: valid_slice_def intro: wadd_exact)
  have "subslice data (start + ?o) (start + ?o + ?s) = (Val (region data start all sizes i) :: bytes gres)"
    using b start e by (simp add: subslice_def region_def word_le_nat_alt)
  moreover have "region data start all sizes i = []" if "\<not> 0 < ?s"
    using that by (simp add: region_def word_gt_0)
  ultimately show ?thesis
    using i b by (auto simp: data_step_def nth_out_def start e)
qed

lemma write_shard_image:
  assumes v: "valid_slice data" and r: "regions_in data start all sizes"
    and is_ok: "\<forall>i \<in> set idxs. i < length all" and d: "distinct idxs"
    and room: "room meta all sizes idxs"
  shows "write_shard oc ver kvc idxs all sizes meta data start =
    Val (gguf_image ver kvc meta (shard_tensors all sizes idxs) (shard_body data start all sizes idxs))"
proof -
  let ?order = "offset_order all idxs"
  define new where "new = shard_offset all sizes idxs"
  obtain m c where m: "fold_out (assign_offset oc sizes) ?order (Map.empty, 0) = Val (m, c)"
    "\<And>i. i \<in> set idxs \<Longrightarrow> m i = Some (new i)"
    using assign_offsets_shard [where all = all and sizes = sizes and oc = oc and idxs = idxs] is_ok d room r
    by (auto simp: room_def regions_in_def new_def)
  define head where "head = u32_to_le 0x46554747 @ u32_to_le ver @ u64_to_le (wlen idxs) @ u64_to_le kvc @ meta"
  define front where "front = gguf_front ver kvc meta (shard_tensors all sizes idxs)"
  have "fold_out (info_step all m) idxs head =
      (Val (head @ concat (map (\<lambda>i. tensor_info_bytes (all ! i) (new i)) idxs)) :: bytes gres)"
    using is_ok m(2) by (intro fold_out_append_bytes) (auto simp: info_step_def nth_out_def)
  also have "head @ concat (map (\<lambda>i. tensor_info_bytes (all ! i) (new i)) idxs) = front"
    by (simp add: front_def gguf_front_def gguf_header_def head_def shard_tensors_def new_def
        enc_tensor_offset o_def)
  finally have infos: "fold_out (info_step all m) idxs head = (Val front :: bytes gres)" .
  have "length front = 24 + length meta + sum_list (map (\<lambda>i. length (enc_tensor (all ! i))) idxs)"
    by (simp add: front_def gguf_front_def shard_tensors_def length_concat o_def)
  then have f63: "length front + 32 < 2 ^ 63" using room by (simp add: room_def)
  then have ulen: "unat (wlen front) = length front" by simp
  have r63: "round32 (length front) < 2 ^ 63" using f63 round32_less [of "length front"] by simp
  then have uround: "unat (word_of_nat (round32 (length front)) :: usize) = round32 (length front)" by simp
  have al: "align_up oc (wlen front) 32 = (Val (word_of_nat (round32 (length front))) :: usize gres)"
    using f63 ulen by (simp add: align_up_32)
  have le: "wlen front \<le> (word_of_nat (round32 (length front)) :: usize)"
    using ulen uround round32_ge by (simp add: word_le_nat_alt)
  define pad where "pad = (word_of_nat (round32 (length front)) :: usize) - wlen front"
  have pad: "wsub oc (word_of_nat (round32 (length front))) (wlen front) = (Val pad :: usize gres)"
    "unat pad = round32 (length front) - length front"
    using wsub_exact [OF le] unat_sub_exact [OF le] ulen uround by (auto simp: pad_def)
  have padded: "(if 0 < pad then front @ replicate (unat pad) (CHR 0x00) else front) = front @ pad32 (length front)"
    using pad(2) by (auto simp: pad32_def word_gt_0 unat_eq_zero)
  have data: "fold_out (data_step oc all sizes data start) ?order (front @ pad32 (length front)) =
      Val ((front @ pad32 (length front)) @ shard_body data start all sizes idxs)"
    unfolding shard_body_def using data_step_region [OF v r] is_ok
    by (intro fold_out_append_bytes) auto
  show ?thesis
    using is_ok
    by (simp add: write_shard_def Let_def list_all_iff m(1) infos [unfolded head_def] al pad(1) padded data
        gguf_image_def front_def [symmetric])
qed

section \<open>Where the data lies in the written file\<close>

text \<open>Every size but the ones before empty regions is a multiple of 32.\<close>

fun padded :: "nat list \<Rightarrow> bool" where
  "padded [] = True"
| "padded (s # ss) = ((32 dvd s \<or> (\<forall>x \<in> set ss. x = 0)) \<and> padded ss)"

lemma layout_data:
  assumes "\<forall>x \<in> set xs. length (r x) = sz x" and "padded (map sz xs)"
    and "32 dvd length pre" and "(x, off) \<in> set (layout sz xs (length pre))"
  shows "take (sz x) (drop off (pre @ concat (map r xs))) = r x"
  using assms
proof (induction xs arbitrary: pre)
  case (Cons y ys)
  show ?case
  proof (cases "(x, off) = (y, length pre)")
    case True
    with Cons.prems(1) show ?thesis by simp
  next
    case False
    with Cons.prems(4) have mem: "(x, off) \<in> set (layout sz ys (round32 (length pre + sz y)))" by auto
    then have x: "x \<in> set ys" by (metis fst_conv image_eqI list.set_map map_fst_layout)
    show ?thesis
    proof (cases "32 dvd sz y")
      case True
      then have "round32 (length pre + sz y) = length (pre @ r y)"
        using Cons.prems(1,3) by (simp add: round32_mult)
      with mem True Cons.IH [of "pre @ r y"] Cons.prems show ?thesis by simp
    next
      case False
      with Cons.prems(2) x have "sz x = 0" by auto
      moreover from this Cons.prems(1) x have "r x = []" by (metis length_0_conv list.set_intros(2))
      ultimately show ?thesis by simp
    qed
  qed
qed simp

definition offsets_aligned :: "tensor_info list \<Rightarrow> bool" where
  "offsets_aligned ts \<longleftrightarrow> (\<forall>t \<in> set ts. 32 dvd unat (offset t))"

text \<open>
  In a file whose offsets are multiples of 32, only the last region of the file may have a
  size that is not, and the regions that start where it starts are empty.
\<close>

lemma sizes_of_aligned:
  assumes v: "valid_slice data" and inf: "in_file data start ts" and al: "offsets_aligned ts"
    and sizes: "compute_data_sizes oc ts start (wlen data) = Val sizes"
    and i: "i < length ts" and j: "j < length ts" and "i \<noteq> j"
    and le: "offset (ts ! i) \<le> offset (ts ! j)"
  shows "32 dvd unat (sizes ! i) \<or> unat (sizes ! j) = 0"
proof -
  define n where "n = length ts"
  define order where "order = offset_order ts [0..<n]"
  define off where "off k = unat (offset (ts ! (order ! k)))" for k
  have gap: "unat start + off k + unat (sizes ! (order ! k)) =
      (if k + 1 < n then unat start + off (k + 1) else length data)" if "k < n" for k
    using compute_data_sizes_eq [OF v inf, of oc] sizes that
    by (metis n_def off_def order_def outcome.inject(1))
  have set: "set order = {..<n}" by (auto simp: order_def)
  then obtain a b where ab: "a < n" "order ! a = i" "b < n" "order ! b = j"
    using i j by (metis in_set_conv_nth length_offset_order length_upt lessThan_iff minus_nat.diff_0 n_def order_def)
  have dvd: "32 dvd off k" if "k < n" for k
    using al that set nth_mem [of k order]
    by (auto simp: offsets_aligned_def off_def order_def n_def)
  show ?thesis
  proof (cases "a + 1 < n")
    case True
    then have "off a + unat (sizes ! i) = off (a + 1)" using gap [OF ab(1)] ab(2) by simp
    with dvd [OF ab(1)] dvd [OF True] show ?thesis by (metis dvd_add_right_iff)
  next
    case False
    with ab \<open>i \<noteq> j\<close> have "b < a" by (metis Suc_eq_plus1 linorder_neqE_nat less_antisym not_less_eq)
    then have b1: "b + 1 < n" "b + 1 \<le> a" using ab by auto
    have mono: "off k \<le> off l" if "k \<le> l" "l < n" for k l
      using offset_order_mono [of k l "[0..<n]" ts] that
      by (simp add: off_def order_def word_le_nat_alt)
    have "off a \<le> off b" using le ab by (simp add: off_def word_le_nat_alt)
    with mono [OF b1(2) ab(1)] mono [of b "b + 1"] b1 have "off b = off (b + 1)" by simp
    with gap [OF ab(3)] b1 ab(4) show ?thesis by simp
  qed
qed

lemma offset_order_padded:
  assumes v: "valid_slice data" and inf: "in_file data start ts" and al: "offsets_aligned ts"
    and sizes: "compute_data_sizes oc ts start (wlen data) = Val sizes"
    and "distinct idxs" and "\<forall>i \<in> set idxs. i < length ts"
  shows "padded (map (\<lambda>i. unat (sizes ! i)) (offset_order ts idxs))"
proof -
  have "padded (map (\<lambda>i. unat (sizes ! i)) xs)"
    if "distinct xs" "\<forall>i \<in> set xs. i < length ts" "sorted (map (\<lambda>i. offset (ts ! i)) xs)" for xs
    using that
  proof (induction xs)
    case (Cons x xs)
    have "32 dvd unat (sizes ! x) \<or> unat (sizes ! y) = 0" if "y \<in> set xs" for y
      using Cons.prems that by (intro sizes_of_aligned [OF v inf al sizes]) auto
    with Cons show ?case by auto
  qed simp
  then show ?thesis using assms(5,6) by (simp add: sorted_offset_order)
qed

text \<open>The sizes of all tensors, taken together, do not exceed the file.\<close>

lemma regions_in_file:
  assumes v: "valid_slice data" and inf: "in_file data start ts"
    and sizes: "compute_data_sizes oc ts start (wlen data) = Val sizes"
  shows "regions_in data start ts sizes"
proof -
  define n where "n = length ts"
  define order where "order = offset_order ts [0..<n]"
  obtain sizes' where s: "compute_data_sizes oc ts start (wlen data) = Val sizes'" "length sizes' = n"
    "\<And>j. j < n \<Longrightarrow> unat start + unat (offset (ts ! (order ! j))) + unat (sizes' ! (order ! j)) =
       (if j + 1 < n then unat start + unat (offset (ts ! (order ! (j + 1)))) else length data)"
    using compute_data_sizes_eq [OF v inf, of oc] unfolding n_def order_def by metis
  have "unat start + unat (offset (ts ! i)) + unat (sizes ! i) \<le> length data" if "i < n" for i
  proof -
    have "i \<in> set order" using that by (simp add: order_def)
    then obtain j where j: "j < n" "order ! j = i"
      by (metis in_set_conv_nth length_offset_order length_upt minus_nat.diff_0 order_def)
    have "order ! (j + 1) < n" if "j + 1 < n"
      using that nth_mem [of "j + 1" order] by (simp add: order_def)
    then show ?thesis using s(1) s(3) [OF j(1)] j(2) sizes inf by (auto simp: in_file_def n_def)
  qed
  with s(1,2) sizes show ?thesis by (simp add: regions_in_def n_def)
qed

lemma shard_data:
  assumes v: "valid_slice data" and inf: "in_file data start ts" and al: "offsets_aligned ts"
    and sizes: "compute_data_sizes oc ts start (wlen data) = Val sizes"
    and d: "distinct idxs" and idx: "\<forall>i \<in> set idxs. i < length ts"
    and room: "room meta ts sizes idxs" and i: "i \<in> set idxs"
  shows "take (unat (sizes ! i)) (drop (unat (shard_offset ts sizes idxs i)) (shard_body data start ts sizes idxs)) =
      region data start ts sizes i"
    and "32 dvd unat (shard_offset ts sizes idxs i)"
proof -
  let ?sz = "\<lambda>i. unat (sizes ! i)" and ?order = "offset_order ts idxs"
  have "i \<in> fst ` set (layout ?sz ?order 0)"
    using i by (metis list.set_map map_fst_layout set_offset_order)
  then obtain off where off: "map_of (layout ?sz ?order 0) i = Some off"
    using map_of_eq_None_iff [of "layout ?sz ?order 0" i] by auto
  then have mem: "(i, off) \<in> set (layout ?sz ?order 0)" by (rule map_of_SomeD)
  have "sum_list (map ?sz ?order) = sum_list (map ?sz idxs)"
    by (metis mset_map mset_offset_order sum_mset_sum_list)
  then have "off < 2 ^ 64"
    using layout_bound [OF mem] room by (simp add: room_def)
  with off have so: "unat (shard_offset ts sizes idxs i) = off" by (simp add: shard_offset_def)
  have reg: "\<forall>x \<in> set ?order. length (region data start ts sizes x) = ?sz x"
    using regions_in_file [OF v inf sizes] idx by (auto simp: regions_in_def region_def)
  show "take (?sz i) (drop (unat (shard_offset ts sizes idxs i)) (shard_body data start ts sizes idxs)) =
      region data start ts sizes i"
    using layout_data [of ?order "region data start ts sizes" ?sz "[]" i off]
      offset_order_padded [OF v inf al sizes d idx] reg mem so
    by (simp add: shard_body_def)
  show "32 dvd unat (shard_offset ts sizes idxs i)"
    using layout_dvd [OF _ mem] so by simp
qed

section \<open>Offsets and positions of the data\<close>

lemma layout_nth:
  "32 dvd cur \<Longrightarrow> j < length xs \<Longrightarrow>
     layout sz xs cur ! j = (xs ! j, cur + sum_list (map (\<lambda>i. round32 (sz i)) (take j xs)))"
  by (induction xs arbitrary: j cur) (auto simp: nth_Cons round32_add split: nat.split)

lemma concat_nth:
  "j < length xs \<Longrightarrow>
     take (length (r (xs ! j))) (drop (sum_list (map (\<lambda>i. length (r i)) (take j xs))) (concat (map r xs))) = r (xs ! j)"
  by (induction xs arbitrary: j) (auto simp: nth_Cons split: nat.split)

lemma round32_eq_iff: "round32 n = n \<longleftrightarrow> 32 dvd n"
  using round32_mult [of n] round32_dvd [of n] by metis

lemma sum_round32:
  "sum_list (map sz xs) \<le> sum_list (map (\<lambda>i. round32 (sz i)) xs) \<and>
   (sum_list (map (\<lambda>i. round32 (sz i)) xs) = sum_list (map sz xs) \<longleftrightarrow> (\<forall>i \<in> set xs. 32 dvd sz i))"
proof (induction xs)
  case (Cons x xs)
  then show ?case using round32_ge [of "sz x"] round32_eq_iff [of "sz x"] by auto
qed simp

lemma shard_offset_nth:
  assumes "regions_in data start all sizes" and "\<forall>i \<in> set idxs. i < length all" and "distinct idxs"
    and "room meta all sizes idxs" and "j < length idxs"
  shows "unat (shard_offset all sizes idxs (offset_order all idxs ! j)) =
    sum_list (map (\<lambda>i. round32 (unat (sizes ! i))) (take j (offset_order all idxs)))"
proof -
  let ?sz = "\<lambda>i. unat (sizes ! i)" and ?order = "offset_order all idxs"
  let ?off = "sum_list (map (\<lambda>i. round32 (?sz i)) (take j ?order))"
  have n: "layout ?sz ?order 0 ! j = (?order ! j, ?off)" using layout_nth [of 0 j ?order ?sz] assms(5) by simp
  then have mem: "(?order ! j, ?off) \<in> set (layout ?sz ?order 0)"
    using nth_mem [of j "layout ?sz ?order 0"] assms(5) by simp
  then have "map_of (layout ?sz ?order 0) (?order ! j) = Some ?off"
    using assms(3) by (intro map_of_is_SomeI) simp_all
  moreover have "sum_list (map ?sz ?order) = sum_list (map ?sz idxs)"
    by (metis mset_map mset_offset_order sum_mset_sum_list)
  then have "?off < 2 ^ 64" using layout_bound [OF mem] assms(4) by (simp add: room_def)
  ultimately show ?thesis by (simp add: shard_offset_def)
qed

lemma shard_body_nth:
  assumes "regions_in data start all sizes" and "\<forall>i \<in> set idxs. i < length all" and "j < length idxs"
  shows "take (unat (sizes ! (offset_order all idxs ! j)))
      (drop (sum_list (map (\<lambda>i. unat (sizes ! i)) (take j (offset_order all idxs)))) (shard_body data start all sizes idxs)) =
    region data start all sizes (offset_order all idxs ! j)"
proof -
  have l: "length (region data start all sizes i) = unat (sizes ! i)" if "i \<in> set (offset_order all idxs)" for i
    using assms(1,2) that by (auto simp: regions_in_def region_def)
  have "map (\<lambda>i. length (region data start all sizes i)) (take j (offset_order all idxs)) =
      map (\<lambda>i. unat (sizes ! i)) (take j (offset_order all idxs))"
    using l by (auto dest: in_set_takeD)
  moreover have "offset_order all idxs ! j \<in> set (offset_order all idxs)" using assms(3) by (intro nth_mem) simp
  ultimately show ?thesis
    using concat_nth [of j "offset_order all idxs" "region data start all sizes"] l assms(3)
    by (simp add: shard_body_def del: map_eq_conv)
qed

section \<open>Properties\<close>

lemma demo_sizes: "compute_data_sizes oc demo_tensors 0 (wlen demo_body) = Val [32, 32, 18, 32]"
proof -
  have o: "offset_order demo_tensors [0, 1, 2, 3] = [1, 0, 3, 2]" by code_simp
  have l: "[0..<4] = [0, 1, 2, 3::nat]" by (simp add: upt_conv_Cons)
  have t: "length demo_tensors = 4" "offset (demo_tensors ! 0) = 32" "offset (demo_tensors ! 1) = 0"
    "offset (demo_tensors ! 2) = 96" "offset (demo_tensors ! 3) = 64" "length demo_body = 114"
    by (simp_all add: demo_tensors_def demo_body_def)
  show ?thesis by (simp add: compute_data_sizes_def Let_def t [simplified] o [simplified] l [simplified] wsub_def wadd_def)
      (simp add: numeral_eq_Suc)
qed

text \<open>
  C16: \<^verbatim>\<open>write_shard\<close> neither fails nor panics, in either build profile, when the chosen
  tensors exist once each, their data lie in the source and the sums fit in 63 bits; what it
  writes is a file in the GGUF format with the source's version and metadata bytes, the
  chosen tensors at their new offsets, and their data in file order.
\<close>
theorem shard_is_gguf:
  assumes "valid_slice data" and "regions_in data start all sizes"
    and "\<forall>i \<in> set idxs. i < length all" and "distinct idxs" and "room meta all sizes idxs"
  shows "write_shard oc ver kvc idxs all sizes meta data start =
    Val (gguf_image ver kvc meta (shard_tensors all sizes idxs) (shard_body data start all sizes idxs))"
  using assms by (rule write_shard_image)

theorem shard_is_gguf_witness:
  "write_shard True 3 0 [2, 0] demo_tensors [32, 32, 18, 32] [] demo_body 0 =
    Val (gguf_image 3 0 [] [(demo_tensors ! 2)\<lparr>offset := 32\<rparr>, (demo_tensors ! 0)\<lparr>offset := 0\<rparr>]
      (take 32 (drop 32 demo_body) @ drop 96 demo_body))"
proof -
  have t: "length demo_tensors = 4" "length demo_body = 114" "offset (demo_tensors ! 0) = 32"
    "offset (demo_tensors ! 1) = 0" "offset (demo_tensors ! 2) = 96" "offset (demo_tensors ! 3) = 64"
    by (simp_all add: demo_tensors_def demo_body_def)
  have "valid_slice demo_body" "in_file demo_body 0 demo_tensors"
    by (simp_all add: valid_slice_def in_file_def demo_tensors_def demo_body_def)
  from regions_in_file [OF this demo_sizes] have "regions_in demo_body 0 demo_tensors [32, 32, 18, 32]" .
  moreover have "room [] demo_tensors [32, 32, 18, 32] [2, 0]"
    by (simp add: room_def enc_tensor_def demo_tensors_def)
  moreover have o: "offset_order demo_tensors [2, 0] = [0, 2]" by code_simp
  then have "shard_tensors demo_tensors [32, 32, 18, 32] [2, 0] =
      [(demo_tensors ! 2)\<lparr>offset := 32\<rparr>, (demo_tensors ! 0)\<lparr>offset := 0\<rparr>]"
    by (simp add: shard_tensors_def shard_offset_def round32_def)
  moreover have "shard_body demo_body 0 demo_tensors [32, 32, 18, 32] [2, 0] =
      take 32 (drop 32 demo_body) @ drop 96 demo_body"
    by (simp add: shard_body_def o region_def t)
  ultimately show ?thesis
    using shard_is_gguf [of demo_body 0 demo_tensors "[32, 32, 18, 32]" "[2, 0]" "[]" True 3 0]
    by (simp add: valid_slice_def t)
qed

text \<open>
  C32: Where the writer puts the data and where it says it is, for any source: the data of the
  \<open>j\<close>-th tensor in file order stand at the sum of the sizes before it, but the offset declared
  for it is the sum of those sizes each rounded up to 32. The offset is never smaller, and it is
  right if and only if all sizes before are multiples of 32. The writer does not check that:
  behind a tensor of another size every offset in the shard is wrong.
\<close>
theorem offsets_right_iff_aligned:
  assumes "valid_slice data" and "regions_in data start all sizes"
    and "\<forall>i \<in> set idxs. i < length all" and "distinct idxs" and "room meta all sizes idxs" and "j < length idxs"
  shows "write_shard oc ver kvc idxs all sizes meta data start =
      Val (gguf_image ver kvc meta (map (\<lambda>i. (all ! i)\<lparr>offset := shard_offset all sizes idxs i\<rparr>) idxs)
        (shard_body data start all sizes idxs)) \<and>
    (let order = offset_order all idxs; sz = (\<lambda>i. unat (sizes ! i));
         pos = sum_list (map sz (take j order)); declared = unat (shard_offset all sizes idxs (order ! j))
     in take (sz (order ! j)) (drop pos (shard_body data start all sizes idxs)) = region data start all sizes (order ! j) \<and>
       declared = sum_list (map (\<lambda>i. (sz i + 31) div 32 * 32) (take j order)) \<and>
       pos \<le> declared \<and> (declared = pos \<longleftrightarrow> (\<forall>i \<in> set (take j order). 32 dvd sz i)))"
  using write_shard_image [OF assms(1-5), of oc ver kvc] shard_offset_nth [OF assms(2-6)] shard_body_nth [OF assms(2,3,6)]
    sum_round32 [of "\<lambda>i. unat (sizes ! i)" "take j (offset_order all idxs)"]
  by (simp add: Let_def shard_tensors_def round32_def)

text \<open>
  Two tensors of 40 and 200 bytes at the offsets 0 and 40, as \<^verbatim>\<open>general.alignment\<close> 8 allows:
  the second is declared at 64 and stands at 40.
\<close>

theorem offsets_right_iff_aligned_witness:
  "let ts = [layer_tensor ''blk.0.w'', (layer_tensor ''blk.1.w'')\<lparr>offset := 40\<rparr>];
       data = replicate 40 CHR ''x'' @ replicate 200 CHR ''y''
   in unat (shard_offset ts [40, 200] [0, 1] 1) = 64 \<and>
     take 200 (drop 40 (shard_body data 0 ts [40, 200] [0, 1])) = replicate 200 CHR ''y''"
proof -
  let ?ts = "[layer_tensor ''blk.0.w'', (layer_tensor ''blk.1.w'')\<lparr>offset := 40\<rparr>]"
  let ?data = "replicate 40 CHR ''x'' @ replicate 200 CHR ''y''"
  have t: "regions_in ?data 0 ?ts [40, 200]" "room [] ?ts [40, 200] [0, 1]"
    by (auto simp: regions_in_def room_def enc_tensor_def layer_tensor_def less_Suc_eq)
  have o: "offset_order ?ts [0, 1] = [0, 1]" by (simp add: offset_order_def layer_tensor_def)
  have r: "region ?data 0 ?ts [40, 200] 1 = replicate 200 CHR ''y''"
    by (simp add: region_def layer_tensor_def)
  show ?thesis
    using offsets_right_iff_aligned [OF _ t(1) _ _ t(2), of 1 True 3 0] r
    unfolding o Let_def by (simp add: valid_slice_def)
qed

end
