(* ===== verification/Gguf_File.thy ===== *)
theory Gguf_File
  imports Gguf_Write
begin

text \<open>
  \<^verbatim>\<open>write_shard\<close> as it acts on its file: a sequence of writes, any of which can fail when
  the disk is full, with every error and panic in between leaving what was written so far.
  The specification is \<open>write_shard\<close> of \<open>Gguf_Write\<close>: its bytes are in the file, or as many
  of them as fit.
\<close>

section \<open>Writing to a file\<close>

text \<open>
  A file is the bytes written so far, with the position at its end; \<open>space\<close> is the number of
  bytes it can take, \<^const>\<open>None\<close> if there is no limit. \<^verbatim>\<open>write_all\<close> writes what fits
  before it fails.
\<close>

type_synonym space = "nat option"

definition fits :: "space \<Rightarrow> bytes \<Rightarrow> bool" where
  "fits space bs = (case space of None \<Rightarrow> True | Some n \<Rightarrow> length bs \<le> n)"

definition write_all :: "space \<Rightarrow> bytes \<Rightarrow> bytes \<Rightarrow> bytes \<times> unit gres" where
  "write_all space bs file =
     (if fits space (file @ bs) then (file @ bs, Val ())
      else (take (the space) (file @ bs), Fail WriteError))"

text \<open>The \<^verbatim>\<open>?\<close> after a write, and a loop of writes.\<close>

definition io_then :: "bytes \<times> unit gres \<Rightarrow> (bytes \<Rightarrow> bytes \<times> unit gres) \<Rightarrow> bytes \<times> unit gres" where
  "io_then r k = (case r of (file, m) \<Rightarrow> in_state file m (\<lambda>_. k file))"

fun write_each ::
  "space \<Rightarrow> ('a \<Rightarrow> bytes \<Rightarrow> bytes gres) \<Rightarrow> 'a list \<Rightarrow> bytes \<Rightarrow> bytes \<times> unit gres" where
  "write_each space f [] file = (file, Val ())"
| "write_each space f (x # xs) file =
     io_then (in_state file (f x []) (\<lambda>bs. write_all space bs file)) (write_each space f xs)"

lemma io_then_Val [simp]: "io_then (file, Val ()) k = k file"
  by (simp add: io_then_def)

lemma fits_prefix: "fits space (a @ b) \<Longrightarrow> fits space a"
  by (auto simp: fits_def split: option.splits)

lemma write_all_Nil [simp]: "fits space file \<Longrightarrow> write_all space [] file = (file, Val ())"
  by (simp add: write_all_def)

text \<open>Writes in a row are one write of all the bytes: the same bytes fit, the same error.\<close>

lemma io_then_write:
  assumes "fits space (file @ a) \<Longrightarrow> k (file @ a) = write_all space b (file @ a)"
  shows "io_then (write_all space a file) k = write_all space (a @ b) file"
proof (cases "fits space (file @ a)")
  case False
  then obtain n where "space = Some n" "n < length (file @ a)" by (auto simp: fits_def split: option.splits)
  then show ?thesis by (simp add: write_all_def fits_def io_then_def)
next
  case True
  then have "io_then (write_all space a file) k = k (file @ a)" by (simp add: write_all_def)
  with assms [OF True] show ?thesis by (simp add: write_all_def)
qed

lemma write_all_append:
  "io_then (write_all space a file) (write_all space b) = write_all space (a @ b) file"
  by (rule io_then_write) simp

section \<open>The writer\<close>

text \<open>
  The steps are those of \<open>write_shard\<close>: what they append to an empty string is written. The
  writes of the header and of one tensor info are taken together (\<open>write_all_append\<close>).
\<close>

definition write_shard_to ::
  "space \<Rightarrow> bool \<Rightarrow> u32 \<Rightarrow> u64 \<Rightarrow> nat list \<Rightarrow> tensor_info list \<Rightarrow> u64 list \<Rightarrow> bytes \<Rightarrow> bytes \<Rightarrow> usize \<Rightarrow>
   bytes \<times> unit gres" where
  "write_shard_to space oc ver metadata_kv_count tensor_indices all_tensors data_sizes raw_metadata mmap original_start =
     (if \<not> list_all (\<lambda>i. i < length all_tensors) tensor_indices then ([], Panic IndexBounds)
      else
        let order = offset_order all_tensors tensor_indices in
        in_state [] (fold_out (assign_offset oc data_sizes) order (Map.empty, 0)) (\<lambda>(new_offsets, _).
        io_then (write_all space (u32_to_le 0x46554747 @ u32_to_le ver @ u64_to_le (wlen tensor_indices) @
                  u64_to_le metadata_kv_count) []) (\<lambda>out.
        io_then (write_all space raw_metadata out) (\<lambda>out.
        io_then (write_each space (info_step all_tensors new_offsets) tensor_indices out) (\<lambda>out.
        let pos = wlen out in
        in_state out (align_up oc pos 32) (\<lambda>new_data_start.
        in_state out (wsub oc new_data_start pos) (\<lambda>pad.
        io_then (if 0 < pad then write_all space (replicate (unat pad) (CHR 0x00)) out else (out, Val ()))
          (write_each space (data_step oc all_tensors data_sizes mmap original_start) order))))))))"

section \<open>Refinement\<close>

text \<open>A step appends bytes that do not depend on what is there.\<close>

definition appends :: "('a \<Rightarrow> bytes \<Rightarrow> bytes gres) \<Rightarrow> bool" where
  "appends f \<longleftrightarrow> (\<forall>x out. f x out = and_then (f x []) (\<lambda>bs. Val (out @ bs)))"

lemma appends_info_step: "appends (info_step all m)"
  by (auto simp: appends_def info_step_def and_then_assoc split: option.split intro!: and_then_cong)

lemma appends_data_step: "appends (data_step oc all sizes data start)"
  by (auto simp: appends_def data_step_def and_then_assoc intro!: and_then_cong)

lemma fold_out_extends:
  assumes "appends f" and "fold_out f xs w = Val out"
  shows "\<exists>bs. out = w @ bs"
  using assms(2)
proof (induction xs arbitrary: w)
  case (Cons x xs)
  from Cons.prems obtain file1 where f: "f x w = Val file1" "fold_out f xs file1 = Val out"
    by (auto simp: and_then_eq_Val)
  have "f x w = and_then (f x []) (\<lambda>bs. Val (w @ bs))" using assms(1) unfolding appends_def by blast
  with f(1) obtain b where "file1 = w @ b" by (auto simp: and_then_eq_Val)
  with Cons.IH [OF f(2)] show ?case by auto
qed simp

lemma write_each_eq:
  assumes "appends f" and "fold_out f xs w = Val out" and "fits space w"
  shows "\<exists>bs. out = w @ bs \<and> write_each space f xs w = write_all space bs w"
  using assms(2,3)
proof (induction xs arbitrary: w)
  case (Cons x xs)
  have "f x w = and_then (f x []) (\<lambda>bs. Val (w @ bs))" using assms(1) unfolding appends_def by blast
  with Cons.prems(1) obtain b where b: "f x [] = Val b" "fold_out f xs (w @ b) = Val out"
    by (auto simp: and_then_eq_Val)
  obtain bs where bs: "out = (w @ b) @ bs" using fold_out_extends [OF assms(1) b(2)] by blast
  have "write_each space f xs (w @ b) = write_all space bs (w @ b)" if "fits space (w @ b)"
    using Cons.IH [OF b(2) that] bs by auto
  then have "write_each space f (x # xs) w = write_all space (b @ bs) w"
    using b(1) io_then_write [of space w b "write_each space f xs" bs] by simp
  with bs show ?case by auto
qed simp

text \<open>A later stage of the writer, when what it adds to the w is known.\<close>

lemma stage:
  assumes "r = write_all space a w" and "fits space (w @ a) \<Longrightarrow> k (w @ a) = write_all space b (w @ a)"
  shows "io_then r k = write_all space (a @ b) w"
  using assms by (simp add: io_then_write)

lemma write_shard_to_eq:
  assumes "write_shard oc ver kvc idxs all sizes meta mmap start = Val out"
  shows "write_shard_to space oc ver kvc idxs all sizes meta mmap start = write_all space out []"
proof -
  let ?order = "offset_order all idxs"
  define head where "head = u32_to_le 0x46554747 @ u32_to_le ver @ u64_to_le (wlen idxs) @ u64_to_le kvc"
  have idxs: "list_all (\<lambda>i. i < length all) idxs"
    using assms by (auto simp: write_shard_def split: if_splits)
  obtain m c out1 nds pad where steps:
    "fold_out (assign_offset oc sizes) ?order (Map.empty, 0) = Val (m, c)"
    "fold_out (info_step all m) idxs (head @ meta) = Val out1"
    "align_up oc (wlen out1) 32 = (Val nds :: usize gres)" "wsub oc nds (wlen out1) = (Val pad :: usize gres)"
    "fold_out (data_step oc all sizes mmap start) ?order
       (if 0 < pad then out1 @ replicate (unat pad) (CHR 0x00) else out1) = Val out"
    using assms idxs unfolding write_shard_def Let_def head_def by (simp add: and_then_eq_Val split: prod.splits) blast
  define pads where "pads = (if 0 < pad then replicate (unat pad) (CHR 0x00) else [])"
  have padded: "(if 0 < pad then out1 @ replicate (unat pad) (CHR 0x00) else out1) = out1 @ pads"
    by (simp add: pads_def)
  obtain infos where out1: "out1 = (head @ meta) @ infos"
    using fold_out_extends [OF appends_info_step steps(2)] by blast
  obtain body where out: "out = (out1 @ pads) @ body"
    using fold_out_extends [OF appends_data_step steps(5) [unfolded padded]] by blast
  have data: "write_each space (data_step oc all sizes mmap start) ?order (out1 @ pads) = write_all space body (out1 @ pads)"
    if "fits space (out1 @ pads)"
    using write_each_eq [OF appends_data_step steps(5) [unfolded padded] that] out by auto
  define tail where "tail = (\<lambda>out. let pos = wlen out in
      in_state out (align_up oc pos 32) (\<lambda>new_data_start.
      in_state out (wsub oc new_data_start pos) (\<lambda>pad.
      io_then (if 0 < pad then write_all space (replicate (unat pad) (CHR 0x00)) out else (out, Val ()))
        (write_each space (data_step oc all sizes mmap start) ?order))))"
  have tail: "tail out1 = write_all space (pads @ body) out1" if "fits space out1"
  proof -
    have "tail out1 = io_then (if 0 < pad then write_all space (replicate (unat pad) (CHR 0x00)) out1 else (out1, Val ()))
        (write_each space (data_step oc all sizes mmap start) ?order)"
      by (simp only: tail_def Let_def steps(3,4) in_state_simps)
    also have "\<dots> = write_all space (pads @ body) out1"
      using that data by (intro stage) (auto simp: pads_def)
    finally show ?thesis .
  qed
  have infos: "io_then (write_each space (info_step all m) idxs (head @ meta)) tail =
      write_all space (infos @ pads @ body) (head @ meta)" if "fits space (head @ meta)"
  proof (rule stage)
    show "write_each space (info_step all m) idxs (head @ meta) = write_all space infos (head @ meta)"
      using write_each_eq [OF appends_info_step steps(2) that] out1 by auto
    show "tail ((head @ meta) @ infos) = write_all space (pads @ body) ((head @ meta) @ infos)"
      if "fits space ((head @ meta) @ infos)"
      using tail that out1 by simp
  qed
  have "io_then (write_all space meta head)
      (\<lambda>out. io_then (write_each space (info_step all m) idxs out) tail) = write_all space (meta @ infos @ pads @ body) head"
    if "fits space head"
    by (rule stage [where a = meta and w = head], rule refl, rule infos)
  then have "io_then (write_all space head []) (\<lambda>out. io_then (write_all space meta out)
      (\<lambda>out. io_then (write_each space (info_step all m) idxs out) tail)) =
      write_all space (head @ meta @ infos @ pads @ body) []"
    by (intro stage [where a = head and w = "[]"]) simp_all
  then have "write_shard_to space oc ver kvc idxs all sizes meta mmap start =
      write_all space (head @ meta @ infos @ pads @ body) []"
    using idxs by (simp add: write_shard_to_def steps(1) head_def tail_def Let_def)
  then show ?thesis by (simp add: out out1)
qed

text \<open>
  Whatever happens, the file does not grow beyond what it can take, and after an error or a
  panic it may hold the beginning of a shard.
\<close>

lemma write_all_fits: "fits space w \<Longrightarrow> fits space (fst (write_all space bs w))"
  by (auto simp: write_all_def fits_def split: option.splits)

end
