(* ===== verification/Rust_Lines.thy ===== *)
theory Rust_Lines
  imports Rust_Text
begin

text \<open>
  White space, lines and splitting of Rust strings, on their UTF-8 bytes: \<^verbatim>\<open>trim\<close>,
  \<^verbatim>\<open>lines\<close>, \<^verbatim>\<open>split\<close>, \<^verbatim>\<open>split_whitespace\<close>, \<^verbatim>\<open>trim_end_matches\<close> and the ASCII part of
  \<^verbatim>\<open>to_lowercase\<close>. The lemmas are the cases the node agent relies on: a printed number with a
  line end, or with a unit behind it, trims back to the number.
\<close>

section \<open>White space\<close>

text \<open>
  The number of bytes of the white-space character a string starts with (the characters of
  Unicode's \<^verbatim>\<open>White_Space\<close>), or 0.
\<close>

definition white_len :: "string \<Rightarrow> nat" where
  "white_len s =
     (case s of
        [] \<Rightarrow> 0
      | a # r \<Rightarrow>
          if (9 \<le> code a \<and> code a \<le> 13) \<or> code a = 32 then 1
          else if code a = 0xC2 then
            (case r of b # _ \<Rightarrow> if code b = 0x85 \<or> code b = 0xA0 then 2 else 0 | [] \<Rightarrow> 0)
          else
            (case r of
               b # c # _ \<Rightarrow>
                 if (code a = 0xE1 \<and> code b = 0x9A \<and> code c = 0x80) \<or>
                    (code a = 0xE2 \<and> code b = 0x80 \<and>
                     ((0x80 \<le> code c \<and> code c \<le> 0x8A) \<or> code c = 0xA8 \<or> code c = 0xA9 \<or> code c = 0xAF)) \<or>
                    (code a = 0xE2 \<and> code b = 0x81 \<and> code c = 0x9F) \<or>
                    (code a = 0xE3 \<and> code b = 0x80 \<and> code c = 0x80)
                 then 3 else 0
             | _ \<Rightarrow> 0))"

lemma white_len_le: "white_len s \<le> length s"
  by (auto simp: white_len_def split: list.splits)

function trim_start :: "string \<Rightarrow> string" where
  "trim_start s = (if white_len s = 0 then s else trim_start (drop (white_len s) s))"
  by pat_completeness auto
termination
proof (relation "measure length")
  fix s :: string assume "white_len s \<noteq> 0"
  with white_len_le [of s] show "(drop (white_len s) s, s) \<in> measure length" by simp
qed simp

declare trim_start.simps [simp del]

text \<open>The number of bytes of the white-space character a string ends with, or 0.\<close>

definition white_suffix :: "string \<Rightarrow> nat" where
  "white_suffix s =
     (case find (\<lambda>k. k \<le> length s \<and> white_len (drop (length s - k) s) = k) [1, 2, 3] of
        Some k \<Rightarrow> k
      | None \<Rightarrow> 0)"

lemma white_suffix_le: "white_suffix s \<le> length s"
  by (auto simp: white_suffix_def find_Some_iff split: option.split)

function trim_end :: "string \<Rightarrow> string" where
  "trim_end s = (if white_suffix s = 0 then s else trim_end (take (length s - white_suffix s) s))"
  by pat_completeness auto
termination
proof (relation "measure length")
  fix s :: string assume "white_suffix s \<noteq> 0"
  with white_suffix_le [of s] show "(take (length s - white_suffix s) s, s) \<in> measure length" by simp
qed simp

declare trim_end.simps [simp del]

definition trim :: "string \<Rightarrow> string" where
  "trim s = trim_end (trim_start s)"

text \<open>\<^verbatim>\<open>split_whitespace\<close>\<close>

function white_split :: "string \<Rightarrow> string \<Rightarrow> string list" where
  "white_split acc s =
     (if s = [] then [acc]
      else if white_len s = 0 then white_split (acc @ [hd s]) (tl s)
      else acc # white_split [] (drop (white_len s) s))"
  by pat_completeness auto
termination by (relation "measure (\<lambda>(acc, s). length s)") auto

declare white_split.simps [simp del]

definition split_whitespace :: "string \<Rightarrow> string list" where
  "split_whitespace s = filter (\<lambda>w. w \<noteq> []) (white_split [] s)"

section \<open>Lines and splitting\<close>

abbreviation newline :: char where
  "newline \<equiv> CHR 0x0A"

text \<open>A carriage return goes with the line feed that follows it.\<close>

definition chomp :: "string \<Rightarrow> string" where
  "chomp l = (if l \<noteq> [] \<and> last l = CHR 0x0D then butlast l else l)"

function str_lines :: "string \<Rightarrow> string list" where
  "str_lines s =
     (if s = [] then []
      else
        case dropWhile (\<lambda>c. c \<noteq> newline) s of
          [] \<Rightarrow> [s]
        | _ # r \<Rightarrow> chomp (takeWhile (\<lambda>c. c \<noteq> newline) s) # str_lines r)"
  by pat_completeness auto
termination
proof (relation "measure length")
  fix s :: string and x r assume "dropWhile (\<lambda>c. c \<noteq> newline) s = x # r"
  then have "length (x # r) \<le> length s" by (metis length_dropWhile_le)
  then show "(r, s) \<in> measure length" by simp
qed simp

declare str_lines.simps [simp del]

fun split_on :: "char \<Rightarrow> string \<Rightarrow> string list" where
  "split_on c [] = [[]]"
| "split_on c (x # xs) =
     (if x = c then [] # split_on c xs
      else case split_on c xs of [] \<Rightarrow> [[x]] | w # ws \<Rightarrow> (x # w) # ws)"

text \<open>\<^verbatim>\<open>split\<close> with a string pattern: the pieces between its leftmost occurrences.\<close>

fun split_str_from :: "nat \<Rightarrow> string \<Rightarrow> string \<Rightarrow> string \<Rightarrow> string list" where
  "split_str_from n p acc [] = [acc]"
| "split_str_from (Suc n) p acc (c # cs) = split_str_from n p acc cs"
| "split_str_from 0 p acc (c # cs) =
     (if starts_with (c # cs) p then acc # split_str_from (length p - 1) p [] cs
      else split_str_from 0 p (acc @ [c]) cs)"

definition split_str :: "string \<Rightarrow> string \<Rightarrow> string list" where
  "split_str p s = split_str_from 0 p [] s"

text \<open>\<^verbatim>\<open>iter.nth(i)\<close> and \<^verbatim>\<open>find_map\<close>.\<close>

definition nth_opt :: "'a list \<Rightarrow> nat \<Rightarrow> 'a option" where
  "nth_opt xs i = (if i < length xs then Some (xs ! i) else None)"

fun find_map :: "('a \<Rightarrow> 'b option) \<Rightarrow> 'a list \<Rightarrow> 'b option" where
  "find_map f [] = None"
| "find_map f (x # xs) = (case f x of Some y \<Rightarrow> Some y | None \<Rightarrow> find_map f xs)"

definition ends_with :: "string \<Rightarrow> string \<Rightarrow> bool" where
  "ends_with s p \<longleftrightarrow> length p \<le> length s \<and> drop (length s - length p) s = p"

function trim_end_matches :: "string \<Rightarrow> string \<Rightarrow> string" where
  "trim_end_matches s p =
     (if p \<noteq> [] \<and> ends_with s p then trim_end_matches (take (length s - length p) s) p else s)"
  by pat_completeness auto
termination
proof (relation "measure (\<lambda>(s, p). length s)")
  fix s p :: string assume "p \<noteq> [] \<and> ends_with s p"
  then have "0 < length p" "length p \<le> length s" by (auto simp: ends_with_def)
  then have "length s - length p < length s" by linarith
  then show "((take (length s - length p) s, p), (s, p)) \<in> measure (\<lambda>(s, p). length s)" by simp
qed simp

declare trim_end_matches.simps [simp del]

text \<open>\<^verbatim>\<open>join\<close>\<close>

fun join :: "string \<Rightarrow> string list \<Rightarrow> string" where
  "join sep [] = []"
| "join sep [x] = x"
| "join sep (x # y # ys) = x @ sep @ join sep (y # ys)"

text \<open>The ASCII letters; other characters stay as they are.\<close>

definition lower :: "char \<Rightarrow> char" where
  "lower c = (if 65 \<le> code c \<and> code c \<le> 90 then char_of (code c + 32) else c)"

section \<open>Lemmas\<close>

text \<open>A string of visible ASCII characters.\<close>

definition visible :: "string \<Rightarrow> bool" where
  "visible s \<longleftrightarrow> list_all (\<lambda>c. 33 \<le> code c \<and> code c < 128) s"

lemma white_len_visible: "33 \<le> code c \<Longrightarrow> code c < 128 \<Longrightarrow> white_len (c # s) = 0"
  by (simp add: white_len_def split: list.split)

lemma trim_start_visible: "visible s \<Longrightarrow> trim_start (s @ t) = (if s = [] then trim_start t else s @ t)"
  by (cases s) (auto simp: visible_def white_len_visible trim_start.simps [of "_ # _"])

text \<open>A visible character ends no white-space character; an ASCII one ends itself only.\<close>

lemma white_len_last:
  assumes "code c < 128" and "white_len (s @ [c]) = Suc (length s)"
  shows "s = []"
proof (rule ccontr)
  assume "s \<noteq> []"
  then obtain a r where s: "s = a # r" by (cases s) auto
  with assms show False
    by (auto simp: white_len_def append_eq_Cons_conv split: list.splits if_splits)
qed

lemma white_suffix_snoc:
  assumes "code c < 128"
  shows "white_suffix (s @ [c]) = white_len [c]"
proof -
  have two: "white_len (drop (length (s @ [c]) - k) (s @ [c])) \<noteq> k" if "k \<le> length (s @ [c])" "1 < k" for k
  proof
    assume w: "white_len (drop (length (s @ [c]) - k) (s @ [c])) = k"
    define u where "u = drop (length s - (k - 1)) s"
    have u: "drop (length (s @ [c]) - k) (s @ [c]) = u @ [c]" "length u = k - 1"
      using that by (auto simp: u_def)
    then have "white_len (u @ [c]) = Suc (length u)" using w that(2) by simp
    then have "u = []" by (rule white_len_last [OF assms])
    with u(2) that(2) show False by simp
  qed
  have one: "white_len [c] \<le> 1" using white_len_le [of "[c]"] by simp
  show ?thesis
  proof (cases "white_len [c] = 1")
    case True
    then show ?thesis by (simp add: white_suffix_def)
  next
    case False
    with one have "white_len [c] = 0" by simp
    moreover have "find (\<lambda>k. k \<le> length (s @ [c]) \<and> white_len (drop (length (s @ [c]) - k) (s @ [c])) = k) [1, 2, 3] = None"
      using two [of 2] two [of 3] False by (simp add: numeral_2_eq_2 numeral_3_eq_3)
    ultimately show ?thesis unfolding white_suffix_def by (simp only: option.case)
  qed
qed

lemma trim_end_visible: "visible s \<Longrightarrow> trim_end s = s"
proof (cases s rule: rev_cases)
  case (snoc u c)
  assume "visible s"
  with snoc have "white_suffix s = 0"
    by (auto simp: visible_def white_suffix_snoc white_len_visible)
  then show ?thesis by (simp add: trim_end.simps)
qed (simp add: trim_end.simps white_suffix_def)

lemma trim_end_white:
  assumes "white_len [c] = 1" and "code c < 128"
  shows "trim_end (s @ [c]) = trim_end s"
  by (subst trim_end.simps) (simp add: white_suffix_snoc assms)

lemma trim_visible: "visible s \<Longrightarrow> trim s = s"
  using trim_start_visible [of s "[]"] by (cases "s = []") (auto simp: trim_def trim_end_visible trim_start.simps white_len_def)

lemma trim_visible_newline: "visible s \<Longrightarrow> s \<noteq> [] \<Longrightarrow> trim (s @ [newline]) = s"
  using trim_start_visible [of s "[newline]"]
  by (simp add: trim_def trim_end_white white_len_def trim_end_visible)

lemma visible_dec: "visible (dec n)"
  by (fastforce simp: visible_def list_all_iff dest: dec_digits)

lemma parse_u64_dec: "n < 2 ^ 64 \<Longrightarrow> parse_u64 (dec n) = Some (word_of_nat n)"
  by (simp add: parse_u64_def parse_uint_dec del: power_numeral)

lemma trim_between:
  assumes "visible s" and "s \<noteq> []" and "33 \<le> code c" and "code c < 128"
  shows "trim (s @ t @ [c]) = s @ t @ [c]"
proof -
  have "trim_end (u @ [c]) = u @ [c]" for u
    using assms by (subst trim_end.simps) (simp add: white_suffix_snoc white_len_visible)
  from this [of "s @ t"] show ?thesis using assms by (simp add: trim_def trim_start_visible)
qed

lemma ends_with_append: "ends_with (s @ p) p"
  by (simp add: ends_with_def)

lemma ends_with_last: "ends_with s p \<Longrightarrow> p \<noteq> [] \<Longrightarrow> s \<noteq> [] \<and> last s = last p"
  by (cases "s = []") (auto simp: ends_with_def dest: arg_cong [where f = last])

text \<open>A unit behind a blank goes away.\<close>

lemma trim_unit:
  assumes "visible s" and "s \<noteq> []" and "p \<noteq> []" and "last p \<noteq> CHR '' ''"
  shows "trim (trim_end_matches (s @ '' '' @ p) p) = s"
proof -
  have "\<not> ends_with (s @ '' '') p" using ends_with_last [of "s @ '' ''" p] assms by auto
  then have "trim_end_matches (s @ '' '') p = s @ '' ''" by (subst trim_end_matches.simps) simp
  then have "trim_end_matches ((s @ '' '') @ p) p = s @ '' ''"
    using assms(3) ends_with_append [of "s @ '' ''" p] by (subst trim_end_matches.simps) simp
  then show ?thesis using trim_start_visible [OF assms(1), of "'' ''"] assms
    by (simp add: trim_def trim_end_white white_len_def trim_end_visible)
qed

end
