(* ===== verification/Gguf_Main.thy ===== *)
theory Gguf_Main
  imports Gguf_File Rust_Lines
begin

text \<open>
  The splitter's \<^verbatim>\<open>main\<close>: arguments, the choice of the shard size, the plan, and the loop
  that writes the shard files. The file system is a map from paths to contents; whether a
  directory or file can be created (\<open>creatable\<close>), how many bytes a file can take when it is
  written (\<open>space\<close>, which may depend on the files there), the JSON reader of the node
  configuration (\<open>json_layers\<close>) and the JSON printer of the plan (\<open>render_plan\<close>) are
  parameters. Two paths that differ as strings name different files. The loop over the
  shards is shown to be a sequence of file writes, \<open>write_files\<close>, in which the first one
  that does not fit ends the run.
\<close>

section \<open>Arguments, plan, files\<close>

record args =
  model :: string
  arg_layers_per_shard :: "u32 option"
  output_dir :: string
  node_config :: "string option"
  list_tensors :: bool
  split_files :: bool
  force :: bool

text \<open>
  The plan as it goes to the JSON printer. \<^verbatim>\<open>estimated_size_mb\<close>, a quotient of floats that
  nothing reads, is kept as the pair of numbers it is computed from.
\<close>

record shard_plan =
  shard_id :: u32
  first_layer :: u32
  last_layer :: u32
  has_lm_head :: bool
  filename :: string
  estimate :: "usize \<times> u32"

record split_plan =
  model_name :: string
  architecture :: string
  total_layers :: u32
  layers_per_shard :: u32
  num_shards :: u32
  source_file :: string
  shards :: "shard_plan list"

datatype report = Listed "string list" | Planned split_plan | Written u32

type_synonym files = "string \<rightharpoonup> bytes"

text \<open>\<^verbatim>\<open>PathBuf::join\<close> with a relative file name.\<close>

definition path_join :: "string \<Rightarrow> string \<Rightarrow> string" where
  "path_join dir f = (if dir = [] \<or> List.last dir = CHR ''/'' then dir @ f else dir @ ''/'' @ f)"

text \<open>
  \<^verbatim>\<open>Path::file_stem\<close>: the last component that is neither empty nor \<^verbatim>\<open>.\<close>, without its
  last extension; a leading dot starts no extension.
\<close>

definition file_stem :: "string \<Rightarrow> string option" where
  "file_stem path =
     (case rev (filter (\<lambda>c. c \<noteq> [] \<and> c \<noteq> ''.'') (split_on CHR ''/'' path)) of
        [] \<Rightarrow> None
      | nm # _ \<Rightarrow>
          if nm = ''..'' then None
          else
            let before = rev (drop 1 (dropWhile (\<lambda>c. c \<noteq> CHR ''.'') (rev nm)))
            in Some (if before = [] then nm else before))"

definition shard_filename :: "u32 \<Rightarrow> string" where
  "shard_filename i = ''shard_'' @ pad3 (unat (i + 1)) @ ''.gguf''"

definition shard_path :: "args \<Rightarrow> u32 \<Rightarrow> string" where
  "shard_path a i = path_join (output_dir a) (shard_filename i)"

section \<open>The size of a shard\<close>

definition calculate_from_node_config ::
  "(string \<Rightarrow> u64 option option) \<Rightarrow> files \<Rightarrow> string \<Rightarrow> u32 gres" where
  "calculate_from_node_config json_layers fs config_path =
     (case fs config_path of
        None \<Rightarrow> Fail (IoError config_path)
      | Some content \<Rightarrow>
          if \<not> utf8_valid content then Fail (IoError config_path)
          else
            (case json_layers content of
               None \<Rightarrow> Fail BadConfig
             | Some (Some lps) \<Rightarrow> Val (ucast lps)
             | Some None \<Rightarrow> Val 10))"

definition choose_layers_per_shard ::
  "(string \<Rightarrow> u64 option option) \<Rightarrow> files \<Rightarrow> args \<Rightarrow> u32 \<Rightarrow> u32 gres" where
  "choose_layers_per_shard json_layers fs a num_layers =
     (case arg_layers_per_shard a of
        Some n \<Rightarrow> Val n
      | None \<Rightarrow>
          (case node_config a of
             Some config_path \<Rightarrow> calculate_from_node_config json_layers fs config_path
           | None \<Rightarrow> Val (f64_ceil_div num_layers 4)))"

section \<open>The loops over the shards\<close>

text \<open>
  A step that returns \<^verbatim>\<open>Err\<close> or panics ends \<^verbatim>\<open>main\<close> with the files as they are. The shard
  is copied from the memory-mapped model, so creating, and thereby emptying, a file that is
  the model itself (with \<^verbatim>\<open>--force\<close>) leaves the map without its bytes; Rust defines nothing
  for the accesses after it.
\<close>

type_synonym file_space = "files \<Rightarrow> string \<Rightarrow> space"

fun split_loop ::
  "bool \<Rightarrow> (string \<Rightarrow> bool) \<Rightarrow> file_space \<Rightarrow> args \<Rightarrow> gguf \<Rightarrow> bytes \<Rightarrow> bytes \<Rightarrow> u64 list \<Rightarrow> nat list list \<Rightarrow>
   u32 \<Rightarrow> u32 \<Rightarrow> u32 \<Rightarrow> u32 list \<Rightarrow> files \<Rightarrow> files \<times> unit gres" where
  "split_loop oc creatable space a g data raw_metadata data_sizes groups n lps num [] fs = (fs, Val ())"
| "split_loop oc creatable space a g data raw_metadata data_sizes groups n lps num (i # idxs) fs =
     (let path = shard_path a i in
      if fs path \<noteq> None \<and> \<not> force a then (fs, Fail (ShardExists path))
      else
        in_state fs (shard_indices oc groups n lps num i) (\<lambda>indices.
        if \<not> creatable path then (fs, Fail (IoError path))
        else
          let fs = fs(path \<mapsto> []) in
          if path = model a then (fs, Panic MapTruncated)
          else
            (case write_shard_to (space fs path) oc (version g) (kv_count g) indices (tensors g) data_sizes
                    raw_metadata data (data_start g) of
               (out, r) \<Rightarrow>
                 let fs = fs(path \<mapsto> out) in
                 in_state fs r (\<lambda>_.
                 split_loop oc creatable space a g data raw_metadata data_sizes groups n lps num idxs fs))))"

definition plan_shard :: "usize \<Rightarrow> u32 \<Rightarrow> u32 \<Rightarrow> u32 \<times> u32 \<times> bool \<Rightarrow> shard_plan" where
  "plan_shard file_size num i r =
     (case r of (f, l, h) \<Rightarrow>
        \<lparr>shard_id = i + 1, first_layer = f, last_layer = l, has_lm_head = h, filename = shard_filename i,
         estimate = (file_size, num)\<rparr>)"

definition plan_of ::
  "args \<Rightarrow> string option \<Rightarrow> u32 \<Rightarrow> u32 \<Rightarrow> u32 \<Rightarrow> usize \<Rightarrow> (u32 \<times> u32 \<times> bool) list \<Rightarrow> split_plan" where
  "plan_of a arch n lps num file_size ranges =
     \<lparr>model_name = (case file_stem (model a) of Some s \<Rightarrow> utf8_lossy s | None \<Rightarrow> ''model''),
      architecture = (case arch of Some s \<Rightarrow> s | None \<Rightarrow> ''unknown''),
      total_layers = n, layers_per_shard = lps, num_shards = num, source_file = utf8_lossy (model a),
      shards = map2 (plan_shard file_size num) (map word_of_nat [0..<unat num]) ranges\<rparr>"

definition plan_path :: "args \<Rightarrow> string" where
  "plan_path a = path_join (output_dir a) ''split_plan.json''"

definition write_plan ::
  "(string \<Rightarrow> bool) \<Rightarrow> file_space \<Rightarrow> (split_plan \<Rightarrow> bytes) \<Rightarrow> args \<Rightarrow> split_plan \<Rightarrow> files \<Rightarrow> files \<times> report gres" where
  "write_plan creatable space render_plan a plan fs =
     (let path = plan_path a in
      if \<not> creatable path then (fs, Fail (IoError path))
      else
        let fs = fs(path \<mapsto> []) in
        (case write_all (space fs path) (render_plan plan) [] of
           (out, r) \<Rightarrow> let fs = fs(path \<mapsto> out) in in_state fs r (\<lambda>_. (fs, Val (Planned plan)))))"

section \<open>main\<close>

definition splitter_main ::
  "nat \<Rightarrow> bool \<Rightarrow> (string \<Rightarrow> u64 option option) \<Rightarrow> (split_plan \<Rightarrow> bytes) \<Rightarrow> (string \<Rightarrow> bool) \<Rightarrow>
   file_space \<Rightarrow> args \<Rightarrow> files \<Rightarrow> files \<times> report gres" where
  "splitter_main d oc json_layers render_plan creatable space a fs =
     (case fs (model a) of
        None \<Rightarrow> (fs, Fail (ModelNotFound (model a)))
      | Some data \<Rightarrow>
          in_state fs (parse_gguf d oc data) (\<lambda>g.
          in_state fs (count_layers oc (tensors g)) (\<lambda>n.
          if list_tensors a then (fs, Val (Listed (map name (tensors g))))
          else
            in_state fs (get_metadata_string (unat (kv_count g)) d oc data 24 ''general.architecture'') (\<lambda>arch.
            in_state fs (choose_layers_per_shard json_layers fs a n) (\<lambda>lps.
            if lps = 0 then (fs, Fail ZeroLayersPerShard)
            else
              let num = num_shards_of n lps; idxs = map word_of_nat [0..<unat num] in
              in_state fs (map_out (shard_range oc n lps num) idxs) (\<lambda>ranges.
              if \<not> creatable (output_dir a) then (fs, Fail (IoError (output_dir a)))
              else
                let groups = group_tensors_by_layer (tensors g) n in
                in_state fs (compute_data_sizes oc (tensors g) (data_start g) (wlen data)) (\<lambda>data_sizes.
                in_state fs (subslice data 24 (info_start g)) (\<lambda>raw_metadata.
                if split_files a then
                  (case split_loop oc creatable space a g data raw_metadata data_sizes groups n lps num idxs fs of
                     (fs', r) \<Rightarrow> in_state fs' r (\<lambda>_. (fs', Val (Written num))))
                else
                  write_plan creatable space render_plan a (plan_of a arch n lps num (wlen data) ranges) fs))))))))"

section \<open>File names\<close>

lemma parse_digits_zeros: "0 < b \<Longrightarrow> parse_digits b 0 (replicate k CHR ''0'' @ s) = parse_digits b 0 s"
  by (induction k) (auto simp: digit_val_def)

lemma parse_pad3: "parse_digits (Suc n) 0 (pad3 n) = Some n"
  by (simp add: pad3_def parse_digits_zeros parse_digits_dec)

lemma pad3_inj: "pad3 m = pad3 n \<Longrightarrow> m = n"
proof -
  assume e: "pad3 m = pad3 n"
  have "parse_digits (Suc (max m n)) 0 (pad3 m) = Some m" "parse_digits (Suc (max m n)) 0 (pad3 n) = Some n"
    by (rule parse_digits_mono [OF parse_pad3]; simp)+
  with e show ?thesis by (metis option.inject)
qed

lemma shard_path_inj: "shard_path a i = shard_path a j \<Longrightarrow> i = j"
proof -
  assume "shard_path a i = shard_path a j"
  then have "pad3 (unat (i + 1)) = pad3 (unat (j + 1))"
    by (auto simp: shard_path_def path_join_def shard_filename_def split: if_splits)
  then show ?thesis by (auto dest!: pad3_inj simp: word_unat_eq_iff [symmetric])
qed

section \<open>A run of the splitting loop\<close>

text \<open>The specification of the loop: files written one after the other.\<close>

fun write_files :: "file_space \<Rightarrow> (string \<times> bytes) list \<Rightarrow> files \<Rightarrow> files \<times> unit gres" where
  "write_files space [] fs = (fs, Val ())"
| "write_files space ((p, c) # pcs) fs =
     (case write_all (space (fs(p \<mapsto> [])) p) c [] of
        (out, r) \<Rightarrow> in_state (fs(p \<mapsto> out)) r (\<lambda>_. write_files space pcs (fs(p \<mapsto> out))))"

fun all_fit :: "file_space \<Rightarrow> (string \<times> bytes) list \<Rightarrow> files \<Rightarrow> bool" where
  "all_fit space [] fs = True"
| "all_fit space ((p, c) # pcs) fs = (fits (space (fs(p \<mapsto> [])) p) c \<and> all_fit space pcs (fs(p \<mapsto> c)))"

lemma all_fit_unlimited: "all_fit (\<lambda>_ _. None) pcs fs"
  by (induction pcs arbitrary: fs) (auto simp: fits_def)

lemma map_of_fresh: "p \<notin> fst ` set pcs \<Longrightarrow> fs(p \<mapsto> c) ++ map_of pcs = fs ++ map_of ((p, c) # pcs)"
  by (rule ext) (auto simp: map_add_def map_of_eq_None_iff [symmetric] split: option.split)

lemma write_files_append:
  assumes "all_fit space pcs fs" and "distinct (map fst pcs)"
  shows "write_files space (pcs @ qcs) fs = write_files space qcs (fs ++ map_of pcs)"
  using assms
proof (induction pcs arbitrary: fs)
  case (Cons pc pcs)
  obtain p c where pc: "pc = (p, c)" by fastforce
  with Cons.prems have "write_files space ((pc # pcs) @ qcs) fs = write_files space (pcs @ qcs) (fs(p \<mapsto> c))"
    by (simp add: write_all_def)
  also have "\<dots> = write_files space qcs (fs(p \<mapsto> c) ++ map_of pcs)"
    using Cons.prems pc by (intro Cons.IH) (simp_all del: fun_upd_apply)
  also have "fs(p \<mapsto> c) ++ map_of pcs = fs ++ map_of (pc # pcs)"
    unfolding pc using Cons.prems(2) pc by (intro map_of_fresh) simp
  finally show ?case .
qed simp

lemma write_files_ok:
  "all_fit space pcs fs \<Longrightarrow> distinct (map fst pcs) \<Longrightarrow> write_files space pcs fs = (fs ++ map_of pcs, Val ())"
  using write_files_append [of space pcs fs "[]"] by simp

lemma write_files_full:
  assumes "all_fit space pcs fs" and "distinct (map fst pcs)"
    and "space ((fs ++ map_of pcs)(p \<mapsto> [])) p = Some k" and "k < length c"
  shows "write_files space (pcs @ (p, c) # qcs) fs = ((fs ++ map_of pcs)(p \<mapsto> take k c), Fail WriteError)"
  unfolding write_files_append [OF assms(1,2)] using assms(3,4) by (simp add: write_all_def fits_def)

text \<open>The loop refines it, when shard \<open>i\<close> is to have the content \<open>content i\<close>.\<close>

lemma split_loop_writes:
  assumes "\<And>i. i \<in> set idxs \<Longrightarrow>
      shard_indices oc groups n lps num i = Val (idx i) \<and>
      write_shard oc (version g) (kv_count g) (idx i) (tensors g) sizes meta data (data_start g) = Val (content i) \<and>
      creatable (shard_path a i) \<and> (force a \<or> fs (shard_path a i) = None) \<and> shard_path a i \<noteq> model a"
    and "distinct idxs"
  shows "split_loop oc creatable space a g data meta sizes groups n lps num idxs fs =
    write_files space (map (\<lambda>i. (shard_path a i, content i)) idxs) fs"
  using assms
proof (induction idxs arbitrary: fs)
  case (Cons i rest)
  obtain out r where w: "write_all (space (fs(shard_path a i \<mapsto> [])) (shard_path a i)) (content i) [] = (out, r)"
    by fastforce
  have "force a \<or> (fs(shard_path a i \<mapsto> out)) (shard_path a j) = None" if "j \<in> set rest" for j
    using Cons.prems that shard_path_inj [of a i j] by auto
  then have IH: "split_loop oc creatable space a g data meta sizes groups n lps num rest (fs(shard_path a i \<mapsto> out)) =
      write_files space (map (\<lambda>i. (shard_path a i, content i)) rest) (fs(shard_path a i \<mapsto> out))"
    using Cons.prems by (intro Cons.IH) auto
  have "\<not> (fs (shard_path a i) \<noteq> None \<and> \<not> force a) \<longleftrightarrow> True" "shard_indices oc groups n lps num i = Val (idx i)"
    "creatable (shard_path a i)" "shard_path a i \<noteq> model a"
    using Cons.prems(1) [of i] by auto
  moreover have "write_shard_to (space (fs(shard_path a i \<mapsto> [])) (shard_path a i)) oc (version g) (kv_count g) (idx i)
      (tensors g) sizes meta data (data_start g) = (out, r)"
    using write_shard_to_eq Cons.prems(1) [of i] w by simp
  ultimately show ?case by (simp only: split_loop.simps Let_def if_False if_True in_state_simps write_files.simps list.map w IH prod.case simp_thms fun_upd_upd)
qed simp

lemma split_loop_keeps:
  "\<not> force a \<Longrightarrow> fs p = Some c \<Longrightarrow>
     fst (split_loop oc creatable space a g data meta sizes groups n lps num idxs fs) p = Some c"
proof (induction idxs arbitrary: fs)
  case (Cons i idxs)
  show ?case
  proof (cases "fs (shard_path a i)")
    case None
    with Cons.prems have "p \<noteq> shard_path a i" by auto
    with Cons None show ?thesis by (auto simp: Let_def in_state_def split: outcome.split prod.split)
  next
    case (Some c')
    with Cons.prems show ?thesis by simp
  qed
qed simp

lemma split_loop_keeps_result:
  "split_loop oc creatable space a g data meta sizes groups n lps num idxs fs = (fs', r) \<Longrightarrow>
     \<not> force a \<Longrightarrow> fs p = Some c \<Longrightarrow> fs' p = Some c"
  by (metis fst_conv split_loop_keeps)

section \<open>Properties\<close>

text \<open>
  C24: Without \<^verbatim>\<open>--force\<close>, \<^verbatim>\<open>--split\<close> never changes or removes a file that exists,
  whatever the input is and however the run ends, an error in the middle, a full disk or a panic included.
\<close>
theorem split_keeps_files:
  assumes "split_files a" and "\<not> force a" and "fs p = Some c"
  shows "fst (splitter_main d oc json_layers render_plan creatable space a fs) p = Some c"
  using assms
  by (auto simp: splitter_main_def in_state_def Let_def split: option.split outcome.split prod.split
      dest: split_loop_keeps_result)

definition demo_args :: args where
  "demo_args =
     \<lparr>model = ''m.gguf'', arg_layers_per_shard = Some 1, output_dir = ''out'', node_config = None,
      list_tensors = False, split_files = True, force = False\<rparr>"

theorem split_keeps_files_witness:
  "fst (splitter_main 3 True (\<lambda>_. None) (\<lambda>_. []) (\<lambda>_. True) (\<lambda>_ _. Some 100) demo_args
      [''m.gguf'' \<mapsto> vocab_file, ''out/shard_001.gguf'' \<mapsto> ''old'']) ''out/shard_001.gguf'' = Some ''old''"
  by (rule split_keeps_files) (simp_all add: demo_args_def)

end
