(* ===== verification/Gguf_Split.thy ===== *)
theory Gguf_Split
  imports Gguf_Main
begin

text \<open>
  The end-to-end development of the splitter. A condition on the source alone under which
  the window search finds the first tensor info, in the source and in every shard; then: on
  a well-formed source, \<^verbatim>\<open>main --split\<close> writes one shard file per layer range, every tensor
  in exactly one, and every shard that has tensors parses back to them and holds their data.
\<close>

section \<open>Well-formed sources\<close>

abbreviation meta_of :: "kv list \<Rightarrow> bytes" where
  "meta_of kvs \<equiv> concat (map enc_kv kvs)"

definition source :: "u32 \<Rightarrow> kv list \<Rightarrow> tensor_info list \<Rightarrow> bytes \<Rightarrow> bytes" where
  "source ver kvs ts body = gguf_image ver (wlen kvs) (meta_of kvs) ts body"

definition source_start :: "u32 \<Rightarrow> kv list \<Rightarrow> tensor_info list \<Rightarrow> usize" where
  "source_start ver kvs ts = word_of_nat (round32 (length (gguf_front ver (wlen kvs) (meta_of kvs) ts)))"

definition good_tensor :: "nat \<Rightarrow> tensor_info \<Rightarrow> bool" where
  "good_tensor body_len t \<longleftrightarrow>
     ok_tensor t \<and> good_name (name t) \<and> get_layer_id (name t) \<noteq> Some (- 1) \<and> unat (offset t) \<le> body_len"

definition well_formed :: "nat \<Rightarrow> u32 \<Rightarrow> kv list \<Rightarrow> tensor_info list \<Rightarrow> bytes \<Rightarrow> bool" where
  "well_formed d ver kvs ts body \<longleftrightarrow>
     list_all (\<lambda>kv. wf_kv d kv \<and> utf8_valid (fst kv)) kvs \<and> quiet_tail (meta_of kvs) \<and>
     ts \<noteq> [] \<and> list_all (good_tensor (length body)) ts \<and>
     length (source ver kvs ts body) < 2 ^ 57"

lemma length_image:
  "length (gguf_image ver k meta ts body) = round32 (length (gguf_front ver k meta ts)) + length body"
  unfolding gguf_image_def using length_front_pad by simp

lemma length_front: "length (gguf_front ver k meta ts) = 24 + length meta + sum_list (map (\<lambda>t. length (enc_tensor t)) ts)"
  by (simp add: gguf_front_def length_concat o_def)

lemma well_formed_slice: "well_formed d ver kvs ts body \<Longrightarrow> valid_slice (source ver kvs ts body)"
  by (simp add: well_formed_def valid_slice_def)

lemma source_start_unat:
  assumes "well_formed d ver kvs ts body"
  shows "unat (source_start ver kvs ts) = round32 (length (gguf_front ver (wlen kvs) (meta_of kvs) ts))"
    and "unat (source_start ver kvs ts) + length body = length (source ver kvs ts body)"
  using assms by (simp_all add: source_start_def well_formed_def source_def length_image)

lemma source_in_file:
  assumes "well_formed d ver kvs ts body"
  shows "in_file (source ver kvs ts body) (source_start ver kvs ts) ts"
  using assms source_start_unat(2) [OF assms]
  by (auto simp: in_file_def well_formed_def list_all_iff good_tensor_def)

text \<open>Any image with this metadata and such tensors parses, in particular every shard.\<close>

lemma parse_image:
  assumes kvs: "list_all (\<lambda>kv. wf_kv d kv \<and> utf8_valid (fst kv)) kvs" "quiet_tail (meta_of kvs)"
    and ts: "ts \<noteq> []" "\<forall>t \<in> set ts. ok_tensor t \<and> good_name (name t)"
    and len: "length (gguf_image ver (wlen kvs) (meta_of kvs) ts body) < 2 ^ 60"
  shows "parse_gguf d oc (gguf_image ver (wlen kvs) (meta_of kvs) ts body) =
    Val \<lparr>version = ver, kv_count = wlen kvs, info_start = 24 + wlen (meta_of kvs), tensors = ts,
         data_start = source_start ver kvs ts\<rparr>"
  unfolding source_start_def
proof (rule parse_gguf_image)
  let ?data = "gguf_image ver (wlen kvs) (meta_of kvs) ts body"
  show "\<forall>kv \<in> set kvs. wf_kv d kv" "\<forall>t \<in> set ts. ok_tensor t"
    using kvs ts by (auto simp: list_all_iff)
  show v: "valid_slice ?data" using len by (simp add: valid_slice_def)
  have "24 * length ts \<le> sum_list (map (\<lambda>t. length (enc_tensor t)) ts)"
    by (induction ts) (auto simp: enc_tensor_def)
  also have "\<dots> \<le> length ?data"
    using round32_ge [of "length (gguf_front ver (wlen kvs) (meta_of kvs) ts)"]
    by (simp add: length_image length_front)
  finally show "64 * length ts < 2 ^ 63" using len by simp
  obtain t us where t: "ts = t # us" using ts(1) by (cases ts) auto
  show "start_found ?data (24 + wlen (meta_of kvs))"
  proof (rule start_found_first [OF _ _ kvs(2) _ _ v])
    show "?data = gguf_header ver (wlen ts) (wlen kvs) @ meta_of kvs @ enc_tensor t @
        concat (map enc_tensor us) @ pad32 (length (gguf_front ver (wlen kvs) (meta_of kvs) ts)) @ body"
      by (simp add: gguf_image_def gguf_front_def t)
  qed (use ts(2) t in \<open>auto simp: ok_tensor_def\<close>)
qed

lemma parse_source:
  assumes "well_formed d ver kvs ts body"
  shows "parse_gguf d oc (source ver kvs ts body) =
    Val \<lparr>version = ver, kv_count = wlen kvs, info_start = 24 + wlen (meta_of kvs), tensors = ts,
         data_start = source_start ver kvs ts\<rparr>"
  using assms unfolding source_def
  by (intro parse_image) (auto simp: well_formed_def list_all_iff good_tensor_def source_def)

text \<open>The size of a shard file is bounded by that of the source.\<close>

lemma sum_list_sublist_le:
  fixes f :: "nat \<Rightarrow> nat"
  assumes "distinct idxs" and "\<forall>i \<in> set idxs. i < n"
  shows "sum_list (map f idxs) \<le> sum_list (map f [0..<n])"
proof -
  have "sum f (set idxs) \<le> sum f {0..<n}" using assms(2) by (intro sum_mono2) auto
  then show ?thesis using assms(1) by (simp add: sum_list_distinct_conv_sum_set)
qed

lemma sizes_total:
  assumes v: "valid_slice data" and inf: "in_file data start ts"
    and sizes: "compute_data_sizes oc ts start (wlen data) = Val sizes"
  shows "sum_list (map (\<lambda>i. unat (sizes ! i)) [0..<length ts]) \<le> length data"
proof (cases "ts = []")
  case False
  let ?order = "offset_order ts [0..<length ts]"
  have "sum_list (map (\<lambda>i. unat (sizes ! i)) [0..<length ts]) = sum_list (map (\<lambda>i. unat (sizes ! i)) ?order)"
    by (metis mset_map mset_offset_order sum_mset_sum_list)
  also have "\<dots> = sum_list (map (\<lambda>i. length (region data start ts sizes i)) ?order)"
    using regions_in_file [OF v inf sizes]
    by (intro arg_cong [where f = sum_list] map_cong) (auto simp: regions_in_def region_def)
  also have "\<dots> = length (concat (map (region data start ts sizes) ?order))"
    by (simp add: length_concat o_def)
  also have "\<dots> \<le> length data" by (simp add: regions_tile [OF v inf False sizes])
  finally show ?thesis .
qed simp

lemma source_room:
  assumes wf: "well_formed d ver kvs ts body"
    and sizes: "compute_data_sizes oc ts (source_start ver kvs ts) (wlen (source ver kvs ts body)) = Val sizes"
    and d: "distinct idxs" and idx: "\<forall>i \<in> set idxs. i < length ts"
  shows "24 + length (meta_of kvs) + sum_list (map (\<lambda>i. length (enc_tensor (ts ! i))) idxs) +
      sum_list (map (\<lambda>i. unat (sizes ! i)) idxs) + 32 * (length idxs + 2) < 2 ^ 60"
proof -
  let ?L = "length (source ver kvs ts body)" and ?e = "\<lambda>i. length (enc_tensor (ts ! i))"
  have L: "?L < 2 ^ 57" using wf by (simp add: well_formed_def)
  have "sum_list (map (\<lambda>i. unat (sizes ! i)) idxs) \<le> ?L"
    using sum_list_sublist_le [OF d idx, of "\<lambda>i. unat (sizes ! i)"]
      sizes_total [OF well_formed_slice [OF wf] source_in_file [OF wf] sizes] by simp
  moreover have "24 + length (meta_of kvs) + sum_list (map ?e idxs) \<le> ?L"
  proof -
    have "sum_list (map ?e idxs) \<le> sum_list (map ?e [0..<length ts])" by (rule sum_list_sublist_le [OF d idx])
    also have "map ?e [0..<length ts] = map (\<lambda>t. length (enc_tensor t)) ts"
      by (rule nth_equalityI) auto
    finally show ?thesis
      using round32_ge [of "length (gguf_front ver (wlen kvs) (meta_of kvs) ts)"]
      by (simp add: source_def length_image length_front)
  qed
  moreover have "24 * length idxs \<le> sum_list (map ?e idxs)"
    by (induction idxs) (auto simp: enc_tensor_def)
  ultimately show ?thesis using L by simp
qed

section \<open>main on a well-formed source\<close>

text \<open>The contents of the shard files, when shard \<open>i\<close> holds the tensors \<open>idxss ! i\<close>.\<close>

definition shard_image :: "u32 \<Rightarrow> kv list \<Rightarrow> tensor_info list \<Rightarrow> bytes \<Rightarrow> u64 list \<Rightarrow> nat list \<Rightarrow> bytes" where
  "shard_image ver kvs ts body sizes idxs =
     gguf_image ver (wlen kvs) (meta_of kvs) (shard_tensors ts sizes idxs)
       (shard_body (source ver kvs ts body) (source_start ver kvs ts) ts sizes idxs)"

definition shard_list :: "args \<Rightarrow> bytes list \<Rightarrow> (string \<times> bytes) list" where
  "shard_list a contents = map (\<lambda>i. (shard_path a (word_of_nat i), contents ! i)) [0..<length contents]"

definition shard_files :: "args \<Rightarrow> bytes list \<Rightarrow> files" where
  "shard_files a contents = map_of (shard_list a contents)"

text \<open>
  What the split needs of the options and of the file system, apart from the space: the
  files can be created, do not exist or may be overwritten, and are not the model itself.
\<close>

definition can_write :: "(string \<Rightarrow> bool) \<Rightarrow> args \<Rightarrow> files \<Rightarrow> u32 \<Rightarrow> bool" where
  "can_write creatable a fs num \<longleftrightarrow>
     creatable (output_dir a) \<and>
     list_all (\<lambda>i. creatable (shard_path a (word_of_nat i)) \<and>
                   (force a \<or> fs (shard_path a (word_of_nat i)) = None) \<and>
                   shard_path a (word_of_nat i) \<noteq> model a) [0..<unat num]"

lemma word_of_nat_inj32: "i < 2 ^ 32 \<Longrightarrow> j < 2 ^ 32 \<Longrightarrow> (word_of_nat i :: u32) = word_of_nat j \<longleftrightarrow> i = j"
  by (metis unat_of_nat32)

lemma distinct_shard_numbers: "distinct (map word_of_nat [0..<unat (num :: u32)] :: u32 list)"
  using unat_lt_32 [of num] by (auto simp: distinct_map inj_on_def word_of_nat_inj32)

lemma distinct_shard_list: "length contents < 2 ^ 32 \<Longrightarrow> distinct (map fst (shard_list a contents))"
  by (auto simp: shard_list_def distinct_map o_def inj_on_def word_of_nat_inj32 dest!: shard_path_inj)

lemma shard_files_at:
  assumes "length contents < 2 ^ 32" and "i < length contents"
  shows "shard_files a contents (shard_path a (word_of_nat i)) = Some (contents ! i)"
  unfolding shard_files_def using distinct_shard_list [OF assms(1)] assms(2)
  by (intro map_of_is_SomeI) (auto simp: shard_list_def)

lemma shard_loop_source:
  assumes wf: "well_formed d ver kvs ts body"
    and sizes: "compute_data_sizes oc ts (source_start ver kvs ts) (wlen (source ver kvs ts body)) = Val sizes"
    and xss: "map_out (\<lambda>i. shard_indices oc groups n lps num (word_of_nat i)) [0..<unat num] = Val idxss"
    and ok: "\<forall>idxs \<in> set idxss. distinct idxs \<and> (\<forall>i \<in> set idxs. i < length ts)"
    and wr: "can_write creatable a fs num"
    and g: "version g = ver" "kv_count g = wlen kvs" "tensors g = ts" "data_start g = source_start ver kvs ts"
  shows "split_loop oc creatable space a g (source ver kvs ts body) (meta_of kvs) sizes groups n lps num
      (map word_of_nat [0..<unat num]) fs =
    write_files space (shard_list a (map (shard_image ver kvs ts body sizes) idxss)) fs"
proof -
  have len: "length idxss = unat num" and nth: "\<And>i. i < unat num \<Longrightarrow>
      shard_indices oc groups n lps num (word_of_nat i) = Val (idxss ! i)"
    using map_out_Val_nth [OF xss] by auto
  have "split_loop oc creatable space a g (source ver kvs ts body) (meta_of kvs) sizes groups n lps num
      (map word_of_nat [0..<unat num]) fs =
    write_files space (map (\<lambda>i. (shard_path a i, shard_image ver kvs ts body sizes (idxss ! unat i)))
       (map word_of_nat [0..<unat num])) fs"
  proof (rule split_loop_writes [OF _ distinct_shard_numbers])
    fix w :: u32 assume "w \<in> set (map word_of_nat [0..<unat num])"
    then obtain i where i: "i < unat num" "w = word_of_nat i" by auto
    then have u: "unat w = i" using unat_lt_32 [of num] by simp
    have mem: "distinct (idxss ! i)" "\<forall>j \<in> set (idxss ! i). j < length ts"
      using ok i(1) len by auto
    have "room (meta_of kvs) ts sizes (idxss ! i)"
      using source_room [OF wf sizes mem] by (simp add: room_def)
    from write_shard_image [OF well_formed_slice [OF wf] regions_in_file [OF well_formed_slice [OF wf] source_in_file [OF wf] sizes] mem(2,1) this]
    show "shard_indices oc groups n lps num w = Val (idxss ! unat w) \<and>
        write_shard oc (version g) (kv_count g) (idxss ! unat w) (tensors g) sizes (meta_of kvs)
          (source ver kvs ts body) (data_start g) = Val (shard_image ver kvs ts body sizes (idxss ! unat w)) \<and>
        creatable (shard_path a w) \<and> (force a \<or> fs (shard_path a w) = None) \<and> shard_path a w \<noteq> model a"
      using nth [OF i(1)] wr i u by (auto simp: g shard_image_def can_write_def list_all_iff)
  qed
  also have "map (\<lambda>i. (shard_path a i, shard_image ver kvs ts body sizes (idxss ! unat i))) (map word_of_nat [0..<unat num]) =
      map (\<lambda>i. (shard_path a (word_of_nat i), map (shard_image ver kvs ts body sizes) idxss ! i)) [0..<unat num]"
    using unat_lt_32 [of num] len by auto
  finally show ?thesis by (simp add: shard_list_def len)
qed

lemma source_holds_meta:
  "length kvs \<le> length (meta_of kvs)" "holds_at (source ver kvs ts body) 24 (meta_of kvs)"
  "length (meta_of kvs) + 24 \<le> length (source ver kvs ts body)"
proof -
  show "length kvs \<le> length (meta_of kvs)" by (induction kvs) (auto simp: enc_kv_def)
  have "source ver kvs ts body = gguf_header ver (wlen ts) (wlen kvs) @ meta_of kvs @
      concat (map enc_tensor ts) @ pad32 (length (gguf_front ver (wlen kvs) (meta_of kvs) ts)) @ body"
    by (simp add: source_def gguf_image_def gguf_front_def)
  then show "holds_at (source ver kvs ts body) 24 (meta_of kvs)"
    "length (meta_of kvs) + 24 \<le> length (source ver kvs ts body)"
    by (simp_all add: holds_at_concat)
qed

text \<open>What \<^verbatim>\<open>main\<close> reads before it looks at the layers.\<close>

lemma source_reads:
  assumes wf: "well_formed d ver kvs ts body"
  shows "unat (wlen kvs) = length kvs"
    and "get_metadata_string (length kvs) d oc (source ver kvs ts body) 24 key = Val (lookup_string kvs key)"
    and "subslice (source ver kvs ts body) 24 (24 + wlen (meta_of kvs)) = Val (meta_of kvs)"
    and "\<exists>sizes. compute_data_sizes oc ts (source_start ver kvs ts) (wlen (source ver kvs ts body)) = Val sizes"
proof -
  note v = well_formed_slice [OF wf]
  have "length kvs < 2 ^ 57"
    using source_holds_meta(1) [of kvs] source_holds_meta(3) [of kvs ver ts body] wf by (auto simp: well_formed_def)
  then show "unat (wlen kvs) = length kvs" by simp
  show "get_metadata_string (length kvs) d oc (source ver kvs ts body) 24 key = Val (lookup_string kvs key)"
    using wf v source_holds_meta(2)
    by (intro get_metadata_string_enc) (auto simp: well_formed_def list_all_iff)
  show "subslice (source ver kvs ts body) 24 (24 + wlen (meta_of kvs)) = Val (meta_of kvs)"
    by (rule subslice_holds_at [OF v source_holds_meta(2) refl])
  show "\<exists>sizes. compute_data_sizes oc ts (source_start ver kvs ts) (wlen (source ver kvs ts body)) = Val sizes"
    using compute_data_sizes_eq [OF v source_in_file [OF wf], of oc] by metis
qed

lemma shards_distinct:
  assumes "concat idxss = sort_key f [0..<m]"
  shows "\<forall>idxs \<in> set idxss. distinct idxs \<and> (\<forall>i \<in> set idxs. i < m)"
proof -
  have "distinct (concat idxss)" unfolding assms by (simp add: distinct_sort)
  moreover have "set (concat idxss) = {0..<m}" unfolding assms by simp
  ultimately show ?thesis by (fastforce simp: distinct_concat_iff)
qed

text \<open>\<^verbatim>\<open>main\<close> up to the loop or the plan.\<close>

lemma splitter_main_front:
  assumes wf: "well_formed d ver kvs ts body"
    and src: "fs (model a) = Some (source ver kvs ts body)"
    and mode: "\<not> list_tensors a"
    and n: "count_layers oc ts = Val n"
    and lps: "choose_layers_per_shard json_layers fs a n = Val lps" "lps \<noteq> 0" "ranges_fit n lps"
    and out: "creatable (output_dir a)"
    and sizes: "compute_data_sizes oc ts (source_start ver kvs ts) (wlen (source ver kvs ts body)) = Val sizes"
  defines "num \<equiv> num_shards_of n lps"
  obtains r :: "u32 \<Rightarrow> u32 \<times> u32 \<times> bool" where "\<And>i. i < unat num \<Longrightarrow> shard_range oc n lps num (word_of_nat i) = Val (r (word_of_nat i))"
    and "\<And>render_plan space. splitter_main d oc json_layers render_plan creatable space a fs =
    (if split_files a then
       (case split_loop oc creatable space a
           \<lparr>version = ver, kv_count = wlen kvs, info_start = 24 + wlen (meta_of kvs), tensors = ts,
            data_start = source_start ver kvs ts\<rparr>
           (source ver kvs ts body) (meta_of kvs) sizes (group_tensors_by_layer ts n) n lps num
           (map word_of_nat [0..<unat num]) fs of
          (fs', r) \<Rightarrow> in_state fs' r (\<lambda>_. (fs', Val (Written num))))
     else
       write_plan creatable space render_plan a
         (plan_of a (lookup_string kvs ''general.architecture'') n lps num (wlen (source ver kvs ts body))
           (map (\<lambda>i. r (word_of_nat i)) [0..<unat num])) fs)"
proof -
  have "\<exists>r. shard_range oc n lps num w = Val r" if "w \<in> set (map word_of_nat [0..<unat num])" for w
  proof -
    from that have "w < num" using unat_lt_32 [of num] by (auto simp: word_less_nat_alt)
    then show ?thesis using shard_range_eq [OF lps(3,2), of w oc] unfolding num_def by metis
  qed
  then obtain r where r: "\<And>w. w \<in> set (map word_of_nat [0..<unat num]) \<Longrightarrow> shard_range oc n lps num w = Val (r w)"
    by metis
  then have ranges: "map_out (shard_range oc n lps num) (map word_of_nat [0..<unat num]) =
      (Val (map r (map word_of_nat [0..<unat num])) :: (u32 \<times> u32 \<times> bool) list gres)"
    by (rule map_out_Val)
  show ?thesis
  proof (rule that)
    show "shard_range oc n lps num (word_of_nat i) = Val (r (word_of_nat i))" if "i < unat num" for i
      using r that by auto
    show "splitter_main d oc json_layers render_plan creatable space a fs =
    (if split_files a then
       (case split_loop oc creatable space a
           \<lparr>version = ver, kv_count = wlen kvs, info_start = 24 + wlen (meta_of kvs), tensors = ts,
            data_start = source_start ver kvs ts\<rparr>
           (source ver kvs ts body) (meta_of kvs) sizes (group_tensors_by_layer ts n) n lps num
           (map word_of_nat [0..<unat num]) fs of
          (fs', r) \<Rightarrow> in_state fs' r (\<lambda>_. (fs', Val (Written num))))
     else
       write_plan creatable space render_plan a
         (plan_of a (lookup_string kvs ''general.architecture'') n lps num (wlen (source ver kvs ts body))
           (map (\<lambda>i. r (word_of_nat i)) [0..<unat num])) fs)" for render_plan space
      unfolding splitter_main_def Let_def src option.case num_def [symmetric]
      using n lps(1,2) mode out
      by (simp add: parse_source [OF wf] source_reads(1,2,3) [OF wf] num_def [symmetric] ranges
          sizes o_def del: map_map) (simp add: o_def)
  qed
qed

lemma splitter_main_loop:
  assumes wf: "well_formed d ver kvs ts body"
    and src: "fs (model a) = Some (source ver kvs ts body)"
    and mode: "\<not> list_tensors a" "split_files a"
    and n: "count_layers oc ts = Val n"
    and lps: "choose_layers_per_shard json_layers fs a n = Val lps" "lps \<noteq> 0" "ranges_fit n lps"
    and out: "creatable (output_dir a)"
    and sizes: "compute_data_sizes oc ts (source_start ver kvs ts) (wlen (source ver kvs ts body)) = Val sizes"
  shows "splitter_main d oc json_layers render_plan creatable space a fs =
    (case split_loop oc creatable space a
        \<lparr>version = ver, kv_count = wlen kvs, info_start = 24 + wlen (meta_of kvs), tensors = ts,
         data_start = source_start ver kvs ts\<rparr>
        (source ver kvs ts body) (meta_of kvs) sizes (group_tensors_by_layer ts n) n lps (num_shards_of n lps)
        (map word_of_nat [0..<unat (num_shards_of n lps)]) fs of
       (fs', r) \<Rightarrow> in_state fs' r (\<lambda>_. (fs', Val (Written (num_shards_of n lps)))))"
  by (rule splitter_main_front [where fs = fs and a = a and creatable = creatable, OF wf src mode(1) n lps out sizes])
    (simp add: mode)

text \<open>With files that can be written, the loop writes the images of the shards.\<close>

lemma splitter_main_source:
  assumes wf: "well_formed d ver kvs ts body"
    and src: "fs (model a) = Some (source ver kvs ts body)"
    and mode: "\<not> list_tensors a" "split_files a"
    and n: "count_layers oc ts = Val n" "n \<noteq> 0"
    and lps: "choose_layers_per_shard json_layers fs a n = Val lps" "lps \<noteq> 0" "ranges_fit n lps"
    and wr: "can_write creatable a fs (num_shards_of n lps)"
    and sizes: "compute_data_sizes oc ts (source_start ver kvs ts) (wlen (source ver kvs ts body)) = Val sizes"
  shows "splitter_main d oc json_layers render_plan creatable space a fs =
    (case write_files space (shard_list a (map (shard_image ver kvs ts body sizes) (shard_assignment n lps ts))) fs of
       (fs', r) \<Rightarrow> in_state fs' r (\<lambda>_. (fs', Val (Written (num_shards_of n lps)))))"
proof -
  note idxss = all_shards_eq(1,2) [OF lps(3,2) n(2), where ts = ts]
  have "creatable (output_dir a)" using wr by (simp add: can_write_def)
  note loop = splitter_main_loop [where fs = fs and a = a and creatable = creatable, OF wf src mode n(1) lps this sizes]
  show ?thesis
    unfolding loop using wr
    by (subst shard_loop_source [OF wf sizes idxss(1) shards_distinct [OF idxss(2)]]) simp_all
qed

lemma splitter_main_fits:
  assumes "well_formed d ver kvs ts body"
    and "fs (model a) = Some (source ver kvs ts body)"
    and "\<not> list_tensors a" "split_files a"
    and "count_layers oc ts = Val n" "n \<noteq> 0"
    and "choose_layers_per_shard json_layers fs a n = Val lps" "lps \<noteq> 0" "ranges_fit n lps"
    and "can_write creatable a fs (num_shards_of n lps)"
    and "compute_data_sizes oc ts (source_start ver kvs ts) (wlen (source ver kvs ts body)) = Val sizes"
    and "all_fit space (shard_list a (map (shard_image ver kvs ts body sizes) (shard_assignment n lps ts))) fs"
  shows "splitter_main d oc json_layers render_plan creatable space a fs =
    (fs ++ shard_files a (map (shard_image ver kvs ts body sizes) (shard_assignment n lps ts)),
     Val (Written (num_shards_of n lps)))"
proof -
  have "length (shard_assignment n lps ts) < 2 ^ 32"
    using all_shards_eq(3) [OF assms(9,8,6), of ts] unat_lt_32 [of "num_shards_of n lps"] by simp
  then show ?thesis
    using splitter_main_source [where fs = fs and a = a and creatable = creatable, OF assms(1-11)] assms(12)
    by (simp add: write_files_ok distinct_shard_list shard_files_def)
qed

section \<open>A full disk\<close>

lemma choose_layers_keeps:
  assumes "choose_layers_per_shard json_layers fs a n = Val lps" and "\<And>q c. fs q = Some c \<Longrightarrow> fs' q = Some c"
  shows "choose_layers_per_shard json_layers fs' a n = Val lps"
  using assms(1) assms(2)
  by (auto simp: choose_layers_per_shard_def calculate_from_node_config_def split: option.splits)

text \<open>Shard files that are there stop a run without \<^verbatim>\<open>--force\<close> at the first of them.\<close>

lemma split_refused:
  assumes wf: "well_formed d ver kvs ts body"
    and src: "fs (model a) = Some (source ver kvs ts body)"
    and mode: "\<not> list_tensors a" "split_files a" "\<not> force a"
    and n: "count_layers oc ts = Val n"
    and lps: "choose_layers_per_shard json_layers fs a n = Val lps" "lps \<noteq> 0" "ranges_fit n lps"
    and out: "creatable (output_dir a)"
    and num: "num_shards_of n lps \<noteq> 0" and first: "fs (shard_path a 0) \<noteq> None"
  shows "splitter_main d oc json_layers render_plan creatable space a fs = (fs, Fail (ShardExists (shard_path a 0)))"
proof -
  obtain sizes where sizes: "compute_data_sizes oc ts (source_start ver kvs ts) (wlen (source ver kvs ts body)) = Val sizes"
    using source_reads(4) [OF wf] by blast
  have "map word_of_nat [0..<unat (num_shards_of n lps)] =
      (0 :: u32) # map word_of_nat [1..<unat (num_shards_of n lps)]"
    using num by (simp add: upt_conv_Cons unat_gt_0)
  then show ?thesis
    unfolding splitter_main_loop [where fs = fs and a = a and creatable = creatable, OF wf src mode(1,2) n lps out sizes]
    using first mode(3) by simp
qed

lemma split_full_disk:
  assumes wf: "well_formed d ver kvs ts body"
    and src: "fs (model a) = Some (source ver kvs ts body)"
    and mode: "\<not> list_tensors a" "split_files a"
    and n: "count_layers oc ts = Val n" "n \<noteq> 0"
    and lps: "choose_layers_per_shard json_layers fs a n = Val lps" "lps \<noteq> 0" "ranges_fit n lps"
    and wr: "can_write creatable a fs (num_shards_of n lps)"
    and sizes: "compute_data_sizes oc ts (source_start ver kvs ts) (wlen (source ver kvs ts body)) = Val sizes"
    and sl: "shard_list a (map (shard_image ver kvs ts body sizes) (shard_assignment n lps ts)) = written @ (p, c) # rest"
    and fit: "all_fit space written fs"
    and full: "space ((fs ++ map_of written)(p \<mapsto> [])) p = Some k" "k < length c"
  defines "fs' \<equiv> (fs ++ map_of written)(p \<mapsto> take k c)"
  shows "splitter_main d oc json_layers render_plan creatable space a fs = (fs', Fail WriteError)"
    and "\<not> force a \<Longrightarrow> splitter_main d oc json_layers render_plan creatable space' a fs' =
      (fs', Fail (ShardExists (shard_path a 0)))"
proof -
  let ?images = "map (shard_image ver kvs ts body sizes) (shard_assignment n lps ts)"
  note len = all_shards_eq(3) [OF lps(3,2) n(2), of ts]
  have "distinct (map fst (shard_list a ?images))"
    using len unat_lt_32 [of "num_shards_of n lps"] by (intro distinct_shard_list) simp
  then have dist: "distinct (map fst written)" using sl by simp
  show run: "splitter_main d oc json_layers render_plan creatable space a fs = (fs', Fail WriteError)"
    unfolding splitter_main_source [where fs = fs and a = a and creatable = creatable, OF wf src mode n lps wr sizes] sl
      write_files_full [where space = space, OF fit dist full] fs'_def by simp
  assume nf: "\<not> force a"
  have paths: "fs q = None \<and> q \<noteq> model a" if "q \<in> fst ` set (written @ [(p, c)])" for q
  proof -
    have "q \<in> fst ` set (shard_list a ?images)" using that by (auto simp: sl)
    then show ?thesis using wr nf len by (auto simp: shard_list_def can_write_def list_all_iff)
  qed
  have keep: "fs' q = Some x" if "fs q = Some x" for q x
  proof -
    have "q \<notin> fst ` set (written @ [(p, c)])" using paths [of q] that by auto
    then have "q \<noteq> p" "map_of written q = None" by (auto simp: map_of_eq_None_iff)
    with that show ?thesis by (simp add: fs'_def map_add_def)
  qed
  have "0 < length (shard_list a ?images)" by (simp add: sl)
  then have num: "0 < unat (num_shards_of n lps)" by (simp add: shard_list_def len)
  have "fst (shard_list a ?images ! 0) = shard_path a 0"
    using num by (simp add: shard_list_def len)
  then have "shard_path a 0 = p \<or> shard_path a 0 \<in> fst ` set written"
    unfolding sl by (cases written) auto
  then have "fs' (shard_path a 0) \<noteq> None"
    using map_of_eq_None_iff [of written "shard_path a 0"] by (auto simp: fs'_def map_add_def split: option.split)
  then show "splitter_main d oc json_layers render_plan creatable space' a fs' = (fs', Fail (ShardExists (shard_path a 0)))"
    using num wr
      choose_layers_keeps [OF lps(1), of fs'] keep
    by (intro split_refused [where fs = fs' and a = a, OF wf keep [OF src] mode nf n(1) _ lps(2,3)])
      (auto simp: can_write_def)
qed

section \<open>Reading a shard back\<close>

text \<open>
  Tensor \<open>t'\<close> of a shard is tensor \<open>t\<close> of the source: the same description, an aligned
  offset, and all of its \<open>n\<close> bytes.
\<close>

definition same_tensor ::
  "nat \<Rightarrow> bytes \<Rightarrow> usize \<Rightarrow> tensor_info \<Rightarrow> bytes \<Rightarrow> usize \<Rightarrow> tensor_info \<Rightarrow> bool" where
  "same_tensor n data start t data' start' t' \<longleftrightarrow>
     name t' = name t \<and> n_dims t' = n_dims t \<and> dims t' = dims t \<and> ggml_type t' = ggml_type t \<and>
     32 dvd unat (offset t') \<and> unat start + unat (offset t) + n \<le> length data \<and>
     take n (drop (unat start' + unat (offset t')) data') = take n (drop (unat start + unat (offset t)) data)"

lemma length_shard_body:
  assumes "regions_in data start ts sizes" and "\<forall>i \<in> set idxs. i < length ts"
  shows "length (shard_body data start ts sizes idxs) = sum_list (map (\<lambda>i. unat (sizes ! i)) idxs)"
proof -
  have "length (shard_body data start ts sizes idxs) =
      sum_list (map (\<lambda>i. unat (sizes ! i)) (offset_order ts idxs))"
    unfolding shard_body_def length_concat map_map o_def using assms
    by (intro arg_cong [where f = sum_list] map_cong) (auto simp: regions_in_def region_def)
  then show ?thesis by (metis mset_map mset_offset_order sum_mset_sum_list)
qed

lemma shard_readback:
  assumes wf: "well_formed d ver kvs ts body"
    and sizes: "compute_data_sizes oc ts (source_start ver kvs ts) (wlen (source ver kvs ts body)) = Val sizes"
    and al: "offsets_aligned ts"
    and d: "distinct idxs" and idx: "\<forall>i \<in> set idxs. i < length ts" and ne: "idxs \<noteq> []"
  shows "\<exists>g. parse_gguf d oc (shard_image ver kvs ts body sizes idxs) = Val g \<and>
    list_all2 (\<lambda>i. same_tensor (unat (sizes ! i)) (source ver kvs ts body) (source_start ver kvs ts) (ts ! i)
        (shard_image ver kvs ts body sizes idxs) (data_start g)) idxs (tensors g)"
proof -
  let ?data = "source ver kvs ts body" and ?start = "source_start ver kvs ts"
  define sts where "sts = shard_tensors ts sizes idxs"
  define sbody where "sbody = shard_body ?data ?start ts sizes idxs"
  define front where "front = length (gguf_front ver (wlen kvs) (meta_of kvs) sts)"
  note v = well_formed_slice [OF wf] and inf = source_in_file [OF wf]
  have reg: "regions_in ?data ?start ts sizes" by (rule regions_in_file [OF v inf sizes])
  note room60 = source_room [OF wf sizes d idx]
  have image: "shard_image ver kvs ts body sizes idxs = gguf_image ver (wlen kvs) (meta_of kvs) sts sbody"
    by (simp add: shard_image_def sts_def sbody_def)
  have front: "front = 24 + length (meta_of kvs) + sum_list (map (\<lambda>i. length (enc_tensor (ts ! i))) idxs)"
    by (simp add: front_def length_front sts_def shard_tensors_def o_def)
  have len: "length (shard_image ver kvs ts body sizes idxs) = round32 front + length sbody"
    by (simp add: image length_image front_def)
  have sb: "length sbody = sum_list (map (\<lambda>i. unat (sizes ! i)) idxs)"
    unfolding sbody_def by (rule length_shard_body [OF reg idx])
  have small: "round32 front + length sbody < 2 ^ 60"
    using room60 round32_less [of front] by (simp add: front sb)
  define g where "g = \<lparr>version = ver, kv_count = wlen kvs, info_start = 24 + wlen (meta_of kvs), tensors = sts,
      data_start = source_start ver kvs sts\<rparr>"
  have "parse_gguf d oc (shard_image ver kvs ts body sizes idxs) = Val g"
    unfolding image g_def
  proof (rule parse_image)
    show "list_all (\<lambda>kv. wf_kv d kv \<and> utf8_valid (fst kv)) kvs" "quiet_tail (meta_of kvs)"
      using wf by (auto simp: well_formed_def)
    show "sts \<noteq> []" using ne by (simp add: sts_def shard_tensors_def)
    show "\<forall>t \<in> set sts. ok_tensor t \<and> good_name (name t)"
      using wf idx by (auto simp: sts_def shard_tensors_def well_formed_def list_all_iff good_tensor_def ok_tensor_def)
    show "length (gguf_image ver (wlen kvs) (meta_of kvs) sts sbody) < 2 ^ 60"
      using small len image by simp
  qed
  moreover have start: "unat (source_start ver kvs sts) = round32 front"
    using small unfolding source_start_def front_def by (intro unat_of_nat64) simp
  have "same_tensor (unat (sizes ! i)) ?data ?start (ts ! i) (shard_image ver kvs ts body sizes idxs)
      (source_start ver kvs sts) ((ts ! i)\<lparr>offset := shard_offset ts sizes idxs i\<rparr>)" if i: "i \<in> set idxs" for i
  proof -
    have room: "room (meta_of kvs) ts sizes idxs" using room60 by (simp add: room_def)
    note sd = shard_data [OF v inf al sizes d idx room i, folded sbody_def]
    have in_data: "unat ?start + unat (offset (ts ! i)) + unat (sizes ! i) \<le> length ?data"
      using reg i idx by (auto simp: regions_in_def)
    have "drop (round32 front + k) (shard_image ver kvs ts body sizes idxs) = drop k sbody" for k
      using length_front_pad [of ver "wlen kvs" "meta_of kvs" sts]
      by (simp add: image gguf_image_def front_def drop_append)
    then have "take (unat (sizes ! i)) (drop (round32 front + unat (shard_offset ts sizes idxs i)) (shard_image ver kvs ts body sizes idxs)) =
        region ?data ?start ts sizes i" using sd(1) by simp
    then show ?thesis
      using sd(2) in_data by (auto simp: same_tensor_def start len region_def)
  qed
  then have "list_all2 (\<lambda>i. same_tensor (unat (sizes ! i)) ?data ?start (ts ! i)
        (shard_image ver kvs ts body sizes idxs) (data_start g)) idxs (tensors g)"
    by (simp add: g_def sts_def [symmetric]) (simp add: sts_def shard_tensors_def list.rel_map list.rel_refl_strong)
  ultimately show ?thesis by blast
qed

section \<open>Sources without layers\<close>

lemma splitter_main_no_layers:
  assumes wf: "well_formed d ver kvs ts body"
    and src: "fs (model a) = Some (source ver kvs ts body)"
    and mode: "\<not> list_tensors a" "split_files a"
    and n: "count_layers oc ts = Val 0"
    and lps: "choose_layers_per_shard json_layers fs a 0 = Val lps" "lps \<noteq> 0"
    and out: "creatable (output_dir a)"
  shows "splitter_main d oc json_layers render_plan creatable space a fs = (fs, Val (Written 0))"
proof -
  obtain sizes where sizes: "compute_data_sizes oc ts (source_start ver kvs ts) (wlen (source ver kvs ts body)) = Val sizes"
    using source_reads(4) [OF wf] by blast
  have "unat (num_shards_of 0 lps) = 0" using num_shards_exact [OF lps(2), of 0] lps(2) by (simp add: unat_gt_0)
  then have "num_shards_of 0 lps = 0" by (simp add: unat_eq_zero)
  then show ?thesis
    unfolding splitter_main_def Let_def src option.case
    using n lps mode out
    by (simp add: parse_source [OF wf] source_reads(1,2,3) [OF wf] sizes)
qed

section \<open>Properties\<close>

definition demo_source :: bytes where
  "demo_source = source 3 demo_kvs demo_tensors demo_body"

lemma demo_lengths:
  "length (meta_of demo_kvs) = 169" "length demo_body = 114" "length demo_tensors = 4"
  "length (gguf_front 3 3 (meta_of demo_kvs) demo_tensors) = 402" "length demo_source = 530"
  by (simp_all add: demo_kvs_def demo_body_def demo_tensors_def enc_kv_def demo_source_def source_def length_image length_front enc_tensor_def round32_def)

lemma demo_well_formed: "well_formed 3 3 demo_kvs demo_tensors demo_body"
    unfolding well_formed_def demo_source_def [symmetric] demo_lengths
proof (intro conjI)
  show "list_all (\<lambda>kv. wf_kv 3 kv \<and> utf8_valid (fst kv)) demo_kvs" by code_simp
  show "quiet_tail (meta_of demo_kvs)" by code_simp
  show "demo_tensors \<noteq> []" by (simp add: demo_tensors_def)
  show "list_all (good_tensor 114) demo_tensors" by code_simp
qed simp

text \<open>
  C13: Parsing inverts the format: on the image of any well-formed source, in either build
  profile, the reading half of \<^verbatim>\<open>main\<close> returns the version, the number of pairs, the tensor
  infos and the start of the data that the image was built from. Well-formedness is a
  condition on the source alone: valid values and names, and no position in the last 32
  bytes of the metadata that reads as a small length.
\<close>
theorem source_parses:
  assumes "well_formed d ver kvs ts body"
  shows "parse_gguf d oc (source ver kvs ts body) =
    Val \<lparr>version = ver, kv_count = wlen kvs, info_start = 24 + wlen (meta_of kvs), tensors = ts,
         data_start = source_start ver kvs ts\<rparr>"
  using assms by (rule parse_source)

theorem source_parses_witness:
  "parse_gguf 3 False demo_source =
    Val \<lparr>version = 3, kv_count = 3, info_start = 193, tensors = demo_tensors, data_start = 416\<rparr>"
proof -
  have "source_start 3 demo_kvs demo_tensors = 416" "length demo_kvs = 3"
    using demo_lengths(4) by (simp_all add: source_start_def round32_def demo_kvs_def)
  then show ?thesis
    using source_parses [OF demo_well_formed, of False] demo_lengths(1) by (simp add: demo_source_def)
qed

text \<open>
  C2: On a well-formed source with layers and with enough space on the disk, \<^verbatim>\<open>--split\<close>
  succeeds and changes exactly the shard files: there is one per layer range, each the GGUF
  image of its tensors, and the tensors of all shards, in order, are the stable sort of the
  source's by layer, each exactly once.
\<close>
theorem split_partitions:
  assumes "well_formed d ver kvs ts body"
    and "fs (model a) = Some (source ver kvs ts body)"
    and "\<not> list_tensors a" and "split_files a"
    and "count_layers oc ts = Val n" and "n \<noteq> 0"
    and "choose_layers_per_shard json_layers fs a n = Val lps" and "lps \<noteq> 0" and "ranges_fit n lps"
    and "can_write creatable a fs (num_shards_of n lps)"
    and "compute_data_sizes oc ts (source_start ver kvs ts) (wlen (source ver kvs ts body)) = Val sizes"
    and "all_fit space (shard_list a (map (shard_image ver kvs ts body sizes) (shard_assignment n lps ts))) fs"
  shows "splitter_main d oc json_layers render_plan creatable space a fs =
      (fs ++ shard_files a (map (shard_image ver kvs ts body sizes) (shard_assignment n lps ts)),
       Val (Written (num_shards_of n lps))) \<and>
    concat (shard_assignment n lps ts) = sort_key (\<lambda>i. slot_of (unat n) (ts ! i)) [0..<length ts]"
  using splitter_main_fits [where fs = fs and a = a and creatable = creatable, OF assms] all_shards_eq(2) [OF assms(9,8,6), of ts] by blast

definition demo_files :: files where
  "demo_files = [''m.gguf'' \<mapsto> demo_source]"

lemma demo_run:
  "count_layers oc demo_tensors = Val 2" "ranges_fit 2 1" "num_shards_of 2 1 = 2"
  "choose_layers_per_shard json_layers fs demo_args n = Val 1" "\<not> list_tensors demo_args" "split_files demo_args"
  "can_write (\<lambda>_. True) demo_args demo_files (num_shards_of 2 1)"
  "demo_files (model demo_args) = Some (source 3 demo_kvs demo_tensors demo_body)"
proof -
  show "count_layers oc demo_tensors = Val 2" by (induction oc) code_simp+
  show "ranges_fit 2 1" by code_simp
  show num: "num_shards_of 2 1 = 2" by (simp add: word_unat_eq_iff num_shards_exact)
  show "choose_layers_per_shard json_layers fs demo_args n = Val 1"
    by (simp add: choose_layers_per_shard_def demo_args_def)
  show "can_write (\<lambda>_. True) demo_args demo_files (num_shards_of 2 1)"
    unfolding num by (simp add: can_write_def shard_path_def path_join_def demo_args_def demo_files_def list_all_iff)
qed (simp_all add: demo_args_def demo_files_def demo_source_def)

theorem split_partitions_witness:
  "\<exists>sizes. splitter_main 3 False (\<lambda>_. None) (\<lambda>_. []) (\<lambda>_. True) (\<lambda>_ _. None) demo_args demo_files =
      (demo_files ++ shard_files demo_args (map (shard_image 3 demo_kvs demo_tensors demo_body sizes) [[2], [1, 0, 3]]),
       Val (Written 2))"
proof -
  obtain sizes where sizes: "compute_data_sizes False demo_tensors (source_start 3 demo_kvs demo_tensors)
      (wlen (source 3 demo_kvs demo_tensors demo_body)) = Val sizes"
    using source_reads(4) [OF demo_well_formed] by blast
  show ?thesis
    using split_partitions [OF demo_well_formed demo_run(8,5,6,1) _ demo_run(4) _ demo_run(2,7) sizes all_fit_unlimited]
    unfolding demo_assignment demo_run(3) by auto
qed

text \<open>
  C1: Splitting loses nothing: on a well-formed source whose tensor offsets are multiples of
  32 and a disk with enough space, every shard file with tensors parses back, in order, to the tensors assigned to it,
  each with the source's description, an offset that is a multiple of 32, and all bytes of
  its data.
\<close>
theorem split_faithful:
  assumes "well_formed d ver kvs ts body" and "offsets_aligned ts"
    and "fs (model a) = Some (source ver kvs ts body)"
    and "\<not> list_tensors a" and "split_files a"
    and "count_layers oc ts = Val n" and "n \<noteq> 0"
    and "choose_layers_per_shard json_layers fs a n = Val lps" and "lps \<noteq> 0" and "ranges_fit n lps"
    and "can_write creatable a fs (num_shards_of n lps)"
    and "compute_data_sizes oc ts (source_start ver kvs ts) (wlen (source ver kvs ts body)) = Val sizes"
    and "all_fit space (shard_list a (map (shard_image ver kvs ts body sizes) (shard_assignment n lps ts))) fs"
  shows "\<exists>fs'.
    splitter_main d oc json_layers render_plan creatable space a fs = (fs', Val (Written (num_shards_of n lps))) \<and>
    (\<forall>i < unat (num_shards_of n lps). shard_assignment n lps ts ! i = [] \<or>
      (\<exists>content g. fs' (shard_path a (word_of_nat i)) = Some content \<and> parse_gguf d oc content = Val g \<and>
        list_all2 (\<lambda>k. same_tensor (unat (sizes ! k)) (source ver kvs ts body) (source_start ver kvs ts) (ts ! k)
          content (data_start g)) (shard_assignment n lps ts ! i) (tensors g)))"
proof -
  let ?idxss = "shard_assignment n lps ts" and ?image = "shard_image ver kvs ts body sizes"
  let ?fs = "fs ++ shard_files a (map ?image ?idxss)"
  note sizes = assms(12)
  have run: "splitter_main d oc json_layers render_plan creatable space a fs = (?fs, Val (Written (num_shards_of n lps)))"
    by (rule splitter_main_fits [where fs = fs and a = a and creatable = creatable, OF assms(1,3-)])
  note len = all_shards_eq(3) [OF assms(10,9,7), of ts]
  have "\<exists>content g. ?fs (shard_path a (word_of_nat i)) = Some content \<and> parse_gguf d oc content = Val g \<and>
        list_all2 (\<lambda>k. same_tensor (unat (sizes ! k)) (source ver kvs ts body) (source_start ver kvs ts) (ts ! k)
          content (data_start g)) (?idxss ! i) (tensors g)"
    if i: "i < unat (num_shards_of n lps)" and ne: "?idxss ! i \<noteq> []" for i
  proof -
    have "distinct (?idxss ! i)" "\<forall>k \<in> set (?idxss ! i). k < length ts"
      using shards_distinct [OF all_shards_eq(2) [OF assms(10,9,7), of ts]] i len by auto
    from shard_readback [OF assms(1) sizes assms(2) this ne] obtain g where
      "parse_gguf d oc (?image (?idxss ! i)) = Val g \<and>
       list_all2 (\<lambda>k. same_tensor (unat (sizes ! k)) (source ver kvs ts body) (source_start ver kvs ts) (ts ! k)
          (?image (?idxss ! i)) (data_start g)) (?idxss ! i) (tensors g)" by blast
    moreover have "?fs (shard_path a (word_of_nat i)) = Some (?image (?idxss ! i))"
      using shard_files_at [of "map ?image ?idxss" i a] i len unat_lt_32 [of "num_shards_of n lps"]
      by (simp add: map_add_Some_iff)
    ultimately show ?thesis
      by (intro exI [of _ "?image (?idxss ! i)"] exI [of _ g]) simp
  qed
  with run show ?thesis by blast
qed

theorem split_faithful_witness:
  "\<exists>fs' content g.
    splitter_main 3 True (\<lambda>_. None) (\<lambda>_. []) (\<lambda>_. True) (\<lambda>_ _. None) demo_args demo_files = (fs', Val (Written 2)) \<and>
    fs' ''out/shard_002.gguf'' = Some content \<and> parse_gguf 3 True content = Val g \<and>
    map name (tensors g) = [''blk.1.ffn_up.weight'', ''token_embd.weight'', ''output_norm.weight'']"
proof -
  have al: "offsets_aligned demo_tensors" by (simp add: offsets_aligned_def demo_tensors_def)
  obtain sizes where sizes: "compute_data_sizes True demo_tensors (source_start 3 demo_kvs demo_tensors)
      (wlen (source 3 demo_kvs demo_tensors demo_body)) = Val sizes"
    using source_reads(4) [OF demo_well_formed] by blast
  have "(2 :: u32) \<noteq> 0" "(1 :: u32) \<noteq> 0" by simp_all
  note r = split_faithful [where oc = True and json_layers = "\<lambda>_. None" and render_plan = "\<lambda>_. []",
    OF demo_well_formed al demo_run(8,5,6,1) this(1) demo_run(4) this(2) demo_run(2,7) sizes all_fit_unlimited,
    unfolded demo_assignment demo_run(3), folded demo_source_def]
  obtain fs' where run:
    "splitter_main 3 True (\<lambda>_. None) (\<lambda>_. []) (\<lambda>_. True) (\<lambda>_ _. None) demo_args demo_files = (fs', Val (Written 2))"
    and shards: "\<forall>i < unat (2 :: u32). [[2], [1, 0, 3 :: nat]] ! i = [] \<or>
      (\<exists>content g. fs' (shard_path demo_args (word_of_nat i)) = Some content \<and> parse_gguf 3 True content = Val g \<and>
        list_all2 (\<lambda>k. same_tensor (unat (sizes ! k)) demo_source (source_start 3 demo_kvs demo_tensors) (demo_tensors ! k)
          content (data_start g)) ([[2], [1, 0, 3]] ! i) (tensors g))"
    using r by blast
  have "shard_path demo_args (word_of_nat 1) = ''out/shard_002.gguf''" by code_simp
  moreover have "map name ts = [''blk.1.ffn_up.weight'', ''token_embd.weight'', ''output_norm.weight'']"
    if "list_all2 (\<lambda>k. same_tensor (unat (sizes ! k)) d1 s1 (demo_tensors ! k) d2 s2) [1, 0, 3] ts" for d1 s1 d2 s2 ts
    using that by (auto simp: list_all2_Cons1 same_tensor_def demo_tensors_def)
  ultimately show ?thesis
    using run spec [OF shards, of 1] by auto
qed

text \<open>
  C6: When the disk fills up while a shard is written, \<^verbatim>\<open>--split\<close> returns an error: the shards
  before it are complete, it is cut off after the bytes that fitted, the later ones are not
  touched. The cut file stays, so that running the command again, with however much space,
  is refused until the files are removed or \<^verbatim>\<open>--force\<close> is given.
\<close>
theorem full_disk_leaves_prefix:
  assumes "well_formed d ver kvs ts body"
    and "fs (model a) = Some (source ver kvs ts body)"
    and "\<not> list_tensors a" and "split_files a"
    and "count_layers oc ts = Val n" and "n \<noteq> 0"
    and "choose_layers_per_shard json_layers fs a n = Val lps" and "lps \<noteq> 0" and "ranges_fit n lps"
    and "can_write creatable a fs (num_shards_of n lps)"
    and "compute_data_sizes oc ts (source_start ver kvs ts) (wlen (source ver kvs ts body)) = Val sizes"
    and "shard_list a (map (shard_image ver kvs ts body sizes) (shard_assignment n lps ts)) = written @ (p, c) # rest"
    and "all_fit space written fs"
    and "space ((fs ++ map_of written)(p \<mapsto> [])) p = Some k" and "k < length c"
  shows "\<exists>fs'. fs' = (fs ++ map_of written)(p \<mapsto> take k c) \<and>
    splitter_main d oc json_layers render_plan creatable space a fs = (fs', Fail WriteError) \<and>
    (\<not> force a \<longrightarrow> splitter_main d oc json_layers render_plan creatable space' a fs' =
      (fs', Fail (ShardExists (shard_path a 0))))"
  using split_full_disk [where fs = fs and a = a and creatable = creatable and space = space, OF assms] by blast

theorem full_disk_leaves_prefix_witness:
  "\<exists>c. splitter_main 3 True (\<lambda>_. None) (\<lambda>_. []) (\<lambda>_. True) (\<lambda>_ p. if p = ''out/shard_002.gguf'' then Some 4 else None)
      demo_args demo_files = (demo_files(''out/shard_001.gguf'' \<mapsto> c, ''out/shard_002.gguf'' \<mapsto> ''GGUF''), Fail WriteError)"
proof -
  let ?space = "\<lambda>_ p. if p = ''out/shard_002.gguf'' then Some 4 else None"
  obtain sizes where sizes: "compute_data_sizes True demo_tensors (source_start 3 demo_kvs demo_tensors)
      (wlen (source 3 demo_kvs demo_tensors demo_body)) = Val sizes"
    using source_reads(4) [OF demo_well_formed] by blast
  let ?image = "shard_image 3 demo_kvs demo_tensors demo_body sizes"
  have path: "shard_path demo_args 0 = ''out/shard_001.gguf''" "shard_path demo_args 1 = ''out/shard_002.gguf''"
    by code_simp+
  then have sl: "shard_list demo_args (map ?image (shard_assignment 2 1 demo_tensors)) =
      [(''out/shard_001.gguf'', ?image [2])] @ (''out/shard_002.gguf'', ?image [1, 0, 3]) # []"
    by (simp add: demo_assignment shard_list_def upt_conv_Cons)
  have front: "\<exists>r. ?image [1, 0, 3] = u32_to_le 0x46554747 @ u32_to_le 3 @ u64_to_le 3 @ r"
    by (simp add: shard_image_def gguf_image_def gguf_front_def gguf_header_def shard_tensors_def)
  then have t: "take 4 (?image [1, 0, 3]) = u32_to_le 0x46554747" "4 < length (?image [1, 0, 3])" by auto
  have "u32_to_le 0x46554747 = ''GGUF''" by code_simp
  moreover have "all_fit ?space [(''out/shard_001.gguf'', ?image [2])] demo_files" by (simp add: fits_def)
  moreover have "demo_files ++ map_of [(''out/shard_001.gguf'', ?image [2])] = demo_files(''out/shard_001.gguf'' \<mapsto> ?image [2])"
    by simp
  ultimately show ?thesis
    using full_disk_leaves_prefix [where oc = True and space = ?space and k = 4 and json_layers = "\<lambda>_. None" and
        render_plan = "\<lambda>_. []",
      OF demo_well_formed demo_run(8,5,6,1) _ demo_run(4) _ demo_run(2,7) sizes sl _ _ t(2)] t(1)
    by (auto simp del: map_of.simps fun_upd_apply simp: fun_upd_same)
qed

text \<open>
  C33: A well-formed model whose tensors name no layer is not split at all: with an explicit
  shard size \<^verbatim>\<open>main\<close> reports success and writes no file, so none of its tensors is in any
  shard.
\<close>
theorem no_layers_no_shards:
  assumes "well_formed d ver kvs ts body"
    and "fs (model a) = Some (source ver kvs ts body)"
    and "\<not> list_tensors a" and "split_files a"
    and "count_layers oc ts = Val 0"
    and "choose_layers_per_shard json_layers fs a 0 = Val lps" and "lps \<noteq> 0"
    and "creatable (output_dir a)"
  shows "splitter_main d oc json_layers render_plan creatable space a fs = (fs, Val (Written 0))"
  using assms by (rule splitter_main_no_layers)

theorem no_layers_no_shards_witness:
  "splitter_main 3 True (\<lambda>_. None) (\<lambda>_. []) (\<lambda>_. True) (\<lambda>_ _. None) demo_args
      [''m.gguf'' \<mapsto> source 3 demo_kvs [hd demo_tensors] demo_body] =
    ([''m.gguf'' \<mapsto> source 3 demo_kvs [hd demo_tensors] demo_body], Val (Written 0))"
proof (rule no_layers_no_shards [where lps = 1])
  have "list_all (good_tensor (length demo_body)) demo_tensors"
    "list_all (\<lambda>kv. wf_kv 3 kv \<and> utf8_valid (fst kv)) demo_kvs" "quiet_tail (meta_of demo_kvs)"
    using demo_well_formed by (simp_all add: well_formed_def)
  moreover have "length (source 3 demo_kvs [hd demo_tensors] demo_body) < 2 ^ 57"
    using demo_lengths(1,2)
    by (simp add: source_def length_image length_front round32_def demo_tensors_def enc_tensor_def)
  moreover have "demo_tensors \<noteq> []" by (simp add: demo_tensors_def)
  ultimately show "well_formed 3 3 demo_kvs [hd demo_tensors] demo_body"
    by (simp add: well_formed_def list_all_iff)
  show "count_layers True [hd demo_tensors] = Val 0" by code_simp
  show "choose_layers_per_shard (\<lambda>_. None) [''m.gguf'' \<mapsto> source 3 demo_kvs [hd demo_tensors] demo_body] demo_args 0 = Val 1"
    by (rule demo_run(4))
qed (simp_all add: demo_args_def)

text \<open>
  A node configuration whose \<^verbatim>\<open>layers_per_shard\<close> is a positive multiple of \<open>2 ^ 32\<close> is
  read as 0: the run ends with the error for a shard size of 0 and changes no file.
\<close>
theorem config_multiple_is_zero:
  assumes "well_formed d ver kvs ts body"
    and "fs (model a) = Some (source ver kvs ts body)" and "\<not> list_tensors a"
    and "count_layers oc ts = Val n"
    and "arg_layers_per_shard a = None" and "node_config a = Some path"
    and "fs path = Some content" and "utf8_valid content" and "json_layers content = Some (Some lps)"
    and "unat lps mod 2 ^ 32 = 0"
  shows "splitter_main d oc json_layers render_plan creatable space a fs = (fs, Fail ZeroLayersPerShard)"
proof -
  have "unat (ucast lps :: u32) = 0" using assms(10) by (simp add: unsigned_ucast_eq take_bit_eq_mod)
  then have "(ucast lps :: u32) = 0" by (simp add: unat_eq_zero)
  with assms show ?thesis
    by (simp add: splitter_main_def parse_source [OF assms(1)] source_reads(1,2) [OF assms(1)]
        choose_layers_per_shard_def calculate_from_node_config_def)
qed

theorem config_multiple_is_zero_witness:
  "splitter_main 3 False (\<lambda>_. Some (Some 4294967296)) (\<lambda>_. []) (\<lambda>_. True) (\<lambda>_ _. None)
      (demo_args\<lparr>arg_layers_per_shard := None, node_config := Some ''n.json''\<rparr>)
      (demo_files(''n.json'' \<mapsto> ''{}'')) = (demo_files(''n.json'' \<mapsto> ''{}''), Fail ZeroLayersPerShard)"
proof -
  have m: "unat (4294967296 :: u64) mod 2 ^ 32 = 0" "utf8_valid ''{}''" by code_simp+
  from demo_run(8) have "(demo_files(''n.json'' \<mapsto> ''{}'')) ''m.gguf'' = Some (source 3 demo_kvs demo_tensors demo_body)"
    by (simp add: demo_args_def)
  then show ?thesis
    by (intro config_multiple_is_zero [where content = "''{}''" and path = "''n.json''",
          OF demo_well_formed _ _ demo_run(1) _ _ _ m(2) _ m(1)])
      (simp_all add: demo_args_def)
qed

text \<open>
  C22: Whatever the bytes, a file that is parsed has the magic number and is well typed: the
  header's version and pair count are the ones reported, there are as many tensors as the
  header says, each with a UTF-8 name and as many dimensions as it declares, and the tensor
  data starts at a multiple of 32.
\<close>
theorem parsed_well_typed:
  assumes "parse_gguf d oc data = Val g"
  shows "24 \<le> length data \<and> u32_from_le (take 4 data) = 0x46554747 \<and>
    version g = u32_from_le (take 4 (drop 4 data)) \<and> kv_count g = u64_from_le (take 8 (drop 16 data)) \<and>
    length (tensors g) = unat (u64_from_le (take 8 (drop 8 data))) \<and>
    (\<forall>t \<in> set (tensors g). utf8_valid (name t) \<and> unat (n_dims t) = length (dims t)) \<and>
    32 dvd unat (data_start g)"
  using parse_gguf_Val [OF assms] by (simp add: ok_tensor_def)

theorem parsed_well_typed_witness:
  "\<exists>g. parse_gguf 3 True demo_source = Val g \<and> length (tensors g) = unat (u64_from_le (take 8 (drop 8 demo_source))) \<and>
     32 dvd unat (data_start g)"
proof -
  obtain g where g: "parse_gguf 3 True demo_source = Val g"
    using parse_source [OF demo_well_formed, of True] by (auto simp: demo_source_def)
  from parsed_well_typed [OF g] g show ?thesis by blast
qed

end
