(* ===== verification/Gguf_Plan.thy ===== *)
theory Gguf_Plan
  imports Gguf_Split
begin

text \<open>
  The plan that \<^verbatim>\<open>main\<close> writes without \<^verbatim>\<open>--split\<close>, against what \<^verbatim>\<open>--split\<close> does: the same
  files, and in each the tensors of the layers that the plan announces.
\<close>

section \<open>Tensors of a planned shard\<close>

text \<open>Whether a tensor belongs to the layers announced for a shard.\<close>

definition planned_for :: "shard_plan \<Rightarrow> tensor_info \<Rightarrow> bool" where
  "planned_for p t =
     (case get_layer_id (name t) of
        Some l \<Rightarrow> first_layer p \<le> l \<and> l \<le> last_layer p
      | None \<Rightarrow> has_lm_head p)"

lemma div_interval:
  fixes l q i n :: nat
  assumes "0 < q" and "l < n"
  shows "l div q = i \<longleftrightarrow> i * q \<le> l \<and> Suc l \<le> min (Suc i * q) n"
proof
  assume "l div q = i"
  then show "i * q \<le> l \<and> Suc l \<le> min (Suc i * q) n"
    using assms dividend_less_div_times [OF assms(1), of l] div_times_less_eq_dividend [of l q] by auto
next
  assume "i * q \<le> l \<and> Suc l \<le> min (Suc i * q) n"
  then show "l div q = i" by (intro div_nat_eqI) (auto simp: mult.commute)
qed

lemma shard_member_planned:
  assumes lps: "lps \<noteq> 0" "ranges_fit n lps" and i: "i < unat (num_shards_of n lps)"
    and r: "shard_range oc n lps (num_shards_of n lps) (word_of_nat i) = Val r"
    and n: "count_layers oc ts = Val n" "layers_in_range ts" and k: "k < length ts"
  shows "k \<in> set (shard_assignment n lps ts ! i) \<longleftrightarrow>
    planned_for (plan_shard bytes (num_shards_of n lps) (word_of_nat i) r) (ts ! k)"
proof -
  define num where "num = num_shards_of n lps"
  have u: "unat (word_of_nat i :: u32) = i" using i unat_lt_32 [of num] by (simp add: num_def)
  have lt: "(word_of_nat i :: u32) < num" using i u by (simp add: word_less_nat_alt num_def)
  obtain first lst where rng:
    "shard_range oc n lps num (word_of_nat i) = Val (first, lst, Suc i = unat num)"
    "unat first = i * unat lps" "Suc (unat lst) = min (Suc i * unat lps) (unat n)" "i * unat lps < unat n"
    using shard_range_eq [OF lps(2,1) lt [unfolded num_def], of oc] unfolding num_def u by metis
  have q: "0 < unat lps" using lps(1) by (simp add: unat_gt_0)
  have mem: "k \<in> set (shard_assignment n lps ts ! i) \<longleftrightarrow>
      shard_of (unat lps) (unat num) (slot_of (unat n) (ts ! k)) = i"
    using i k by (simp add: shard_assignment_def shard_members_def num_def Let_def)
  show ?thesis
  proof (cases "get_layer_id (name (ts ! k))")
    case None
    then show ?thesis
      using mem r rng(1) i by (auto simp: planned_for_def plan_shard_def slot_of_def num_def)
  next
    case (Some l)
    have l: "unat l < unat n" using count_layers_bound [OF n nth_mem [OF k] Some] .
    then show ?thesis
      using mem r rng Some div_interval [OF q l, of i]
      by (auto simp: planned_for_def plan_shard_def slot_of_def num_def word_le_nat_alt)
  qed
qed

lemma well_formed_layers: "well_formed d ver kvs ts body \<Longrightarrow> layers_in_range ts"
  by (auto simp: well_formed_def layers_in_range_def list_all_iff good_tensor_def)

text \<open>The entries of the plan.\<close>

lemma plan_entry:
  assumes "i < unat num" and "length ranges = unat num"
  shows "shards (plan_of a arch n lps num bytes ranges) ! i = plan_shard bytes num (word_of_nat i) (ranges ! i)"
  using assms by (simp add: plan_of_def)

section \<open>Property\<close>

text \<open>
  C11: The plan tells the truth about the split: on a well-formed source with layers, \<^verbatim>\<open>main\<close>
  without \<^verbatim>\<open>--split\<close> writes only the plan, and for every shard the plan names the file that
  \<^verbatim>\<open>--split\<close> writes, and announces layers and LM head such that the tensors of that file are
  exactly the tensors of these layers and, with the LM head, those of no layer.
\<close>

theorem plan_agrees_with_split:
  assumes "well_formed d ver kvs ts body"
    and "fs (model a) = Some (source ver kvs ts body)"
    and "\<not> list_tensors a" and "\<not> split_files a"
    and "count_layers oc ts = Val n"
    and "choose_layers_per_shard json_layers fs a n = Val lps" and "lps \<noteq> 0" and "ranges_fit n lps"
    and "creatable (output_dir a)" and "creatable (plan_path a)"
    and "\<And>plan. fits (space (fs(plan_path a \<mapsto> [])) (plan_path a)) (render_plan plan)"
  shows "\<exists>plan. splitter_main d oc json_layers render_plan creatable space a fs =
      (fs(plan_path a \<mapsto> render_plan plan), Val (Planned plan)) \<and>
    length (shards plan) = unat (num_shards_of n lps) \<and>
    (\<forall>i < unat (num_shards_of n lps).
      path_join (output_dir a) (filename (shards plan ! i)) = shard_path a (word_of_nat i) \<and>
      (\<forall>k < length ts. k \<in> set (shard_assignment n lps ts ! i) \<longleftrightarrow> planned_for (shards plan ! i) (ts ! k)))"
proof -
  define num where "num = num_shards_of n lps"
  obtain sizes where sizes: "compute_data_sizes oc ts (source_start ver kvs ts) (wlen (source ver kvs ts body)) = Val sizes"
    using source_reads(4) [OF assms(1)] by blast
  obtain r :: "u32 \<Rightarrow> u32 \<times> u32 \<times> bool" where r: "\<And>i. i < unat num \<Longrightarrow> shard_range oc n lps num (word_of_nat i) = Val (r (word_of_nat i))"
    and run: "splitter_main d oc json_layers render_plan creatable space a fs =
      write_plan creatable space render_plan a
        (plan_of a (lookup_string kvs ''general.architecture'') n lps num (wlen (source ver kvs ts body))
          (map (\<lambda>i. r (word_of_nat i)) [0..<unat num])) fs"
    unfolding num_def
    by (rule splitter_main_front [where fs = fs and a = a and creatable = creatable, OF assms(1-3,5-9) sizes])
      (use assms(4) in auto)
  define plan where "plan = plan_of a (lookup_string kvs ''general.architecture'') n lps num
    (wlen (source ver kvs ts body)) (map (\<lambda>i. r (word_of_nat i)) [0..<unat num])"
  have "splitter_main d oc json_layers render_plan creatable space a fs =
      (fs(plan_path a \<mapsto> render_plan plan), Val (Planned plan))"
    using assms(10,11) unfolding run plan_def [symmetric] by (simp add: write_plan_def write_all_def)
  moreover have "length (shards plan) = unat num" by (simp add: plan_def plan_of_def)
  moreover have "path_join (output_dir a) (filename (shards plan ! i)) = shard_path a (word_of_nat i) \<and>
      (\<forall>k < length ts. k \<in> set (shard_assignment n lps ts ! i) \<longleftrightarrow> planned_for (shards plan ! i) (ts ! k))"
    if i: "i < unat num" for i
  proof -
    have e: "shards plan ! i = plan_shard (wlen (source ver kvs ts body)) num (word_of_nat i) (r (word_of_nat i))"
      using plan_entry [OF i] i by (simp add: plan_def)
    then show ?thesis
      using shard_member_planned [OF assms(7,8) i [unfolded num_def] r [OF i, unfolded num_def] assms(5)
          well_formed_layers [OF assms(1)]]
      by (auto simp: num_def plan_shard_def shard_path_def split: prod.split)
  qed
  ultimately show ?thesis unfolding num_def by blast
qed

theorem plan_agrees_with_split_witness:
  "\<exists>plan. splitter_main 3 False (\<lambda>_. None) (\<lambda>_. ''{}'') (\<lambda>_. True) (\<lambda>_ _. Some 100)
      (demo_args\<lparr>split_files := False\<rparr>) demo_files = (demo_files(''out/split_plan.json'' \<mapsto> ''{}''), Val (Planned plan)) \<and>
    planned_for (shards plan ! 1) (demo_tensors ! 3)"
proof -
  let ?a = "demo_args\<lparr>split_files := False\<rparr>"
  have p: "plan_path ?a = ''out/split_plan.json''" by (simp add: plan_path_def path_join_def demo_args_def)
  have c: "choose_layers_per_shard (\<lambda>_. None) demo_files ?a 2 = Val 1"
    by (simp add: choose_layers_per_shard_def demo_args_def)
  have m: "demo_files (model ?a) = Some (source 3 demo_kvs demo_tensors demo_body)" "\<not> list_tensors ?a"
    using demo_run(8) by (simp_all add: demo_args_def)
  have l: "length demo_tensors = 4" by (simp add: demo_tensors_def)
  have u: "unat (num_shards_of 2 1) = 2" by (simp add: demo_run(3))
  from plan_agrees_with_split [where oc = False and creatable = "\<lambda>_. True" and
      space = "\<lambda>_ _. Some 100" and render_plan = "\<lambda>_. ''{}''", OF demo_well_formed m _ demo_run(1) c _ demo_run(2)]
  obtain plan where r: "splitter_main 3 False (\<lambda>_. None) (\<lambda>_. ''{}'') (\<lambda>_. True) (\<lambda>_ _. Some 100) ?a demo_files =
      (demo_files(''out/split_plan.json'' \<mapsto> ''{}''), Val (Planned plan))"
    "\<forall>i < 2. \<forall>k < length demo_tensors. k \<in> set (shard_assignment 2 1 demo_tensors ! i) \<longleftrightarrow>
      planned_for (shards plan ! i) (demo_tensors ! k)"
    by (auto simp: p u fits_def)
  have "planned_for (shards plan ! 1) (demo_tensors ! 3)"
    using r(2) [rule_format, of 1 3] by (simp add: l demo_assignment)
  with r(1) show ?thesis by blast
qed

end
