(* ===== verification/Node_Os.thy ===== *)
theory Node_Os
  imports Rust_Lines "HOL-Library.State_Monad"
begin

text \<open>
  The operating system as the node agent sees it. What the agent does to the system is a
  list of events, the files it wrote and the commands it ran; what the system answers, the
  contents of a file or the output of a command, is a parameter and may depend on everything
  that was done before. An operation of the agent is a state transformer on the list of
  events, written with the state monad of the library.

  \<open>does A m\<close> states that \<open>m\<close> only appends events that satisfy \<open>A\<close>; its rules (collection
  \<open>does_intros\<close>) follow the structure of the programs.
\<close>

section \<open>The system\<close>

text \<open>A file written (with the success of the call), a command started.\<close>

datatype event = Wrote string bytes bool | Ran string "string list"

text \<open>A command could not be started (with the error's text), or ended with its output.\<close>

datatype run_result = NotRun string | Exited bool bytes

record os =
  os_read :: "event list \<Rightarrow> string \<Rightarrow> bytes option"
  os_exists :: "event list \<Rightarrow> string \<Rightarrow> bool"
  os_dir :: "event list \<Rightarrow> string \<Rightarrow> string list option"
  os_write :: "event list \<Rightarrow> string \<Rightarrow> bytes \<Rightarrow> string option"
  os_run :: "event list \<Rightarrow> string \<Rightarrow> string list \<Rightarrow> run_result"

type_synonym 'a act = "(event list, 'a) state"

abbreviation ret :: "'a \<Rightarrow> 'a act" where
  "ret \<equiv> State_Monad.return"

text \<open>\<^verbatim>\<open>std::fs::read_to_string\<close>, \<^verbatim>\<open>Path::exists\<close> and \<^verbatim>\<open>std::fs::read_dir\<close>.\<close>

definition read_to_string :: "os \<Rightarrow> string \<Rightarrow> string option act" where
  "read_to_string os p =
     State (\<lambda>t. (case os_read os t p of
                   Some c \<Rightarrow> if utf8_valid c then Some c else None
                 | None \<Rightarrow> None, t))"

definition path_exists :: "os \<Rightarrow> string \<Rightarrow> bool act" where
  "path_exists os p = State (\<lambda>t. (os_exists os t p, t))"

definition read_dir :: "os \<Rightarrow> string \<Rightarrow> string list option act" where
  "read_dir os p = State (\<lambda>t. (os_dir os t p, t))"

text \<open>\<^verbatim>\<open>std::fs::write\<close>: the text of the error, or \<^const>\<open>None\<close>.\<close>

definition write_file :: "os \<Rightarrow> string \<Rightarrow> bytes \<Rightarrow> string option act" where
  "write_file os p b =
     State (\<lambda>t. let r = os_write os t p b in (r, t @ [Wrote p b (r = None)]))"

text \<open>\<^verbatim>\<open>Command::new(c).args(args).output()\<close>\<close>

definition command :: "os \<Rightarrow> string \<Rightarrow> string list \<Rightarrow> run_result act" where
  "command os c args = State (\<lambda>t. (os_run os t c args, t @ [Ran c args]))"

text \<open>\<^verbatim>\<open>.map(|o| o.status.success()).unwrap_or(false)\<close>\<close>

fun succeeded :: "run_result \<Rightarrow> bool" where
  "succeeded (NotRun e) = False"
| "succeeded (Exited ok out) = ok"

text \<open>The standard output as text, when the command could be started.\<close>

fun stdout_lossy :: "run_result \<Rightarrow> string option" where
  "stdout_lossy (NotRun e) = None"
| "stdout_lossy (Exited ok out) = Some (utf8_lossy out)"

text \<open>\<^verbatim>\<open>for x in xs\<close> over a mutable variable.\<close>

fun for_each :: "('a \<Rightarrow> 's \<Rightarrow> 's act) \<Rightarrow> 'a list \<Rightarrow> 's \<Rightarrow> 's act" where
  "for_each f [] s = ret s"
| "for_each f (x # xs) s = do { s' \<leftarrow> f x s; for_each f xs s' }"

section \<open>Frames\<close>

text \<open>Each event of the list satisfies \<open>A\<close> at the point of the history where it happens.\<close>

fun events_ok :: "(event list \<Rightarrow> event \<Rightarrow> bool) \<Rightarrow> event list \<Rightarrow> event list \<Rightarrow> bool" where
  "events_ok A t [] = True"
| "events_ok A t (e # es) = (A t e \<and> events_ok A (t @ [e]) es)"

definition does :: "(event list \<Rightarrow> event \<Rightarrow> bool) \<Rightarrow> 'a act \<Rightarrow> bool" where
  "does A m \<longleftrightarrow> (\<forall>t. \<exists>es. snd (run_state m t) = t @ es \<and> events_ok A t es)"

named_theorems does_intros \<open>the events an operation may append\<close>

lemma events_ok_append: "events_ok A t (es @ es') \<longleftrightarrow> events_ok A t es \<and> events_ok A (t @ es) es'"
  by (induction es arbitrary: t) auto

lemma events_ok_const: "events_ok (\<lambda>_. A) t es \<longleftrightarrow> list_all A es"
  by (induction es arbitrary: t) auto

lemma events_ok_mono: "events_ok A t es \<Longrightarrow> (\<And>u e. A u e \<Longrightarrow> B u e) \<Longrightarrow> events_ok B t es"
  by (induction es arbitrary: t) auto

lemma doesE:
  assumes "does A m" and "run_state m t = (x, t')"
  obtains es where "t' = t @ es" and "events_ok A t es"
  using assms by (metis does_def snd_conv)

lemma doesI:
  assumes "\<And>t x t'. run_state m t = (x, t') \<Longrightarrow> \<exists>es. t' = t @ es \<and> events_ok A t es"
  shows "does A m"
  using assms by (metis does_def prod.collapse)

lemma does_return [does_intros]: "does A (ret x)"
  by (rule doesI) simp

lemma does_bind [does_intros]:
  assumes "does A m" and "\<And>x. does A (f x)"
  shows "does A (m \<bind> f)"
proof (rule doesI)
  fix t y t'' assume r: "run_state (m \<bind> f) t = (y, t'')"
  obtain x t' where m: "run_state m t = (x, t')" by fastforce
  then obtain es where "t' = t @ es" "events_ok A t es" using assms(1) by (blast elim: doesE)
  moreover obtain es' where "t'' = t' @ es'" "events_ok A t' es'"
    using assms(2) [of x] r m by (auto elim: doesE)
  ultimately show "\<exists>es. t'' = t @ es \<and> events_ok A t es" by (auto simp: events_ok_append)
qed

lemma does_if [does_intros]: "(b \<Longrightarrow> does A m) \<Longrightarrow> (\<not> b \<Longrightarrow> does A n) \<Longrightarrow> does A (if b then m else n)"
  by simp

lemma does_option [does_intros]:
  "does A m \<Longrightarrow> (\<And>x. v = Some x \<Longrightarrow> does A (f x)) \<Longrightarrow> does A (case v of None \<Rightarrow> m | Some x \<Rightarrow> f x)"
  by (cases v) auto

lemma does_for_each [does_intros]:
  "(\<And>x s. x \<in> set xs \<Longrightarrow> does A (f x s)) \<Longrightarrow> does A (for_each f xs s)"
  by (induction xs arbitrary: s) (auto intro!: does_return does_bind)

lemma does_reads [does_intros]:
  "does A (read_to_string os p)" "does A (path_exists os p)" "does A (read_dir os p)"
  by (rule doesI; simp add: read_to_string_def path_exists_def read_dir_def)+

lemma does_write [does_intros]: "(\<And>t ok. A t (Wrote p b ok)) \<Longrightarrow> does A (write_file os p b)"
  by (rule doesI) (auto simp: write_file_def Let_def)

lemma does_command [does_intros]: "(\<And>t. A t (Ran c args)) \<Longrightarrow> does A (command os c args)"
  by (rule doesI) (auto simp: command_def)

lemma does_mono:
  assumes d: "does A m" and "\<And>t e. A t e \<Longrightarrow> B t e"
  shows "does B m"
proof (rule doesI)
  fix t x t' assume "run_state m t = (x, t')"
  with d obtain es where "t' = t @ es" "events_ok A t es" by (rule doesE)
  with assms(2) show "\<exists>es. t' = t @ es \<and> events_ok B t es" by (blast intro: events_ok_mono)
qed

text \<open>Every run of \<open>m\<close> returns a value with \<open>P\<close>.\<close>

definition gives :: "('a \<Rightarrow> bool) \<Rightarrow> 'a act \<Rightarrow> bool" where
  "gives P m \<longleftrightarrow> (\<forall>t. P (fst (run_state m t)))"

lemma gives_bind: "(\<And>x. gives P (f x)) \<Longrightarrow> gives P (m \<bind> f)"
  by (simp add: gives_def split: prod.split)

lemma gives_return: "P x \<Longrightarrow> gives P (ret x)"
  by (simp add: gives_def)

lemma gives_bind_from: "gives Q m \<Longrightarrow> (\<And>x. Q x \<Longrightarrow> gives P (f x)) \<Longrightarrow> gives P (m \<bind> f)"
  by (simp add: gives_def split: prod.split) (metis fst_conv)

section \<open>Files that read back what was written\<close>

text \<open>
  The documented behaviour of the numeric files of \<^verbatim>\<open>/proc/sys\<close>: after a successful write
  the file reads as what was written, with a line end.
\<close>

definition reads_back :: "os \<Rightarrow> string \<Rightarrow> bool" where
  "reads_back os p \<longleftrightarrow> (\<forall>t b. os_read os (t @ [Wrote p b True]) p = Some (b @ [newline]))"

end
