(* ===== verification/Rust_F64.thy ===== *)
theory Rust_F64
  imports Rust_Float Rust_Lines
begin

text \<open>
  Binary64 numbers as Rust's \<^verbatim>\<open>f64\<close> has them: rounding to nearest, ties to even, with
  subnormals and overflow, quotient and product, the parser \<^verbatim>\<open>parse::<f64>\<close>, and the
  saturating cast to \<^verbatim>\<open>u64\<close>. The lemmas are about numbers that are represented exactly:
  naturals below \<open>2 ^ 53\<close> and their products with powers of two.
\<close>

section \<open>Numbers and rounding\<close>

text \<open>\<open>Finite neg m e\<close> is \<open>m * 2 ^ e\<close> with its sign; \<open>m < 2 ^ 53\<close> and \<open>- 1074 \<le> e \<le> 971\<close>.\<close>

datatype f64 = Finite bool nat int | Infinite bool | NaN

abbreviation f64_zero :: f64 where
  "f64_zero \<equiv> Finite False 0 (- 1074)"

definition pow2 :: "int \<Rightarrow> nat" where
  "pow2 e = 2 ^ nat e"

text \<open>The exponent of the quotient \<open>a / b\<close>: the greatest \<open>t\<close> with \<open>2 ^ t \<le> a / b\<close>.\<close>

definition ratio_exp :: "nat \<Rightarrow> nat \<Rightarrow> int" where
  "ratio_exp a b =
     (let t = int (floorlog 2 a) - int (floorlog 2 b) in
      if b * pow2 t \<le> a * pow2 (- t) then t else t - 1)"

definition f64_round :: "bool \<Rightarrow> nat \<Rightarrow> nat \<Rightarrow> f64" where
  "f64_round neg a b =
     (if a = 0 then Finite neg 0 (- 1074)
      else
        let e = max (ratio_exp a b - 52) (- 1074);
            m = round_half_even (a * pow2 (- e)) (b * pow2 e);
            m' = (if m = 2 ^ 53 then 2 ^ 52 else m);
            e' = (if m = 2 ^ 53 then e + 1 else e)
        in if 971 < e' then Infinite neg else Finite neg m' e')"

fun f64_mul :: "f64 \<Rightarrow> f64 \<Rightarrow> f64" where
  "f64_mul (Finite s m e) (Finite s' m' e') =
     f64_round (s \<noteq> s') (m * m' * pow2 (e + e')) (pow2 (- (e + e')))"
| "f64_mul (Finite s m e) (Infinite s') = (if m = 0 then NaN else Infinite (s \<noteq> s'))"
| "f64_mul (Infinite s) (Finite s' m e) = (if m = 0 then NaN else Infinite (s \<noteq> s'))"
| "f64_mul (Infinite s) (Infinite s') = Infinite (s \<noteq> s')"
| "f64_mul NaN y = NaN"
| "f64_mul x NaN = NaN"

text \<open>Division by a positive finite number, the only divisors the program has.\<close>

fun f64_divide :: "f64 \<Rightarrow> nat \<Rightarrow> f64" where
  "f64_divide (Finite s m e) d = f64_round s (m * pow2 e) (d * pow2 (- e))"
| "f64_divide (Infinite s) d = Infinite s"
| "f64_divide NaN d = NaN"

text \<open>Sum and quotient of any two numbers; a sum is rounded once, from the exact value.\<close>

definition signed :: "bool \<Rightarrow> nat \<Rightarrow> int" where
  "signed neg m = (if neg then - int m else int m)"

fun f64_add :: "f64 \<Rightarrow> f64 \<Rightarrow> f64" where
  "f64_add (Finite s m e) (Finite s' m' e') =
     (let e0 = min e e'; n = signed s (m * pow2 (e - e0)) + signed s' (m' * pow2 (e' - e0)) in
      if n = 0 then Finite (s \<and> s') 0 (- 1074)
      else f64_round (n < 0) (nat \<bar>n\<bar> * pow2 e0) (pow2 (- e0)))"
| "f64_add (Finite s m e) (Infinite s') = Infinite s'"
| "f64_add (Infinite s) (Finite s' m e) = Infinite s"
| "f64_add (Infinite s) (Infinite s') = (if s = s' then Infinite s else NaN)"
| "f64_add NaN y = NaN"
| "f64_add x NaN = NaN"

fun f64_quotient :: "f64 \<Rightarrow> f64 \<Rightarrow> f64" where
  "f64_quotient (Finite s m e) (Finite s' m' e') =
     (if m' = 0 then (if m = 0 then NaN else Infinite (s \<noteq> s'))
      else f64_round (s \<noteq> s') (m * pow2 (e - e')) (m' * pow2 (e' - e)))"
| "f64_quotient (Finite s m e) (Infinite s') = Finite (s \<noteq> s') 0 (- 1074)"
| "f64_quotient (Infinite s) (Finite s' m e) = Infinite (s \<noteq> s')"
| "f64_quotient (Infinite s) (Infinite s') = NaN"
| "f64_quotient NaN y = NaN"
| "f64_quotient x NaN = NaN"

definition f64_of_nat :: "nat \<Rightarrow> f64" where
  "f64_of_nat n = f64_round False n 1"

text \<open>\<^verbatim>\<open>as u64\<close>: towards zero, saturating, and 0 for NaN.\<close>

fun f64_as_u64 :: "f64 \<Rightarrow> u64" where
  "f64_as_u64 (Finite s m e) =
     (let n = m * pow2 e div pow2 (- e) in
      if s then 0 else if n < 2 ^ 64 then word_of_nat n else - 1)"
| "f64_as_u64 (Infinite s) = (if s then 0 else - 1)"
| "f64_as_u64 NaN = 0"

section \<open>Parsing\<close>

definition is_digit :: "char \<Rightarrow> bool" where
  "is_digit c \<longleftrightarrow> 48 \<le> code c \<and> code c \<le> 57"

definition digits_val :: "string \<Rightarrow> nat" where
  "digits_val ds = foldl (\<lambda>n c. 10 * n + (code c - 48)) 0 ds"

text \<open>The exponent part: nothing, or \<^verbatim>\<open>e\<close> and a signed number.\<close>

definition parse_exponent :: "string \<Rightarrow> int option" where
  "parse_exponent s =
     (case s of
        [] \<Rightarrow> Some 0
      | c # r \<Rightarrow>
          if lower c \<noteq> CHR ''e'' then None
          else
            let neg = (r \<noteq> [] \<and> hd r = CHR ''-'');
                ds = (if r \<noteq> [] \<and> (hd r = CHR ''-'' \<or> hd r = CHR ''+'') then tl r else r)
            in if ds = [] \<or> \<not> list_all is_digit ds then None
               else Some (if neg then - int (digits_val ds) else int (digits_val ds)))"

text \<open>Digits with an optional point, at least one digit, and an optional exponent.\<close>

definition parse_number :: "bool \<Rightarrow> string \<Rightarrow> f64 option" where
  "parse_number neg s =
     (let whole = takeWhile is_digit s; r = dropWhile is_digit s;
          point = (r \<noteq> [] \<and> hd r = CHR ''.'');
          frac = (if point then takeWhile is_digit (tl r) else []);
          rest = (if point then dropWhile is_digit (tl r) else r)
      in if whole = [] \<and> frac = [] then None
         else
           case parse_exponent rest of
             None \<Rightarrow> None
           | Some x \<Rightarrow>
               let e = x - int (length frac)
               in Some (f64_round neg (digits_val (whole @ frac) * 10 ^ nat e) (10 ^ nat (- e))))"

definition parse_f64 :: "string \<Rightarrow> f64 option" where
  "parse_f64 s =
     (let neg = (s \<noteq> [] \<and> hd s = CHR ''-'');
          r = (if s \<noteq> [] \<and> (hd s = CHR ''-'' \<or> hd s = CHR ''+'') then tl s else s);
          l = map lower r
      in if l = ''nan'' then Some NaN
         else if l = ''inf'' \<or> l = ''infinity'' then Some (Infinite neg)
         else parse_number neg r)"

section \<open>Exact numbers\<close>

lemma floorlog_eq: "2 ^ k \<le> n \<Longrightarrow> n < 2 ^ Suc k \<Longrightarrow> floorlog 2 n = Suc k" for n :: nat
proof -
  assume n: "2 ^ k \<le> n" "n < 2 ^ Suc k"
  then have "0 < n" by (metis less_le_trans pos2 zero_less_power)
  with n floorlog_bounds [of n 2] have b: "2 ^ (floorlog 2 n - 1) \<le> n" "n < 2 ^ floorlog 2 n" by auto
  have lt: "i < j" if "(2 :: nat) ^ i < 2 ^ j" for i j
    using that by (rule power_less_imp_less_exp [rotated]) simp
  have "(2 :: nat) ^ k < 2 ^ floorlog 2 n" "(2 :: nat) ^ (floorlog 2 n - 1) < 2 ^ Suc k" using n b by linarith+
  then have "k < floorlog 2 n" "floorlog 2 n - 1 < Suc k" using lt by blast+
  then show ?thesis by simp
qed

lemma pow2_nat [simp]: "pow2 (int k) = 2 ^ k" "pow2 (- int k) = 1" "0 \<le> e \<Longrightarrow> pow2 (- e) = 1"
  by (simp_all add: pow2_def)

text \<open>A number with a 53-bit significand keeps it.\<close>

lemma f64_round_exact:
  assumes m: "2 ^ 52 \<le> m" "m < 2 ^ 53" and eq: "a * 2 ^ q = m * 2 ^ p * 2 ^ r"
    and e: "- 1074 \<le> int p - int q" "int p - int q \<le> 971"
  shows "f64_round neg a (2 ^ r) = Finite neg m (int p - int q)"
proof -
  let ?e = "int p - int q"
  have a0: "0 < a" using eq m by (cases "a = 0") auto
  have fl2: "floorlog 2 ((2 :: nat) ^ j) = Suc j" for j by (rule floorlog_eq) auto
  have flm: "floorlog 2 (a * 2 ^ q) = 53 + p + r"
  proof -
    have "(2 :: nat) ^ (52 + p + r) \<le> m * 2 ^ p * 2 ^ r" using m(1) by (simp add: power_add)
    moreover have "m * 2 ^ p * 2 ^ r < 2 ^ Suc (52 + p + r)" using m(2) by (simp add: power_add)
    ultimately show ?thesis unfolding eq by (subst floorlog_eq [of "52 + p + r"]) auto
  qed
  have fla: "floorlog 2 (a * 2 ^ q) = floorlog 2 a + q"
  proof -
    have b: "2 ^ (floorlog 2 a - 1) \<le> a" "a < 2 ^ floorlog 2 a" using floorlog_bounds [of a 2] a0 by auto
    have pos: "0 < floorlog 2 a" using b a0 by (cases "floorlog 2 a") auto
    have "2 ^ (floorlog 2 a - 1 + q) \<le> a * 2 ^ q" using b by (simp add: power_add)
    moreover have "a * 2 ^ q < 2 ^ Suc (floorlog 2 a - 1 + q)" using b pos by (simp add: power_add)
    ultimately show ?thesis using pos by (subst floorlog_eq [of "floorlog 2 a - 1 + q"]) auto
  qed
  define t where "t = int (floorlog 2 a) - int (floorlog 2 ((2 :: nat) ^ r))"
  have t: "t = 52 + ?e" using flm fla by (simp add: t_def fl2)
  have scale: "a * 2 ^ q * 2 ^ k = m * 2 ^ p * 2 ^ r * 2 ^ k" for k using eq by simp
  have ge: "2 ^ r * pow2 t \<le> a * pow2 (- t)"
  proof -
    have "2 ^ q * (2 ^ r * pow2 t) \<le> 2 ^ q * (a * pow2 (- t))"
    proof (cases "0 \<le> t")
      case True
      then have "2 ^ q * pow2 t = 2 ^ (52 + p)"
        unfolding pow2_def power_add [symmetric] using t by (intro arg_cong [where f = "(^) 2"]) auto
      then have "2 ^ q * (2 ^ r * pow2 t) = 2 ^ 52 * (2 ^ p * 2 ^ r)" by (simp add: power_add algebra_simps)
      also have "\<dots> \<le> m * (2 ^ p * 2 ^ r)" using m(1) by simp
      finally show ?thesis using True eq by (simp add: algebra_simps)
    next
      case False
      then have "52 + p + nat (- t) = q" using t by auto
      then have "2 ^ q * (2 ^ r * pow2 t) = 2 ^ 52 * (2 ^ p * 2 ^ r * 2 ^ nat (- t))"
        using False by (auto simp: pow2_def power_add algebra_simps)
      also have "\<dots> \<le> m * (2 ^ p * 2 ^ r * 2 ^ nat (- t))" using m(1) by simp
      also have "\<dots> = 2 ^ q * (a * pow2 (- t))" using eq by (simp add: pow2_def algebra_simps)
      finally show ?thesis .
    qed
    then show ?thesis by simp
  qed
  have re: "ratio_exp a (2 ^ r) - 52 = ?e"
    using ge t by (simp add: ratio_exp_def Let_def t_def [symmetric])
  have "a * pow2 (- ?e) = m * (2 ^ r * pow2 ?e)"
  proof -
    have "2 ^ q * (a * pow2 (- ?e)) = 2 ^ q * (m * (2 ^ r * pow2 ?e))"
    proof (cases "q \<le> p")
      case True
      then have "2 ^ q * pow2 ?e = 2 ^ p" by (simp add: pow2_def power_add [symmetric] nat_diff_distrib)
      then have "m * 2 ^ r * (2 ^ q * pow2 ?e) = a * 2 ^ q" using eq by (simp add: algebra_simps)
      moreover have "pow2 (- ?e) = 1" using True by (simp add: pow2_def)
      ultimately show ?thesis by (simp add: algebra_simps)
    next
      case False
      then have "p + nat (- ?e) = q" by auto
      then have "2 ^ p * pow2 (- ?e) = 2 ^ q" unfolding pow2_def power_add [symmetric] by simp
      moreover have "2 ^ q * (a * pow2 (- ?e)) = m * 2 ^ r * (2 ^ p * pow2 (- ?e))" using eq by (simp add: algebra_simps)
      ultimately show ?thesis using False by (simp add: pow2_def algebra_simps)
    qed
    then show ?thesis by simp
  qed
  then have "round_half_even (a * pow2 (- ?e)) (2 ^ r * pow2 ?e) = m"
    by (simp add: round_half_even_exact pow2_def)
  then show ?thesis
    using a0 m e by (simp add: f64_round_def re Let_def max_def)
qed

text \<open>A natural below \<open>2 ^ 53\<close> as its significand and exponent.\<close>

lemma nat_significand:
  assumes "0 < n" and "n < 2 ^ 53"
  obtains m q where "2 ^ 52 \<le> m" "m < 2 ^ 53" "m = n * 2 ^ q" "q \<le> 52" "f64_of_nat n = Finite False m (- int q)"
proof -
  define L where "L = floorlog 2 n"
  have b: "2 ^ (L - 1) \<le> n" "n < 2 ^ L" using floorlog_bounds [of n 2] assms(1) by (auto simp: L_def)
  have "0 < L" using b assms(1) by (cases L) auto
  have "L \<le> 53"
  proof (rule ccontr)
    assume "\<not> L \<le> 53"
    then have "(2 :: nat) ^ 53 \<le> 2 ^ (L - 1)" by (intro power_increasing) auto
    with b assms(2) show False by simp
  qed
  define q where "q = 53 - L"
  have "2 ^ (L - 1) * 2 ^ q \<le> n * 2 ^ q" "n * 2 ^ q < 2 ^ L * 2 ^ q" using b by simp_all
  then have m: "2 ^ 52 \<le> n * 2 ^ q" "n * 2 ^ q < 2 ^ 53"
    using \<open>0 < L\<close> \<open>L \<le> 53\<close> by (simp_all only: power_add [symmetric] q_def) simp_all
  moreover have "f64_of_nat n = Finite False (n * 2 ^ q) (- int q)"
    using f64_round_exact [OF m, of n q 0 0 False] \<open>0 < L\<close> by (simp add: f64_of_nat_def q_def)
  ultimately show ?thesis using that \<open>0 < L\<close> by (auto simp: q_def)
qed

text \<open>A product of two exact powers: the significand stays, the exponents add up.\<close>

lemma f64_mul_pow2:
  assumes m: "2 ^ 52 \<le> m" "m < 2 ^ 53" and e: "- 1000 \<le> e" "e \<le> 900" and k: "k \<le> 52"
  shows "f64_mul (Finite neg m e) (Finite False (2 ^ 52) (int k - 52)) = Finite neg m (e + int k)"
proof -
  define x where "x = e + (int k - 52)"
  define p where "p = nat (e + int k)"
  define q where "q = nat (- (e + int k))"
  define r where "r = nat (- x)"
  have pq: "int p - int q = e + int k" by (simp add: p_def q_def)
  have ex: "nat x + q + 52 = p + r" using k by (auto simp: p_def q_def r_def x_def)
  have "m * 2 ^ 52 * pow2 x * 2 ^ q = m * (2 ^ (nat x + q + 52))" by (simp add: pow2_def power_add)
  also have "\<dots> = m * 2 ^ p * 2 ^ r" by (simp only: ex power_add mult.assoc)
  finally have eq: "m * 2 ^ 52 * pow2 x * 2 ^ q = m * 2 ^ p * 2 ^ r" .
  have "f64_round neg (m * 2 ^ 52 * pow2 x) (2 ^ r) = Finite neg m (int p - int q)"
    by (rule f64_round_exact [OF m eq]) (use e k pq in auto)
  moreover have "pow2 (- x) = 2 ^ r" by (simp add: pow2_def r_def)
  ultimately show ?thesis by (simp add: pq x_def [symmetric])
qed

section \<open>Printed naturals\<close>

lemma digits_val_dec: "digits_val (dec n) = n"
proof (induction n rule: dec.induct)
  case (1 n)
  then show ?case
    by (subst dec.simps) (auto simp: digits_val_def code_digit_char)
qed

lemma lower_dec: "map lower (dec n) = dec n"
  by (auto intro!: map_idI simp: lower_def dest: dec_digits)

lemma digits_dec: "takeWhile is_digit (dec n) = dec n" "dropWhile is_digit (dec n) = []"
  using dec_digits [of _ n] by (auto simp: is_digit_def takeWhile_eq_all_conv dropWhile_eq_Nil_conv)

lemma parse_f64_dec: "parse_f64 (dec n) = Some (f64_of_nat n)"
proof -
  obtain c cs where d: "dec n = c # cs" by (cases "dec n") auto
  then have c: "48 \<le> code c" "code c \<le> 57" using dec_digits [of c n] by auto
  then have "c \<noteq> CHR ''-''" "c \<noteq> CHR ''+''" "c \<noteq> CHR ''n''" "c \<noteq> CHR ''i''" by auto
  then have "parse_f64 (dec n) = parse_number False (dec n)"
    unfolding parse_f64_def Let_def using d lower_dec [of n] by auto
  also have "\<dots> = Some (f64_of_nat n)"
    by (simp add: parse_number_def digits_dec parse_exponent_def digits_val_dec f64_of_nat_def)
  finally show ?thesis .
qed

lemma f64_of_nat_1024: "f64_of_nat 1024 = Finite False (2 ^ 52) (int 10 - 52)"
  using f64_round_exact [of "2 ^ 52" 1024 42 0 0 False] by (simp add: f64_of_nat_def)

lemma f64_as_u64_nat:
  assumes "m = n * 2 ^ q" and "n * 2 ^ k < 2 ^ 64"
  shows "f64_as_u64 (Finite False m (int k - int q)) = word_of_nat (n * 2 ^ k)"
proof -
  have "m * pow2 (int k - int q) div pow2 (- (int k - int q)) = n * 2 ^ k"
  proof (cases "q \<le> k")
    case True
    then have "(2 :: nat) ^ k = 2 ^ q * 2 ^ (k - q)" by (simp add: power_add [symmetric])
    then show ?thesis using True assms(1) by (simp add: pow2_def nat_diff_distrib)
  next
    case False
    then have "(2 :: nat) ^ q = 2 ^ k * 2 ^ (q - k)" by (simp add: power_add [symmetric])
    then show ?thesis using False assms(1) by (simp add: pow2_def nat_diff_distrib)
  qed
  with assms(2) show ?thesis by (simp add: Let_def)
qed

end
