(* ===== verification/Node_Overclock.thy ===== *)
theory Node_Overclock
  imports Node_Os Rust_F64
begin

text \<open>
  The performance modes and their monitor (\<^verbatim>\<open>node-agent/src/overclocking/\<close>): safe tuning,
  aggressive tuning, which starts with the safe one and goes on with vendor tools, and the
  status read from sensors. The lemmas bound what the modes do to the system and show what
  their messages do not tell.
\<close>

section \<open>safe.rs\<close>

abbreviation no_turbo :: string where
  "no_turbo \<equiv> ''/sys/devices/system/cpu/intel_pstate/no_turbo''"

definition apply_safe_tuning :: "os \<Rightarrow> (string + string) act" where
  "apply_safe_tuning os = do {
     governor \<leftarrow> command os ''cpupower'' [''frequency-set'', ''-g'', ''performance''];
     let changes = (if succeeded governor
                    then [''CPU governor '' @ [CHR 0xE2, CHR 0x86, CHR 0x92] @ '' performance''] else []);
     turbo \<leftarrow> read_to_string os no_turbo;
     changes \<leftarrow> (case turbo of
         None \<Rightarrow> ret changes
       | Some content \<Rightarrow>
           if trim content = ''0'' then do {
             ignored \<leftarrow> write_file os no_turbo ''1'';
             ret (changes @ [''Turbo boost disabled''])
           }
           else ret changes);
     ignored \<leftarrow> write_file os ''/sys/devices/system/cpu/intel_pstate/max_perf_pct'' ''100'';
     ret (Inr (''Applied safe tuning: '' @ join '', '' changes))
   }"

section \<open>aggressive.rs\<close>

definition undervolt :: "os \<Rightarrow> string list \<Rightarrow> string list act" where
  "undervolt os changes = do {
     probe \<leftarrow> command os ''intel-undervolt'' [''read''];
     if succeeded probe then do {
       core \<leftarrow> command os ''intel-undervolt'' [''core'', ''-50''];
       let changes = (if succeeded core then changes @ [''CPU undervolt -50mV (core)''] else changes);
       ignored \<leftarrow> command os ''intel-undervolt'' [''cache'', ''-50''];
       ignored \<leftarrow> command os ''intel-undervolt'' [''apply''];
       ret (changes @ [''CPU undervolt -50mV (cache)''])
     }
     else ret changes
   }"

definition ryzen_limit :: "os \<Rightarrow> string list \<Rightarrow> string list act" where
  "ryzen_limit os changes = do {
     probe \<leftarrow> command os ''ryzenadj'' [''-i''];
     if succeeded probe then do {
       ignored \<leftarrow> command os ''ryzenadj'' [''--stapm-limit'', ''35000''];
       ret (changes @ [''Ryzen TDP increased to 35W''])
     }
     else ret changes
   }"

definition nvidia_clocks :: "os \<Rightarrow> string list \<Rightarrow> string list act" where
  "nvidia_clocks os changes = do {
     probe \<leftarrow> command os ''nvidia-smi'' [];
     if succeeded probe then do {
       ignored \<leftarrow> command os ''nvidia-smi'' [''-pl'', ''150''];
       ignored \<leftarrow> command os ''nvidia-smi'' [''-lgc'', ''1500,1900''];
       ret (changes @ [''NVIDIA GPU: power limit + clock locked''])
     }
     else ret changes
   }"

definition apply_aggressive_tuning :: "os \<Rightarrow> (string + string) act" where
  "apply_aggressive_tuning os = do {
     ignored \<leftarrow> apply_safe_tuning os;
     changes \<leftarrow> undervolt os [];
     changes \<leftarrow> ryzen_limit os changes;
     changes \<leftarrow> nvidia_clocks os changes;
     ret (Inr (''Applied aggressive tuning: '' @ join '', '' changes))
   }"

section \<open>monitor.rs\<close>

text \<open>The loop over the temperature files, which returns at the first that parses.\<close>

fun first_temperature :: "os \<Rightarrow> string list \<Rightarrow> f64 option act" where
  "first_temperature os [] = ret None"
| "first_temperature os (p # ps) = do {
     content \<leftarrow> read_to_string os p;
     (case content of
        None \<Rightarrow> first_temperature os ps
      | Some c \<Rightarrow>
          (case parse_f64 (trim c) of
             Some x \<Rightarrow> ret (Some (f64_divide x 1000))
           | None \<Rightarrow> first_temperature os ps))
   }"

definition sensors_line :: "string \<Rightarrow> f64 option" where
  "sensors_line line =
     (if contains line ''_input:'' then
        (case nth_opt (split_on CHR '':'' line) 1 of
           Some v \<Rightarrow> parse_f64 (trim v)
         | None \<Rightarrow> None)
      else None)"

definition measure_temperature :: "os \<Rightarrow> f64 act" where
  "measure_temperature os = do {
     t \<leftarrow> first_temperature os
       [''/sys/class/thermal/thermal_zone0/temp'', ''/sys/class/hwmon/hwmon0/temp1_input'',
        ''/sys/class/hwmon/hwmon1/temp1_input''];
     case t of
       Some x \<Rightarrow> ret x
     | None \<Rightarrow> do {
         out \<leftarrow> command os ''sensors'' [''-u''];
         ret (case stdout_lossy out of
                None \<Rightarrow> f64_zero
              | Some s \<Rightarrow> (case find_map sensors_line (str_lines s) of Some x \<Rightarrow> x | None \<Rightarrow> f64_zero))
       }
   }"

definition check_throttling :: "os \<Rightarrow> bool act" where
  "check_throttling os = do {
     c \<leftarrow> read_to_string os ''/sys/devices/system/cpu/cpu0/thermal_throttle/core_throttle_count'';
     ret (case c of
            None \<Rightarrow> False
          | Some c \<Rightarrow> (case parse_u64 (trim c) of Some n \<Rightarrow> 0 < n | None \<Rightarrow> False))
   }"

definition read_cpu_freq :: "os \<Rightarrow> f64 act" where
  "read_cpu_freq os = do {
     c \<leftarrow> read_to_string os ''/sys/devices/system/cpu/cpu0/cpufreq/scaling_cur_freq'';
     ret (case c of
            None \<Rightarrow> f64_zero
          | Some c \<Rightarrow> (case parse_f64 (trim c) of Some khz \<Rightarrow> f64_divide khz 1000000 | None \<Rightarrow> f64_zero))
   }"

definition read_gpu_freq :: "os \<Rightarrow> f64 act" where
  "read_gpu_freq os = do {
     out \<leftarrow> command os ''nvidia-smi'' [''--query-gpu=clocks.current.graphics'', ''--format=csv,noheader''];
     ret (case stdout_lossy out of
            None \<Rightarrow> f64_zero
          | Some s \<Rightarrow>
              (case str_lines s of
                 [] \<Rightarrow> f64_zero
               | line # _ \<Rightarrow>
                   (case parse_f64 (trim_end_matches (trim line) '' MHz'') of
                      Some mhz \<Rightarrow> mhz
                    | None \<Rightarrow> f64_zero)))
   }"

record overclocking_status =
  current_mode :: string
  temperature_celsius :: f64
  is_throttling :: bool
  cpu_freq_ghz :: f64
  gpu_freq_mhz :: f64
  uptime_seconds :: u64

definition get_status :: "os \<Rightarrow> overclocking_status act" where
  "get_status os = do {
     temperature \<leftarrow> measure_temperature os;
     throttling \<leftarrow> check_throttling os;
     cpu_freq \<leftarrow> read_cpu_freq os;
     gpu_freq \<leftarrow> read_gpu_freq os;
     ret \<lparr>current_mode = [], temperature_celsius = temperature, is_throttling = throttling,
          cpu_freq_ghz = cpu_freq, gpu_freq_mhz = gpu_freq, uptime_seconds = 0\<rparr>
   }"

section \<open>What the modes do\<close>

fun safe_event :: "event \<Rightarrow> bool" where
  "safe_event (Ran c args) = (c = ''cpupower'' \<and> args = [''frequency-set'', ''-g'', ''performance''])"
| "safe_event (Wrote p b ok) =
     ((p = no_turbo \<and> b = ''1'') \<or> (p = ''/sys/devices/system/cpu/intel_pstate/max_perf_pct'' \<and> b = ''100''))"

fun vendor_event :: "event \<Rightarrow> bool" where
  "vendor_event (Ran c args) = (c \<in> {''intel-undervolt'', ''ryzenadj'', ''nvidia-smi''})"
| "vendor_event (Wrote p b ok) = False"

lemma does_safe: "does (\<lambda>_. safe_event) (apply_safe_tuning os)"
  unfolding apply_safe_tuning_def Let_def by (intro does_intros) auto

lemma does_vendor [does_intros]:
  "does (\<lambda>_. vendor_event) (undervolt os cs)" "does (\<lambda>_. vendor_event) (ryzen_limit os cs)"
  "does (\<lambda>_. vendor_event) (nvidia_clocks os cs)"
  unfolding undervolt_def ryzen_limit_def nvidia_clocks_def Let_def by (intro does_intros; simp)+

text \<open>Reading the status changes nothing: only the two read-only tools are run.\<close>

lemma does_first_temperature [does_intros]: "does A (first_temperature os ps)"
  by (induction ps) (auto intro!: does_intros)

lemma does_status:
  "does (\<lambda>_ e. e \<in> {Ran ''sensors'' [''-u''],
     Ran ''nvidia-smi'' [''--query-gpu=clocks.current.graphics'', ''--format=csv,noheader'']}) (get_status os)"
  unfolding get_status_def measure_temperature_def check_throttling_def read_cpu_freq_def read_gpu_freq_def
  by (intro does_intros) auto

section \<open>Properties\<close>

text \<open>
  Aggressive tuning is safe tuning followed by vendor tools: its effects are exactly
  those of safe tuning, which only sets the governor, switches turbo boost off and raises the
  performance limit, and then only runs of \<^verbatim>\<open>intel-undervolt\<close>, \<^verbatim>\<open>ryzenadj\<close> and
  \<^verbatim>\<open>nvidia-smi\<close>; it never fails.
\<close>
theorem aggressive_extends_safe:
  "\<exists>es es' msg. snd (run_state (apply_safe_tuning os) t) = t @ es \<and> list_all safe_event es \<and>
     run_state (apply_aggressive_tuning os) t = (Inr msg, t @ es @ es') \<and> list_all vendor_event es'"
proof -
  obtain r u where s: "run_state (apply_safe_tuning os) t = (r, u)" by fastforce
  then obtain es where es: "u = t @ es" "list_all safe_event es"
    using does_safe [of os] by (auto elim: doesE simp: events_ok_const)
  define rest where "rest = do {
     changes \<leftarrow> undervolt os [];
     changes \<leftarrow> ryzen_limit os changes;
     changes \<leftarrow> nvidia_clocks os changes;
     ret (Inr (''Applied aggressive tuning: '' @ join '', '' changes) :: string + string)
   }"
  have "does (\<lambda>_. vendor_event) rest" unfolding rest_def by (intro does_intros)
  then obtain es' where es': "snd (run_state rest u) = u @ es'" "list_all vendor_event es'"
    by (auto simp: does_def events_ok_const)
  have "\<exists>msg. fst (run_state rest u) = Inr msg" by (auto simp: rest_def split: prod.split)
  moreover have "run_state (apply_aggressive_tuning os) t = run_state rest u"
    by (simp add: apply_aggressive_tuning_def rest_def s)
  ultimately show ?thesis using s es es' by (metis append_assoc prod.collapse snd_conv)
qed

text \<open>A machine with turbo boost on, where nothing may be written and no tool is installed.\<close>

definition locked_os :: os where
  "locked_os =
     \<lparr>os_read = (\<lambda>t p. if p = no_turbo then Some (''0'' @ [newline]) else None),
      os_exists = (\<lambda>t p. False), os_dir = (\<lambda>t p. None), os_write = (\<lambda>t p b. Some ''Permission denied (os error 13)''),
      os_run = (\<lambda>t c args. NotRun ''No such file or directory (os error 2)'')\<rparr>"

text \<open>
  The message of safe tuning claims what was not done: on a machine where every write
  fails, it says that turbo boost was disabled, although nothing was changed.
\<close>
theorem safe_claims_failed_write:
  "run_state (apply_safe_tuning locked_os) [] =
     (Inr ''Applied safe tuning: Turbo boost disabled'',
      [Ran ''cpupower'' [''frequency-set'', ''-g'', ''performance''], Wrote no_turbo ''1'' False,
       Wrote ''/sys/devices/system/cpu/intel_pstate/max_perf_pct'' ''100'' False])"
proof -
  have "utf8_valid (''0'' @ [newline])" "trim (''0'' @ [newline]) = ''0''" by code_simp+
  then show ?thesis
    by (simp add: apply_safe_tuning_def command_def read_to_string_def write_file_def locked_os_def Let_def)
qed

end
