(* ===== verification/Node_Drivers.thy ===== *)
theory Node_Drivers
  imports Node_Os
begin

text \<open>
  The driver audit (\<^verbatim>\<open>node-agent/src/drivers/check.rs\<close>): the NVIDIA, AMD and Intel checks,
  the firmware messages, and the report with its recommendations. The properties show that
  the audit only looks, and that its recommendations for AMD are unreachable.
\<close>

section \<open>The checks\<close>

record driver_info =
  device :: string
  current_driver :: string
  latest_available :: string
  status :: string
  recommendation :: string

record driver_report =
  drivers :: "driver_info list"
  missing_firmware :: "string list"
  recommendations :: "string list"
  up_to_date :: bool

text \<open>The dash of the messages, in UTF-8.\<close>

definition dash :: string where
  "dash = [CHR 0xE2, CHR 0x80, CHR 0x94]"

definition nouveau_info :: driver_info where
  "nouveau_info =
     \<lparr>device = ''NVIDIA GPU'', current_driver = ''nouveau (open source)'', latest_available = ''nvidia-550'',
      status = ''nouveau'', recommendation = ''Install proprietary driver for 2-5x faster inference''\<rparr>"

definition check_nouveau :: "os \<Rightarrow> driver_info option act" where
  "check_nouveau os = do {
     out \<leftarrow> command os ''lsmod'' [];
     ret (case stdout_lossy out of
            None \<Rightarrow> None
          | Some s \<Rightarrow> if contains s ''nouveau'' then Some nouveau_info else None)
   }"

definition check_nvidia :: "os \<Rightarrow> driver_info option act" where
  "check_nvidia os = do {
     out \<leftarrow> command os ''nvidia-smi'' [''--query-gpu=driver_version'', ''--format=csv,noheader''];
     (case out of
        NotRun e \<Rightarrow> check_nouveau os
      | Exited ok stdout \<Rightarrow>
          if ok then
            let version = trim (case str_lines (utf8_lossy stdout) of l # _ \<Rightarrow> l | [] \<Rightarrow> ''unknown'') in
            ret (Some \<lparr>device = ''NVIDIA GPU'', current_driver = ''nvidia ('' @ version @ '')'',
                       latest_available = ''550+'', status = ''proprietary'', recommendation = ''Up-to-date''\<rparr>)
          else check_nouveau os)
   }"

definition check_amd :: "os \<Rightarrow> driver_info option act" where
  "check_amd os = do {
     amdgpu \<leftarrow> path_exists os ''/sys/module/amdgpu'';
     radeon \<leftarrow> (if amdgpu then ret False else path_exists os ''/sys/module/radeon'');
     if \<not> amdgpu \<and> \<not> radeon then ret None
     else do {
       amdgpu \<leftarrow> path_exists os ''/sys/module/amdgpu'';
       if amdgpu then do {
         version \<leftarrow> read_to_string os ''/sys/module/amdgpu/version'';
         ret (Some \<lparr>device = ''AMD GPU'',
                    current_driver = ''amdgpu ('' @ trim (case version of Some v \<Rightarrow> v | None \<Rightarrow> ''kernel-builtin'') @ '')'',
                    latest_available = ''amdgpu (latest)'', status = ''open'',
                    recommendation = ''Good '' @ dash @ '' AMDGPU active''\<rparr>)
       }
       else
         ret (Some \<lparr>device = ''AMD GPU'', current_driver = ''radeon (legacy)'', latest_available = ''amdgpu'',
                    status = ''legacy'', recommendation = ''Switch to AMDGPU for 20-30% better performance''\<rparr>)
     }
   }"

definition check_intel :: "os \<Rightarrow> driver_info option act" where
  "check_intel os = do {
     i915 \<leftarrow> path_exists os ''/sys/module/i915'';
     ret (if i915 then
            Some \<lparr>device = ''Intel GPU'', current_driver = ''i915'', latest_available = ''i915'', status = ''open'',
                  recommendation = ''Intel iGPU '' @ dash @ '' limited performance for LLM''\<rparr>
          else None)
   }"

definition firmware_of_line :: "string \<Rightarrow> string list" where
  "firmware_of_line line =
     (if contains line ''firmware'' \<and> (contains line ''failed'' \<or> contains line ''missing'')
      then filter (\<lambda>part. contains part ''.bin'') (split_whitespace line)
      else [])"

definition check_missing_firmware :: "os \<Rightarrow> string list act" where
  "check_missing_firmware os = do {
     out \<leftarrow> command os ''dmesg'' [];
     ret (case stdout_lossy out of
            None \<Rightarrow> []
          | Some s \<Rightarrow> concat (map firmware_of_line (str_lines s)))
   }"

section \<open>The audit\<close>

definition nvidia_recommendation :: "driver_info \<Rightarrow> string list" where
  "nvidia_recommendation info =
     (if status info = ''proprietary'' then [''NVIDIA proprietary driver detected '' @ dash @ '' good'']
      else if status info = ''nouveau'' then
        [''Nouveau driver detected. Install NVIDIA proprietary driver for 2-5x faster inference: sudo apt install nvidia-driver-550'']
      else
        [''No NVIDIA driver found. If you have an NVIDIA GPU: sudo apt install nvidia-driver-550''])"

definition amd_recommendation :: "driver_info \<Rightarrow> string list" where
  "amd_recommendation info =
     (if current_driver info = ''amdgpu'' then [''AMDGPU driver active '' @ dash @ '' good'']
      else if current_driver info = ''radeon'' then
        [''Legacy Radeon driver detected. Switch to AMDGPU for better performance: add '' @
         [CHR 0x27] @ ''amdgpu.si_support=1 amdgpu.cik_support=1'' @ [CHR 0x27] @ '' to kernel cmdline'']
      else [])"

definition found :: "driver_info option \<Rightarrow> driver_info list" where
  "found i = (case i of Some info \<Rightarrow> [info] | None \<Rightarrow> [])"

definition audit :: "os \<Rightarrow> driver_report act" where
  "audit os = do {
     nvidia \<leftarrow> check_nvidia os;
     amd \<leftarrow> check_amd os;
     intel \<leftarrow> check_intel os;
     missing \<leftarrow> check_missing_firmware os;
     ret \<lparr>drivers = found nvidia @ found amd @ found intel,
          missing_firmware = missing,
          recommendations = concat (map nvidia_recommendation (found nvidia)) @ concat (map amd_recommendation (found amd)),
          up_to_date = True\<rparr>
   }"

section \<open>Lemmas\<close>

fun audit_event :: "event \<Rightarrow> bool" where
  "audit_event (Ran c args) =
     ((c = ''nvidia-smi'' \<and> args = [''--query-gpu=driver_version'', ''--format=csv,noheader'']) \<or>
      (c = ''lsmod'' \<and> args = []) \<or> (c = ''dmesg'' \<and> args = []))"
| "audit_event (Wrote p b ok) = False"

lemma does_check_nouveau [does_intros]: "does (\<lambda>_. audit_event) (check_nouveau os)"
  unfolding check_nouveau_def by (intro does_intros) simp

lemma does_run_result [does_intros]:
  "(\<And>e. does A (f e)) \<Longrightarrow> (\<And>ok out. does A (g ok out)) \<Longrightarrow>
     does A (case r of NotRun e \<Rightarrow> f e | Exited ok out \<Rightarrow> g ok out)"
  by (cases r) auto

lemma does_audit: "does (\<lambda>_. audit_event) (audit os)"
  unfolding audit_def check_nvidia_def check_amd_def check_intel_def check_missing_firmware_def Let_def
  by (intro does_intros) simp_all

text \<open>The driver strings of the AMD check carry a version or a remark.\<close>

lemma check_amd_driver:
  "run_state (check_amd os) t = (r, t') \<Longrightarrow> info \<in> set (found r) \<Longrightarrow> amd_recommendation info = []"
  by (auto simp: check_amd_def found_def amd_recommendation_def path_exists_def read_to_string_def
      split: if_splits)

lemma check_nvidia_status:
  "run_state (check_nvidia os) t = (r, t') \<Longrightarrow> info \<in> set (found r) \<Longrightarrow>
     status info = ''proprietary'' \<or> status info = ''nouveau''"
  by (auto simp: check_nvidia_def check_nouveau_def command_def found_def nouveau_info_def Let_def
      split: run_result.splits if_splits option.splits)

section \<open>Properties\<close>

text \<open>
  The audit only looks: it writes no file and runs only \<^verbatim>\<open>nvidia-smi\<close> with a query,
  \<^verbatim>\<open>lsmod\<close> and \<^verbatim>\<open>dmesg\<close>.
\<close>
theorem audit_only_looks:
  "\<exists>es. snd (run_state (audit os) t) = t @ es \<and> list_all audit_event es"
  using does_audit [of os] by (simp add: does_def events_ok_const)

text \<open>
  The recommendations for AMD are unreachable, whatever the system answers: the audit
  compares the driver with \<^verbatim>\<open>amdgpu\<close> and \<^verbatim>\<open>radeon\<close>, but the check always adds a version
  or \<^verbatim>\<open>(legacy)\<close>. All recommendations are those for NVIDIA, at most one, and never the one
  for a missing NVIDIA driver.
\<close>
theorem only_nvidia_recommendations:
  "set (recommendations (fst (run_state (audit os) t))) \<subseteq>
     {''NVIDIA proprietary driver detected '' @ dash @ '' good'',
      ''Nouveau driver detected. Install NVIDIA proprietary driver for 2-5x faster inference: sudo apt install nvidia-driver-550''} \<and>
   length (recommendations (fst (run_state (audit os) t))) \<le> 1"
proof -
  obtain n t1 where n: "run_state (check_nvidia os) t = (n, t1)" by fastforce
  obtain a t2 where a: "run_state (check_amd os) t1 = (a, t2)" by fastforce
  have amd: "concat (map amd_recommendation (found a)) = []"
    using check_amd_driver [OF a] by auto
  have "recommendations (fst (run_state (audit os) t)) = concat (map nvidia_recommendation (found n))"
    by (simp add: audit_def n a amd split: prod.split)
  then show ?thesis
    using check_nvidia_status [OF n]
    by (cases n) (auto simp: found_def nvidia_recommendation_def)
qed

end
