(* ===== verification/Node_Tuning.thy ===== *)
theory Node_Tuning
  imports Node_Os
begin

text \<open>
  System tuning (\<^verbatim>\<open>node-agent/src/tuning/\<close>): the governor, swappiness, transparent huge
  pages, NUMA balancing, the I/O scheduler and the number of huge pages, and the handler
  \<^verbatim>\<open>apply_tuning\<close> that runs the requested ones in order. The lemmas show what each
  operation may touch, and how the answer accounts for every requested step.
\<close>

section \<open>kernel.rs\<close>

text \<open>\<^verbatim>\<open>Result<(), String>\<close>\<close>

type_synonym unit_result = "string + unit"

definition map_err :: "string \<Rightarrow> string option \<Rightarrow> unit_result" where
  "map_err msg r = (case r of None \<Rightarrow> Inr () | Some e \<Rightarrow> Inl (msg @ e))"

definition set_performance_governor :: "os \<Rightarrow> unit_result act" where
  "set_performance_governor os = do {
     r \<leftarrow> command os ''cpupower'' [''frequency-set'', ''-g'', ''performance''];
     ret (case r of
            NotRun e \<Rightarrow> Inl (''cpupower not found: '' @ e)
          | Exited ok out \<Rightarrow> if ok then Inr () else Inl ''Failed to set governor (need root?)'')
   }"

definition set_swappiness :: "os \<Rightarrow> u32 \<Rightarrow> unit_result act" where
  "set_swappiness os v = do {
     r \<leftarrow> write_file os ''/proc/sys/vm/swappiness'' (dec (unat v));
     ret (map_err ''Failed to set swappiness: '' r)
   }"

definition set_thp_mode :: "os \<Rightarrow> string \<Rightarrow> unit_result act" where
  "set_thp_mode os m = do {
     r \<leftarrow> write_file os ''/sys/kernel/mm/transparent_hugepage/enabled'' m;
     ret (map_err ''Failed to set THP: '' r)
   }"

definition disable_numa_balancing :: "os \<Rightarrow> unit_result act" where
  "disable_numa_balancing os = do {
     r \<leftarrow> write_file os ''/proc/sys/kernel/numa_balancing'' ''0'';
     ret (map_err ''Failed to disable NUMA balancing: '' r)
   }"

text \<open>The arrow of the messages, in UTF-8.\<close>

definition arrow :: string where
  "arrow = [CHR 0xE2, CHR 0x86, CHR 0x92]"

fun is_ok :: "unit_result \<Rightarrow> bool" where
  "is_ok (Inl e) = False"
| "is_ok (Inr u) = True"

definition tune_all :: "os \<Rightarrow> string list act" where
  "tune_all os = do {
     g \<leftarrow> set_performance_governor os;
     s \<leftarrow> set_swappiness os 10;
     n \<leftarrow> disable_numa_balancing os;
     ret ((if is_ok g then [''CPU governor '' @ arrow @ '' performance''] else []) @
          (if is_ok s then [''Swappiness '' @ arrow @ '' 10''] else []) @
          (if is_ok n then [''NUMA balancing disabled''] else []))
   }"

section \<open>hugepages.rs\<close>

definition pre_allocate :: "os \<Rightarrow> u64 \<Rightarrow> unit_result act" where
  "pre_allocate os count = do {
     r \<leftarrow> write_file os ''/proc/sys/vm/nr_hugepages'' (dec (unat count));
     ret (map_err ''Failed to allocate hugepages (need root?): '' r)
   }"

definition meminfo_hugepagesize :: "string \<Rightarrow> u64" where
  "meminfo_hugepagesize c =
     (case find_map (\<lambda>l. case strip_prefix l ''Hugepagesize:'' of
                           None \<Rightarrow> None
                         | Some s \<Rightarrow> parse_u64 (trim_end_matches (trim s) '' kB'')) (str_lines c) of
        Some n \<Rightarrow> n
      | None \<Rightarrow> 0)"

definition get_hugepage_size :: "os \<Rightarrow> u64 act" where
  "get_hugepage_size os = do {
     c \<leftarrow> read_to_string os ''/proc/meminfo'';
     ret (case c of None \<Rightarrow> 0 | Some c \<Rightarrow> meminfo_hugepagesize c)
   }"

definition get_current_count :: "os \<Rightarrow> u64 act" where
  "get_current_count os = do {
     c \<leftarrow> read_to_string os ''/proc/sys/vm/nr_hugepages'';
     ret (case c of
            None \<Rightarrow> 0
          | Some c \<Rightarrow> (case parse_u64 (trim c) of Some n \<Rightarrow> n | None \<Rightarrow> 0))
   }"

section \<open>io.rs\<close>

definition queue_file :: "string \<Rightarrow> string \<Rightarrow> string" where
  "queue_file dev f = ''/sys/block/'' @ dev @ ''/queue/'' @ f"

text \<open>The body of the loop over the entries of \<^verbatim>\<open>/sys/block\<close>; the state is \<^verbatim>\<open>applied\<close>.\<close>

definition scheduler_step :: "os \<Rightarrow> string \<Rightarrow> string \<Rightarrow> bool \<Rightarrow> bool act" where
  "scheduler_step os scheduler dev applied = do {
     rotational \<leftarrow> read_to_string os (queue_file dev ''rotational'');
     case rotational of
       None \<Rightarrow> ret applied
     | Some r \<Rightarrow>
         if trim r = ''0'' then do {
           content \<leftarrow> read_to_string os (queue_file dev ''scheduler'');
           case content of
             None \<Rightarrow> ret applied
           | Some c \<Rightarrow>
               if contains c scheduler then do {
                 w \<leftarrow> write_file os (queue_file dev ''scheduler'') scheduler;
                 ret (applied \<or> w = None)
               }
               else ret applied
         }
         else ret applied
   }"

definition set_scheduler :: "os \<Rightarrow> string \<Rightarrow> unit_result act" where
  "set_scheduler os scheduler = do {
     ex \<leftarrow> path_exists os ''/sys/block'';
     if \<not> ex then ret (Inl ''No block devices found'')
     else do {
       entries \<leftarrow> read_dir os ''/sys/block'';
       applied \<leftarrow> (case entries of
                     None \<Rightarrow> ret False
                   | Some devs \<Rightarrow> for_each (scheduler_step os scheduler) devs False);
       ret (if applied then Inr () else Inl (''Failed to set I/O scheduler to '' @ scheduler))
     }
   }"

section \<open>mod.rs\<close>

record tuning_request =
  req_governor :: bool
  req_hugepages :: bool
  hugepages_count :: u64
  req_swappiness :: bool
  swappiness_value :: u32
  req_io_scheduler :: bool
  io_scheduler :: string
  req_thp_mode :: bool
  thp_mode :: string
  req_numa :: bool

record tuning_response =
  all_applied :: bool
  changes_made :: "string list"
  errors :: "string list"

text \<open>One \<^verbatim>\<open>if req.flag { match step { Ok(_) => changes.push(msg), Err(e) => errors.push(e) } }\<close>.\<close>

definition requested ::
  "bool \<Rightarrow> unit_result act \<Rightarrow> string \<Rightarrow> string list \<times> string list \<Rightarrow> (string list \<times> string list) act" where
  "requested flag step msg st =
     (if flag then do {
        r \<leftarrow> step;
        ret (case r of
               Inr u \<Rightarrow> (fst st @ [msg], snd st)
             | Inl e \<Rightarrow> (fst st, snd st @ [e]))
      }
      else ret st)"

definition apply_tuning :: "os \<Rightarrow> tuning_request \<Rightarrow> tuning_response act" where
  "apply_tuning os req = do {
     st \<leftarrow> requested (req_governor req) (set_performance_governor os) (''CPU governor '' @ arrow @ '' performance'') ([], []);
     st \<leftarrow> requested (req_hugepages req) (pre_allocate os (hugepages_count req))
            (''Hugepages: '' @ dec (unat (hugepages_count req)) @ '' allocated'') st;
     st \<leftarrow> requested (req_swappiness req) (set_swappiness os (swappiness_value req))
            (''Swappiness '' @ arrow @ '' '' @ dec (unat (swappiness_value req))) st;
     st \<leftarrow> requested (req_io_scheduler req) (set_scheduler os (io_scheduler req))
            (''I/O scheduler '' @ arrow @ '' '' @ io_scheduler req) st;
     st \<leftarrow> requested (req_thp_mode req) (set_thp_mode os (thp_mode req))
            (''THP mode '' @ arrow @ '' '' @ thp_mode req) st;
     st \<leftarrow> requested (req_numa req) (disable_numa_balancing os) ''NUMA balancing disabled'' st;
     ret \<lparr>all_applied = (snd st = []), changes_made = fst st, errors = snd st\<rparr>
   }"

section \<open>What an operation touches\<close>

text \<open>The single events of the operations.\<close>

lemma does_kernel [does_intros]:
  "(\<And>t. A t (Ran ''cpupower'' [''frequency-set'', ''-g'', ''performance''])) \<Longrightarrow> does A (set_performance_governor os)"
  "(\<And>t ok. A t (Wrote ''/proc/sys/vm/swappiness'' (dec (unat v)) ok)) \<Longrightarrow> does A (set_swappiness os v)"
  "(\<And>t ok. A t (Wrote ''/sys/kernel/mm/transparent_hugepage/enabled'' m ok)) \<Longrightarrow> does A (set_thp_mode os m)"
  "(\<And>t ok. A t (Wrote ''/proc/sys/kernel/numa_balancing'' ''0'' ok)) \<Longrightarrow> does A (disable_numa_balancing os)"
  "(\<And>t ok. A t (Wrote ''/proc/sys/vm/nr_hugepages'' (dec (unat n)) ok)) \<Longrightarrow> does A (pre_allocate os n)"
  unfolding set_performance_governor_def set_swappiness_def set_thp_mode_def disable_numa_balancing_def pre_allocate_def
  by (auto intro!: does_intros)

text \<open>
  The scheduler is written to a device that does not rotate and that lists it, both as read
  right before.
\<close>

definition scheduler_event :: "os \<Rightarrow> string \<Rightarrow> event list \<Rightarrow> event \<Rightarrow> bool" where
  "scheduler_event os scheduler t e \<longleftrightarrow>
     (\<exists>dev ok r c. e = Wrote (queue_file dev ''scheduler'') scheduler ok \<and>
        os_read os t (queue_file dev ''rotational'') = Some r \<and> trim r = ''0'' \<and>
        os_read os t (queue_file dev ''scheduler'') = Some c \<and> contains c scheduler)"

lemma scheduler_step_run:
  "run_state (scheduler_step os scheduler dev applied) t = (r, t') \<Longrightarrow>
     (t' = t \<and> r = applied) \<or>
     (\<exists>ok. t' = t @ [Wrote (queue_file dev ''scheduler'') scheduler ok] \<and> r = (applied \<or> ok) \<and>
        scheduler_event os scheduler t (Wrote (queue_file dev ''scheduler'') scheduler ok))"
  by (fastforce simp: scheduler_step_def read_to_string_def write_file_def Let_def scheduler_event_def
      split: option.splits if_splits)

lemma scheduler_loop_run:
  "run_state (for_each (scheduler_step os scheduler) devs applied) t = (r, t') \<Longrightarrow>
     \<exists>es. t' = t @ es \<and> events_ok (scheduler_event os scheduler) t es \<and>
       (r \<longleftrightarrow> applied \<or> (\<exists>p b. Wrote p b True \<in> set es))"
proof (induction devs arbitrary: applied t)
  case (Cons dev devs)
  obtain a u where s: "run_state (scheduler_step os scheduler dev applied) t = (a, u)" by fastforce
  with Cons.prems have "run_state (for_each (scheduler_step os scheduler) devs a) u = (r, t')" by simp
  from Cons.IH [OF this] obtain es where es: "t' = u @ es" "events_ok (scheduler_event os scheduler) u es"
    "r \<longleftrightarrow> a \<or> (\<exists>p b. Wrote p b True \<in> set es)" by blast
  from scheduler_step_run [OF s] show ?case
  proof (elim disjE exE conjE)
    assume "u = t" "a = applied"
    with es show ?thesis by blast
  next
    fix ok assume w: "u = t @ [Wrote (queue_file dev ''scheduler'') scheduler ok]" "a = (applied \<or> ok)"
      "scheduler_event os scheduler t (Wrote (queue_file dev ''scheduler'') scheduler ok)"
    let ?es = "Wrote (queue_file dev ''scheduler'') scheduler ok # es"
    have "r \<longleftrightarrow> applied \<or> (\<exists>p b. Wrote p b True \<in> set ?es)" using es(3) w(2) by auto
    with es w show ?thesis by (intro exI [of _ ?es]) auto
  qed
qed simp

lemma set_scheduler_run:
  assumes "run_state (set_scheduler os scheduler) t = (r, t')"
  shows "\<exists>es. t' = t @ es \<and> events_ok (scheduler_event os scheduler) t es \<and>
    (is_ok r \<longleftrightarrow> (\<exists>p b. Wrote p b True \<in> set es))"
proof (cases "os_exists os t ''/sys/block'' \<and> os_dir os t ''/sys/block'' \<noteq> None")
  case True
  then obtain devs where "os_exists os t ''/sys/block''" "os_dir os t ''/sys/block'' = Some devs" by auto
  with assms show ?thesis
    by (auto simp: set_scheduler_def path_exists_def read_dir_def split: prod.splits dest!: scheduler_loop_run)
next
  case False
  with assms show ?thesis
    by (auto simp: set_scheduler_def path_exists_def read_dir_def split: if_splits)
qed

lemma does_set_scheduler [does_intros]:
  "(\<And>t dev ok. A t (Wrote (queue_file dev ''scheduler'') s ok)) \<Longrightarrow> does A (set_scheduler os s)"
  by (rule does_mono [of "scheduler_event os s"], rule doesI)
    (auto dest: set_scheduler_run simp: scheduler_event_def)

lemma does_requested [does_intros]:
  "(flag \<Longrightarrow> does A step) \<Longrightarrow> does A (requested flag step msg st)"
  by (auto simp: requested_def intro!: does_intros)

section \<open>Properties\<close>

text \<open>What a request allows: for each flag that is set, its step with the values of the request.\<close>

fun tuning_event :: "tuning_request \<Rightarrow> event \<Rightarrow> bool" where
  "tuning_event req (Ran c args) =
     (req_governor req \<and> c = ''cpupower'' \<and> args = [''frequency-set'', ''-g'', ''performance''])"
| "tuning_event req (Wrote p b ok) =
     ((req_hugepages req \<and> p = ''/proc/sys/vm/nr_hugepages'' \<and> b = dec (unat (hugepages_count req))) \<or>
      (req_swappiness req \<and> p = ''/proc/sys/vm/swappiness'' \<and> b = dec (unat (swappiness_value req))) \<or>
      (req_thp_mode req \<and> p = ''/sys/kernel/mm/transparent_hugepage/enabled'' \<and> b = thp_mode req) \<or>
      (req_numa req \<and> p = ''/proc/sys/kernel/numa_balancing'' \<and> b = ''0'') \<or>
      (req_io_scheduler req \<and> b = io_scheduler req \<and> (\<exists>dev. p = queue_file dev ''scheduler'')))"

text \<open>
  C21: Tuning touches only what was asked for: whatever the system answers, every file that
  \<^verbatim>\<open>apply_tuning\<close> writes and every command it runs belongs to a step whose flag is set, with
  the value of the request, and the history before it stays as it is.
\<close>
theorem tuning_touches_requested:
  "\<exists>es. snd (run_state (apply_tuning os req) t) = t @ es \<and> list_all (tuning_event req) es"
proof -
  have "does (\<lambda>_. tuning_event req) (apply_tuning os req)"
    unfolding apply_tuning_def by (intro does_intros) auto
  then show ?thesis by (simp add: does_def events_ok_const)
qed

text \<open>
  The account a request should give, from the system's answers. A step says, after a history,
  which error it ends with, if any, and the history it leaves. \<open>tuning_table\<close> lists the
  steps with their flags and messages.
\<close>

type_synonym step_account = "event list \<Rightarrow> string option \<times> event list"

definition writes :: "os \<Rightarrow> string \<Rightarrow> string \<Rightarrow> string \<Rightarrow> step_account" where
  "writes os path v err t =
     (map_option (\<lambda>e. err @ e) (os_write os t path v), t @ [Wrote path v (os_write os t path v = None)])"

definition runs_cpupower :: "os \<Rightarrow> step_account" where
  "runs_cpupower os t =
     ((case os_run os t ''cpupower'' [''frequency-set'', ''-g'', ''performance''] of
         NotRun e \<Rightarrow> Some (''cpupower not found: '' @ e)
       | Exited ok out \<Rightarrow> if ok then None else Some ''Failed to set governor (need root?)''),
      t @ [Ran ''cpupower'' [''frequency-set'', ''-g'', ''performance'']])"

definition sets_scheduler :: "os \<Rightarrow> string \<Rightarrow> step_account" where
  "sets_scheduler os s t =
     (let (r, t') = run_state (set_scheduler os s) t
      in (if \<exists>p b. Wrote p b True \<in> set (drop (length t) t') then None
          else if os_exists os t ''/sys/block'' then Some (''Failed to set I/O scheduler to '' @ s)
          else Some ''No block devices found'', t'))"

definition tuning_table :: "os \<Rightarrow> tuning_request \<Rightarrow> (bool \<times> string \<times> step_account) list" where
  "tuning_table os req =
     [(req_governor req, ''CPU governor '' @ arrow @ '' performance'', runs_cpupower os),
      (req_hugepages req, ''Hugepages: '' @ dec (unat (hugepages_count req)) @ '' allocated'',
       writes os ''/proc/sys/vm/nr_hugepages'' (dec (unat (hugepages_count req)))
         ''Failed to allocate hugepages (need root?): ''),
      (req_swappiness req, ''Swappiness '' @ arrow @ '' '' @ dec (unat (swappiness_value req)),
       writes os ''/proc/sys/vm/swappiness'' (dec (unat (swappiness_value req))) ''Failed to set swappiness: ''),
      (req_io_scheduler req, ''I/O scheduler '' @ arrow @ '' '' @ io_scheduler req,
       sets_scheduler os (io_scheduler req)),
      (req_thp_mode req, ''THP mode '' @ arrow @ '' '' @ thp_mode req,
       writes os ''/sys/kernel/mm/transparent_hugepage/enabled'' (thp_mode req) ''Failed to set THP: ''),
      (req_numa req, ''NUMA balancing disabled'',
       writes os ''/proc/sys/kernel/numa_balancing'' ''0'' ''Failed to disable NUMA balancing: '')]"

text \<open>The requested steps in order, each with its message and its error, and the history at the end.\<close>

fun account :: "(bool \<times> string \<times> step_account) list \<Rightarrow> event list \<Rightarrow> (string \<times> string option) list \<times> event list" where
  "account [] t = ([], t)"
| "account ((flag, msg, step) # steps) t =
     (if flag then
        case step t of (e, t1) \<Rightarrow> case account steps t1 of (rs, t2) \<Rightarrow> ((msg, e) # rs, t2)
      else account steps t)"

lemma account_split:
  "account [x] t = (rs, t1) \<Longrightarrow> account xs t1 = (rs', t2) \<Longrightarrow> account (x # xs) t = (rs @ rs', t2)"
  by (cases x) (auto split: if_splits prod.splits)

definition as_result :: "string option \<times> event list \<Rightarrow> unit_result \<times> event list" where
  "as_result = (\<lambda>(e, t). (case e of None \<Rightarrow> Inr () | Some e \<Rightarrow> Inl e, t))"

lemma step_runs:
  "run_state (set_performance_governor os) t = as_result (runs_cpupower os t)"
  "run_state (set_swappiness os v) t =
     as_result (writes os ''/proc/sys/vm/swappiness'' (dec (unat v)) ''Failed to set swappiness: '' t)"
  "run_state (set_thp_mode os m) t =
     as_result (writes os ''/sys/kernel/mm/transparent_hugepage/enabled'' m ''Failed to set THP: '' t)"
  "run_state (disable_numa_balancing os) t =
     as_result (writes os ''/proc/sys/kernel/numa_balancing'' ''0'' ''Failed to disable NUMA balancing: '' t)"
  "run_state (pre_allocate os n) t =
     as_result (writes os ''/proc/sys/vm/nr_hugepages'' (dec (unat n)) ''Failed to allocate hugepages (need root?): '' t)"
  by (auto simp: set_performance_governor_def set_swappiness_def set_thp_mode_def disable_numa_balancing_def
      pre_allocate_def command_def write_file_def map_err_def writes_def runs_cpupower_def as_result_def Let_def
      split: option.splits run_result.splits)

lemma scheduler_runs: "run_state (set_scheduler os s) t = as_result (sets_scheduler os s t)"
proof -
  obtain r t' where r: "run_state (set_scheduler os s) t = (r, t')" by fastforce
  obtain es where es: "t' = t @ es" "is_ok r \<longleftrightarrow> (\<exists>p b. Wrote p b True \<in> set es)"
    using set_scheduler_run [OF r] by blast
  moreover have "r = Inl (if os_exists os t ''/sys/block'' then ''Failed to set I/O scheduler to '' @ s
      else ''No block devices found'')" if "\<not> is_ok r"
    using r that by (auto simp: set_scheduler_def path_exists_def read_dir_def split: if_splits option.splits prod.splits)
  moreover have "r = Inr ()" if "is_ok r" using that by (cases r) auto
  ultimately show ?thesis using r by (auto simp: sets_scheduler_def as_result_def)
qed

lemma requested_account:
  assumes "\<And>t. run_state step t = as_result (acc t)" and "account [x] t = (rs, t')" and "x = (flag, msg, acc)"
  shows "run_state (requested flag step msg st) t =
    ((fst st @ [m. (m, None) \<leftarrow> rs], snd st @ [e. (m, Some e) \<leftarrow> rs]), t')"
  using assms(2) unfolding assms(3) by (auto simp: requested_def assms(1) as_result_def split: if_splits prod.splits option.splits)

lemma all_fine: "[e. (m, Some e) \<leftarrow> rs] = [] \<longleftrightarrow> list_all (\<lambda>(m, e). e = None) rs"
  by (induction rs) (auto split: option.splits)

text \<open>
  C37: The answer accounts for every requested step, in order, by what the system answered: a
  step that succeeded is listed with its message among the changes, a step that failed with
  its error among the errors, and nothing else is; \<^verbatim>\<open>all_applied\<close> says that no requested step
  failed. The history is that of the requested steps, each run after the one before.
\<close>
theorem tuning_accounts:
  "let (rs, t') = account (tuning_table os req) t; (resp, u) = run_state (apply_tuning os req) t
   in changes_made resp = [m. (m, None) \<leftarrow> rs] \<and> errors resp = [e. (m, Some e) \<leftarrow> rs] \<and>
     all_applied resp = list_all (\<lambda>(m, e). e = None) rs \<and> u = t'"
proof -
  let ?T = "tuning_table os req"
  obtain r0 t0 where 0: "account [?T ! 0] t = (r0, t0)" by fastforce
  obtain r1 t1 where 1: "account [?T ! 1] t0 = (r1, t1)" by fastforce
  obtain r2 t2 where 2: "account [?T ! 2] t1 = (r2, t2)" by fastforce
  obtain r3 t3 where 3: "account [?T ! 3] t2 = (r3, t3)" by fastforce
  obtain r4 t4 where 4: "account [?T ! 4] t3 = (r4, t4)" by fastforce
  obtain r5 t5 where 5: "account [?T ! 5] t4 = (r5, t5)" by fastforce
  have "?T = [?T ! 0, ?T ! 1, ?T ! 2, ?T ! 3, ?T ! 4, ?T ! 5]" by (simp add: tuning_table_def)
  moreover have "account [?T ! 0, ?T ! 1, ?T ! 2, ?T ! 3, ?T ! 4, ?T ! 5] t = (r0 @ r1 @ r2 @ r3 @ r4 @ r5, t5)"
    by (intro account_split [OF 0] account_split [OF 1] account_split [OF 2] account_split [OF 3] account_split [OF 4] 5)
  ultimately have a: "account ?T t = (r0 @ r1 @ r2 @ r3 @ r4 @ r5, t5)" by metis
  note run = requested_account [OF step_runs(1) 0] requested_account [OF step_runs(5) 1]
    requested_account [OF step_runs(2) 2] requested_account [OF scheduler_runs 3]
    requested_account [OF step_runs(3) 4] requested_account [OF step_runs(4) 5]
  show ?thesis
    unfolding a all_fine [symmetric]
    by (simp add: apply_tuning_def run tuning_table_def ball_Un del: account.simps)
qed

text \<open>
  The I/O scheduler is written only to devices that read as not rotating and whose list
  of schedulers contains the name, both read right before the write, and the step reports
  success exactly when one of the writes succeeded.
\<close>
theorem scheduler_only_ssd:
  "\<exists>es. snd (run_state (set_scheduler os s) t) = t @ es \<and> events_ok (scheduler_event os s) t es \<and>
     (is_ok (fst (run_state (set_scheduler os s) t)) \<longleftrightarrow> (\<exists>p b. Wrote p b True \<in> set es))"
  by (rule set_scheduler_run) simp

text \<open>
  Round trip through the system: after a successful \<^verbatim>\<open>pre_allocate(n)\<close>, on a system
  whose file reads back as it was written, \<^verbatim>\<open>get_current_count\<close> returns \<open>n\<close>, for every
  64-bit \<open>n\<close>.
\<close>
theorem hugepages_read_back:
  assumes "reads_back os ''/proc/sys/vm/nr_hugepages''"
    and "os_write os t ''/proc/sys/vm/nr_hugepages'' (dec (unat n)) = None"
  shows "fst (run_state (do { r \<leftarrow> pre_allocate os n; get_current_count os }) t) = n"
proof -
  let ?c = "dec (unat n) @ [newline]"
  have "utf8_valid ?c"
    using dec_digits [of _ "unat n"] by (intro utf8_valid_ascii) fastforce
  moreover have "trim ?c = dec (unat n)" by (rule trim_visible_newline [OF visible_dec dec_not_Nil])
  moreover have "parse_u64 (dec (unat n)) = Some n" using unsigned_less [of n] by (subst parse_u64_dec) simp_all
  ultimately show ?thesis
    using assms by (simp add: pre_allocate_def get_current_count_def write_file_def read_to_string_def reads_back_def)
qed

text \<open>A system where every write succeeds and every file reads back as last written.\<close>

fun last_write :: "event list \<Rightarrow> string \<Rightarrow> bytes option" where
  "last_write [] p = None"
| "last_write (Wrote q b ok # es) p = (if q = p \<and> ok then Some (b @ [newline]) else last_write es p)"
| "last_write (Ran c args # es) p = last_write es p"

definition plain_os :: os where
  "plain_os =
     \<lparr>os_read = (\<lambda>t p. last_write (rev t) p), os_exists = (\<lambda>t p. False), os_dir = (\<lambda>t p. None),
      os_write = (\<lambda>t p b. None), os_run = (\<lambda>t c args. NotRun ''No such file or directory (os error 2)'')\<rparr>"

theorem hugepages_read_back_witness:
  "fst (run_state (do { r \<leftarrow> pre_allocate plain_os 1024; get_current_count plain_os }) []) = 1024"
  by (rule hugepages_read_back) (simp_all add: reads_back_def plain_os_def)

definition demo_request :: tuning_request where
  "demo_request =
     \<lparr>req_governor = True, req_hugepages = True, hugepages_count = 64, req_swappiness = True, swappiness_value = 10,
      req_io_scheduler = True, io_scheduler = ''none'', req_thp_mode = False, thp_mode = [], req_numa = True\<rparr>"

text \<open>Without \<^verbatim>\<open>cpupower\<close> and block devices two of the five requested steps fail.\<close>

theorem tuning_accounts_witness:
  "changes_made (fst (run_state (apply_tuning plain_os demo_request) [])) =
     [''Hugepages: 64 allocated'', ''Swappiness '' @ arrow @ '' 10'', ''NUMA balancing disabled''] \<and>
   errors (fst (run_state (apply_tuning plain_os demo_request) [])) =
     [''cpupower not found: No such file or directory (os error 2)'', ''No block devices found''] \<and>
   \<not> all_applied (fst (run_state (apply_tuning plain_os demo_request) []))"
proof -
  have "dec 64 = ''64''" "dec 10 = ''10''" by code_simp+
  then have "fst (account (tuning_table plain_os demo_request) []) =
      [(''CPU governor '' @ arrow @ '' performance'', Some ''cpupower not found: No such file or directory (os error 2)''),
       (''Hugepages: 64 allocated'', None), (''Swappiness '' @ arrow @ '' 10'', None),
       (''I/O scheduler '' @ arrow @ '' none'', Some ''No block devices found''), (''NUMA balancing disabled'', None)]"
    by (simp add: tuning_table_def demo_request_def runs_cpupower_def writes_def sets_scheduler_def plain_os_def
        set_scheduler_def path_exists_def)
  then show ?thesis
    using tuning_accounts [of plain_os demo_request "[]"] by (auto simp: Let_def split: prod.splits)
qed

end
