(* ===== verification/Node_Hardware.thy ===== *)
theory Node_Hardware
  imports Node_Tuning Rust_F64
begin

text \<open>
  Hardware detection (\<^verbatim>\<open>node-agent/src/hardware/\<close>): CPU, GPUs, memory, disks and network,
  and the report that \<^verbatim>\<open>collect\<close> puts together. The values of the \<^verbatim>\<open>sysinfo\<close> crate are
  a parameter; the fields of the report that the code always sets to 0 or to an empty list are
  left out. The property is about the one number the detection computes: the size of the
  video memory that \<^verbatim>\<open>nvidia-smi\<close> prints.
\<close>

section \<open>What the sysinfo crate reports\<close>

record sysinfo =
  total_memory :: u64
  available_memory :: u64
  total_swap :: u64
  free_swap :: u64
  physical_core_count :: "usize option"
  new_cpus :: usize
  new_total_memory :: u64
  disks :: "(u64 \<times> u64 \<times> bool) list"

text \<open>
  \<open>total_memory\<close> to \<open>free_swap\<close> are those of \<^verbatim>\<open>System::new_all()\<close> after a refresh;
  \<open>new_cpus\<close> and \<open>new_total_memory\<close> those of \<^verbatim>\<open>System::new()\<close>; a disk is its total
  and available space and whether it is an SSD.
\<close>

section \<open>cpu.rs\<close>

record cpu_info =
  cpu_model :: string
  cores :: u32
  threads :: u32
  max_freq_ghz :: f64
  min_freq_ghz :: f64
  architecture :: string
  has_avx2 :: bool
  has_avx512 :: bool
  has_neon :: bool
  governor :: string

abbreviation tab :: char where
  "tab \<equiv> CHR 0x09"

definition cpuinfo_line :: "string \<Rightarrow> cpu_info \<Rightarrow> cpu_info" where
  "cpuinfo_line line c =
     (let c = (case strip_prefix line (''model name'' @ [tab] @ '': '') of
                 Some m \<Rightarrow> c\<lparr>cpu_model := m\<rparr> | None \<Rightarrow> c);
          c = (case strip_prefix line (''flags'' @ [tab, tab] @ '': '') of
                 Some fs \<Rightarrow> c\<lparr>has_avx2 := contains fs ''avx2'', has_avx512 := contains fs ''avx512f''\<rparr> | None \<Rightarrow> c)
      in (case strip_prefix line (''Features'' @ [tab] @ '': '') of
            Some fs \<Rightarrow> c\<lparr>has_neon := contains fs ''neon''\<rparr> | None \<Rightarrow> c))"

definition read_khz :: "os \<Rightarrow> string \<Rightarrow> f64 act" where
  "read_khz os p = do {
     s \<leftarrow> read_to_string os p;
     ret (case s of
            None \<Rightarrow> f64_zero
          | Some s \<Rightarrow> (case parse_f64 (trim s) of Some khz \<Rightarrow> f64_divide khz 1000000 | None \<Rightarrow> f64_zero))
   }"

definition cpu_detect :: "os \<Rightarrow> sysinfo \<Rightarrow> string \<Rightarrow> cpu_info act" where
  "cpu_detect os sys arch = do {
     let info = \<lparr>cpu_model = [], cores = 0, threads = 0, max_freq_ghz = f64_zero, min_freq_ghz = f64_zero,
                 architecture = arch, has_avx2 = False, has_avx512 = False, has_neon = False, governor = []\<rparr>;
     contents \<leftarrow> read_to_string os ''/proc/cpuinfo'';
     let info = (case contents of None \<Rightarrow> info | Some c \<Rightarrow> fold cpuinfo_line (str_lines c) info);
     let info = info\<lparr>cores := (case physical_core_count sys of Some n \<Rightarrow> ucast n | None \<Rightarrow> 0),
                     threads := ucast (new_cpus sys)\<rparr>;
     max_khz \<leftarrow> read_khz os ''/sys/devices/system/cpu/cpu0/cpufreq/cpuinfo_max_freq'';
     min_khz \<leftarrow> read_khz os ''/sys/devices/system/cpu/cpu0/cpufreq/cpuinfo_min_freq'';
     gov \<leftarrow> read_to_string os ''/sys/devices/system/cpu/cpu0/cpufreq/scaling_governor'';
     ret (info\<lparr>max_freq_ghz := max_khz, min_freq_ghz := min_khz,
               governor := (case gov of Some g \<Rightarrow> trim g | None \<Rightarrow> [])\<rparr>)
   }"

section \<open>gpu.rs\<close>

record gpu_info =
  gpu_name :: string
  vendor :: string
  driver :: string
  vram_bytes :: u64
  available :: bool
  compute_benchmark :: f64

definition megabytes :: "f64 \<Rightarrow> f64" where
  "megabytes x = f64_mul (f64_mul x (f64_of_nat 1024)) (f64_of_nat 1024)"

text \<open>
  \<^verbatim>\<open>to_lowercase\<close> is taken on ASCII letters: no other character becomes one of the letters
  that the unit or a number can have.
\<close>

definition parse_vram :: "string \<Rightarrow> u64" where
  "parse_vram s =
     (let s = map lower (trim s);
          num = (\<lambda>suffix. case parse_f64 (trim (trim_end_matches s suffix)) of Some n \<Rightarrow> n | None \<Rightarrow> f64_zero)
      in if ends_with s ''mib'' then f64_as_u64 (megabytes (num ''mib''))
         else if ends_with s ''gib'' then f64_as_u64 (f64_mul (megabytes (num ''gib'')) (f64_of_nat 1024))
         else 0)"

definition nvidia_line :: "string \<Rightarrow> gpu_info option" where
  "nvidia_line line =
     (let parts = map trim (split_on CHR '','' line) in
      if 2 \<le> length parts then
        Some \<lparr>gpu_name = parts ! 0, vendor = ''NVIDIA'',
              driver = (case nth_opt parts 2 of Some d \<Rightarrow> d | None \<Rightarrow> ''unknown''),
              vram_bytes = parse_vram (parts ! 1), available = True, compute_benchmark = f64_zero\<rparr>
      else None)"

definition detect_nvidia :: "os \<Rightarrow> gpu_info option act" where
  "detect_nvidia os = do {
     out \<leftarrow> command os ''nvidia-smi'' [''--query-gpu=name,memory.total,driver_version'', ''--format=csv,noheader''];
     ret (case out of
            NotRun e \<Rightarrow> None
          | Exited ok stdout \<Rightarrow> if ok then find_map nvidia_line (str_lines (utf8_lossy stdout)) else None)
   }"

fun first_u64 :: "os \<Rightarrow> string list \<Rightarrow> u64 act" where
  "first_u64 os [] = ret 0"
| "first_u64 os (p # ps) = do {
     c \<leftarrow> read_to_string os p;
     (case c of
        None \<Rightarrow> first_u64 os ps
      | Some c \<Rightarrow> (case parse_u64 (trim c) of Some n \<Rightarrow> ret n | None \<Rightarrow> first_u64 os ps))
   }"

definition detect_amd_vram :: "os \<Rightarrow> u64 act" where
  "detect_amd_vram os =
     first_u64 os [''/sys/class/drm/card0/device/mem_info_vram_total'', ''/sys/class/drm/card1/device/mem_info_vram_total'']"

definition amd_vga_line :: "string \<Rightarrow> bool" where
  "amd_vga_line line \<longleftrightarrow> contains line ''VGA'' \<and> (contains line ''AMD'' \<or> contains line ''Advanced Micro'')"

definition detect_amd :: "os \<Rightarrow> gpu_info option act" where
  "detect_amd os = do {
     ex \<leftarrow> path_exists os ''/sys/module/amdgpu'';
     if \<not> ex then ret None
     else do {
       out \<leftarrow> command os ''lspci'' [''-nn''];
       (case stdout_lossy out of
          None \<Rightarrow> ret None
        | Some s \<Rightarrow>
            (case find amd_vga_line (str_lines s) of
               None \<Rightarrow> ret None
             | Some line \<Rightarrow> do {
                 vram \<leftarrow> detect_amd_vram os;
                 ret (Some \<lparr>gpu_name = (case nth_opt (split_str '': '' line) 1 of Some n \<Rightarrow> n | None \<Rightarrow> ''AMD GPU''),
                            vendor = ''AMD'', driver = ''amdgpu'', vram_bytes = vram, available = True,
                            compute_benchmark = f64_zero\<rparr>)
               }))
     }
   }"

definition detect_intel_vram :: "os \<Rightarrow> sysinfo \<Rightarrow> u64 act" where
  "detect_intel_vram os sys = do {
     freq \<leftarrow> read_to_string os ''/sys/class/drm/card0/gt_cur_freq_mhz'';
     ret (case freq of
            None \<Rightarrow> 0
          | Some freq \<Rightarrow>
              (case parse_f64 (trim freq) of
                 None \<Rightarrow> 0
               | Some mhz \<Rightarrow> min (new_total_memory sys div 8) (2 * 1024 * 1024 * 1024)))
   }"

definition detect_intel :: "os \<Rightarrow> sysinfo \<Rightarrow> gpu_info option act" where
  "detect_intel os sys = do {
     ex \<leftarrow> path_exists os ''/sys/module/i915'';
     if \<not> ex then ret None
     else do {
       vram \<leftarrow> detect_intel_vram os sys;
       ret (Some \<lparr>gpu_name = ''Intel Integrated Graphics'', vendor = ''Intel'', driver = ''i915'', vram_bytes = vram,
                  available = True, compute_benchmark = f64_zero\<rparr>)
     }
   }"

definition gpu_detect :: "os \<Rightarrow> sysinfo \<Rightarrow> gpu_info list act" where
  "gpu_detect os sys = do {
     nvidia \<leftarrow> detect_nvidia os;
     amd \<leftarrow> detect_amd os;
     intel \<leftarrow> detect_intel os sys;
     ret (List.map_filter id [nvidia, amd, intel])
   }"

section \<open>memory.rs\<close>

record memory_info =
  total_bytes :: u64
  available_bytes :: u64
  swap_total_bytes :: u64
  swap_available_bytes :: u64
  hugepage_size_kb :: u64
  hugepages_total :: u64
  hugepages_free :: u64

definition meminfo_hugepages_free :: "string \<Rightarrow> u64" where
  "meminfo_hugepages_free c =
     (case find_map (\<lambda>l. case strip_prefix l ''HugePages_Free:'' of
                           None \<Rightarrow> None
                         | Some s \<Rightarrow> parse_u64 (trim s)) (str_lines c) of
        Some n \<Rightarrow> n
      | None \<Rightarrow> 0)"

text \<open>The size and the total are read as in \<^verbatim>\<open>tuning/hugepages.rs\<close>.\<close>

definition hugepage_info :: "os \<Rightarrow> (u64 \<times> u64 \<times> u64) act" where
  "hugepage_info os = do {
     kb \<leftarrow> get_hugepage_size os;
     tot \<leftarrow> get_current_count os;
     c \<leftarrow> read_to_string os ''/proc/meminfo'';
     ret (kb, tot, case c of None \<Rightarrow> 0 | Some c \<Rightarrow> meminfo_hugepages_free c)
   }"

definition memory_detect :: "os \<Rightarrow> sysinfo \<Rightarrow> memory_info act" where
  "memory_detect os sys = do {
     huge \<leftarrow> hugepage_info os;
     ret (case huge of (kb, tot, avail) \<Rightarrow>
            \<lparr>total_bytes = total_memory sys, available_bytes = available_memory sys,
             swap_total_bytes = total_swap sys, swap_available_bytes = free_swap sys,
             hugepage_size_kb = kb, hugepages_total = tot, hugepages_free = avail\<rparr>)
   }"

section \<open>mod.rs\<close>

record disk_info =
  disk_total :: u64
  disk_available :: u64
  is_ssd :: bool

record network_info =
  hostname :: string
  ip_addresses :: "string list"
  discovery_port :: u32

record hardware_report =
  report_node_id :: string
  cpu :: cpu_info
  gpus :: "gpu_info list"
  memory :: memory_info
  disk :: disk_info
  network :: network_info

text \<open>\<^verbatim>\<open>.sum()\<close> panics on overflow in a checked build.\<close>

definition sum_u64 :: "bool \<Rightarrow> u64 list \<Rightarrow> (string, u64) outcome" where
  "sum_u64 oc xs = fold_out (\<lambda>x s. wadd oc s x) xs 0"

definition read_disks :: "bool \<Rightarrow> sysinfo \<Rightarrow> (string, disk_info) outcome" where
  "read_disks oc sys =
     and_then (sum_u64 oc (map fst (disks sys))) (\<lambda>total.
     and_then (sum_u64 oc (map (fst \<circ> snd) (disks sys))) (\<lambda>avail.
     Val \<lparr>disk_total = total, disk_available = avail, is_ssd = list_ex (snd \<circ> snd) (disks sys)\<rparr>))"

definition read_hostname :: "os \<Rightarrow> string act" where
  "read_hostname os = do {
     s \<leftarrow> read_to_string os ''/etc/hostname'';
     ret (case s of Some s \<Rightarrow> trim s | None \<Rightarrow> ''unknown'')
   }"

definition fib_trie_line :: "string \<Rightarrow> string list" where
  "fib_trie_line line =
     (case strip_prefix (trim line) ''+-- '' of
        None \<Rightarrow> []
      | Some ip \<Rightarrow>
          if contains ip ''.'' \<and> \<not> starts_with ip ''127.'' \<and> \<not> starts_with ip ''0.''
          then [case nth_opt (split_on CHR ''/'' ip) 0 of Some w \<Rightarrow> w | None \<Rightarrow> ip]
          else [])"

definition local_ip_addresses :: "os \<Rightarrow> string list act" where
  "local_ip_addresses os = do {
     out \<leftarrow> command os ''hostname'' [''-I''];
     let ips = (case stdout_lossy out of None \<Rightarrow> [] | Some s \<Rightarrow> split_whitespace s);
     if ips \<noteq> [] then ret ips
     else do {
       c \<leftarrow> read_to_string os ''/proc/net/fib_trie'';
       ret (case c of None \<Rightarrow> [] | Some c \<Rightarrow> concat (map fib_trie_line (str_lines c)))
     }
   }"

definition read_network :: "os \<Rightarrow> network_info act" where
  "read_network os = do {
     host \<leftarrow> read_hostname os;
     ips \<leftarrow> local_ip_addresses os;
     ret \<lparr>hostname = host, ip_addresses = ips, discovery_port = 0\<rparr>
   }"

definition collect :: "bool \<Rightarrow> os \<Rightarrow> sysinfo \<Rightarrow> string \<Rightarrow> (string, hardware_report) outcome act" where
  "collect oc os sys arch = do {
     c \<leftarrow> cpu_detect os sys arch;
     gs \<leftarrow> gpu_detect os sys;
     mem \<leftarrow> memory_detect os sys;
     (case read_disks oc sys of
        Val d \<Rightarrow> do {
          net \<leftarrow> read_network os;
          ret (Val \<lparr>report_node_id = [], cpu = c, gpus = gs, memory = mem, disk = d, network = net\<rparr>)
        }
      | Fail e \<Rightarrow> ret (Fail e)
      | Panic p \<Rightarrow> ret (Panic p))
   }"

section \<open>Video memory\<close>

lemma megabytes_exact:
  assumes "n < 2 ^ 44"
  shows "f64_as_u64 (megabytes (f64_of_nat n)) = word_of_nat (n * 2 ^ 20)"
proof (cases "n = 0")
  case True
  then show ?thesis unfolding megabytes_def f64_of_nat_1024 by (simp add: f64_of_nat_def f64_round_def)
next
  case False
  then have "0 < n" "n < 2 ^ 53" using assms by auto
  then obtain m q where m: "2 ^ 52 \<le> m" "m < 2 ^ 53" "m = n * 2 ^ q" "q \<le> 52"
    "f64_of_nat n = Finite False m (- int q)" by (rule nat_significand)
  have "megabytes (f64_of_nat n) = Finite False m (- int q + int 10 + int 10)"
    unfolding megabytes_def f64_of_nat_1024 m(5) using m by (simp only: f64_mul_pow2)
  then have "megabytes (f64_of_nat n) = Finite False m (int 20 - int q)" by (simp add: algebra_simps)
  moreover have "n * 2 ^ 20 < 2 ^ 64" using assms by simp
  ultimately show ?thesis using f64_as_u64_nat [OF m(3), of 20] by simp
qed

text \<open>
  C40: The video memory that \<^verbatim>\<open>nvidia-smi\<close> prints as a number of MiB, below \<open>2 ^ 44\<close> of them, is
  the number of bytes \<open>parse_vram\<close> returns: the way over a 64-bit float loses nothing.
\<close>

theorem vram_exact:
  assumes "n < 2 ^ 44"
  shows "parse_vram (dec n @ '' MiB'') = word_of_nat (n * 2 ^ 20)"
proof -
  have t: "trim (dec n @ '' MiB'') = dec n @ '' MiB''"
    using trim_between [of "dec n" "CHR ''B''" "'' Mi''"] by (simp add: visible_dec)
  have l: "map lower '' MiB'' = '' '' @ ''mib''" by code_simp
  have "trim (trim_end_matches (dec n @ '' '' @ ''mib'') ''mib'') = dec n"
    by (rule trim_unit) (simp_all add: visible_dec)
  moreover have "ends_with (dec n @ '' '' @ ''mib'') ''mib''"
    using ends_with_append [of "dec n @ '' ''" "''mib''"] by simp
  ultimately show ?thesis
    unfolding parse_vram_def t map_append lower_dec l Let_def
    by (simp only: parse_f64_dec megabytes_exact [OF assms] if_True option.case)
qed

theorem vram_exact_witness: "parse_vram (dec 24576 @ '' MiB'') = 24576 * 2 ^ 20"
  using vram_exact [of 24576] by simp

end
