(* ===== verification/Node_Benchmark.thy ===== *)
theory Node_Benchmark
  imports Rust_F64
begin

text \<open>
  The benchmarks (\<^verbatim>\<open>node-agent/src/hardware/benchmark.rs\<close>). The elapsed time is a parameter;
  the loop of the first one computes values that nothing uses, that of the second fills a
  buffer. The lemmas say what the second one leaves in the buffer, and what a clock that did
  not move makes of the score.
\<close>

record duration =
  secs :: u64
  nanos :: u32

text \<open>\<^verbatim>\<open>Duration::as_secs_f64\<close>\<close>

definition as_secs_f64 :: "duration \<Rightarrow> f64" where
  "as_secs_f64 d =
     f64_add (f64_of_nat (unat (secs d))) (f64_quotient (f64_of_nat (unat (nanos d))) (f64_of_nat 1000000000))"

record benchmark_result =
  score :: f64
  tokens_per_second :: f64
  memory_bandwidth_gbps :: f64
  compute_flops :: f64

definition run_cpu_benchmark :: "duration \<Rightarrow> benchmark_result" where
  "run_cpu_benchmark elapsed =
     (let iterations = 100000000;
          ops_per_sec = f64_quotient (f64_of_nat iterations) (as_secs_f64 elapsed)
      in \<lparr>score = f64_quotient ops_per_sec (f64_of_nat 1000000), tokens_per_second = f64_zero,
          memory_bandwidth_gbps = f64_zero, compute_flops = ops_per_sec\<rparr>)"

text \<open>The loop over \<^verbatim>\<open>0..buf.len()\<close>.\<close>

definition fill_buffer :: "bytes \<Rightarrow> bytes" where
  "fill_buffer buf = fold (\<lambda>i b. b[i := char_of (i mod 256)]) [0..<length buf] buf"

definition run_memory_benchmark :: "duration \<Rightarrow> benchmark_result" where
  "run_memory_benchmark elapsed =
     (let buf_size = 256 * 1024 * 1024;
          bytes_per_sec = f64_quotient (f64_of_nat buf_size) (as_secs_f64 elapsed);
          bandwidth = f64_quotient bytes_per_sec
            (f64_mul (f64_mul (f64_of_nat 1024) (f64_of_nat 1024)) (f64_of_nat 1024))
      in \<lparr>score = bandwidth, tokens_per_second = f64_zero, memory_bandwidth_gbps = bandwidth,
          compute_flops = f64_zero\<rparr>)"

lemma fold_update:
  "n \<le> length xs \<Longrightarrow> fold (\<lambda>i b. b[i := f i]) [0..<n] xs = map f [0..<n] @ drop n xs"
proof (induction n)
  case (Suc n)
  then have "drop n xs = xs ! n # drop (Suc n) xs" by (simp add: Cons_nth_drop_Suc)
  with Suc show ?case by (simp add: list_update_append)
qed simp

lemma fill_buffer_eq: "fill_buffer buf = map (\<lambda>i. char_of (i mod 256)) [0..<length buf]"
  by (simp add: fill_buffer_def fold_update)

text \<open>Numbers that are not 0 have a significand that is not 0.\<close>

lemma f64_of_nat_pos:
  assumes "0 < n" and "n < 2 ^ 53"
  obtains m e where "f64_of_nat n = Finite False m e" and "m \<noteq> 0"
proof -
  from assms obtain m q where "2 ^ 52 \<le> m" "f64_of_nat n = Finite False m (- int q)"
    by (rule nat_significand)
  then show ?thesis using that [of m "- int q"] by simp
qed

lemma cpu_benchmark_no_time:
  "compute_flops (run_cpu_benchmark \<lparr>secs = 0, nanos = 0\<rparr>) = Infinite False"
proof -
  have z: "f64_of_nat 0 = f64_zero" by (simp add: f64_of_nat_def f64_round_def)
  obtain m e where n: "f64_of_nat 1000000000 = Finite False m e" "m \<noteq> 0" by (rule f64_of_nat_pos [of 1000000000]) auto
  obtain m' e' where i: "f64_of_nat 100000000 = Finite False m' e'" "m' \<noteq> 0" by (rule f64_of_nat_pos [of 100000000]) auto
  have "as_secs_f64 \<lparr>secs = 0, nanos = 0\<rparr> = f64_zero"
    using n by (simp add: as_secs_f64_def z f64_round_def signed_def)
  with i show ?thesis by (simp add: run_cpu_benchmark_def Let_def)
qed

end
