(* ===== verification/Node_Slot.thy ===== *)
theory Node_Slot
  imports Prelude
begin

text \<open>
  The contract of the two things the node agent holds at most one of: the
  \<^verbatim>\<open>rpc-server\<close> child process and the loaded shard. Both are a slot that an operation tries
  to fill and another clears. They differ in what filling a full slot does: a second shard
  replaces the first, a second start leaves the running child alone. The lemmas say what is in
  the slot after any sequence of operations.
\<close>

datatype 'i slot_op = is_fill: Fill (item: 'i) | Clear

fun slot_step :: "('i \<Rightarrow> 's \<Rightarrow> 'r \<times> 's) \<Rightarrow> ('s \<Rightarrow> 's) \<Rightarrow> 'i slot_op \<Rightarrow> 's \<Rightarrow> 's" where
  "slot_step fill clear (Fill i) s = snd (fill i s)"
| "slot_step fill clear Clear s = clear s"

definition run_slot :: "('i \<Rightarrow> 's \<Rightarrow> 'r \<times> 's) \<Rightarrow> ('s \<Rightarrow> 's) \<Rightarrow> 'i slot_op list \<Rightarrow> 's \<Rightarrow> 's" where
  "run_slot fill clear ops s = fold (slot_step fill clear) ops s"

text \<open>The attempts to fill since the slot was last cleared, and those that produce something.\<close>

definition since_clear :: "'i slot_op list \<Rightarrow> 'i list" where
  "since_clear ops = rev (map item (takeWhile is_fill (rev ops)))"

definition successes :: "('i \<Rightarrow> 'c option) \<Rightarrow> 'i slot_op list \<Rightarrow> 'c list" where
  "successes f ops = List.map_filter f (since_clear ops)"

fun first_of :: "'a list \<Rightarrow> 'a option" where
  "first_of [] = None"
| "first_of (x # xs) = Some x"

fun last_of :: "'a list \<Rightarrow> 'a option" where
  "last_of [] = None"
| "last_of (x # xs) = Some (last (x # xs))"

lemma successes_simps [simp]:
  "successes f [] = []"
  "successes f (ops @ [Fill i]) = successes f ops @ (case f i of None \<Rightarrow> [] | Some c \<Rightarrow> [c])"
  "successes f (ops @ [Clear]) = []"
  by (simp_all add: successes_def since_clear_def List.map_filter_def split: option.split)

lemma first_of_append: "first_of (xs @ ys) = (if xs = [] then first_of ys else first_of xs)"
  by (cases xs) auto

lemma last_of_snoc [simp]: "last_of (xs @ [x]) = Some x"
  by (cases xs) auto

lemma run_slot_simps [simp]:
  "run_slot fill clear [] s = s"
  "run_slot fill clear (ops @ [op]) s = slot_step fill clear op (run_slot fill clear ops s)"
  by (simp_all add: run_slot_def)

text \<open>\<open>made i s\<close> is what an attempt to fill produces; no operation changes it.\<close>

locale slot =
  fixes fill :: "'i \<Rightarrow> 's \<Rightarrow> ('e + 'r) \<times> 's"
    and clear :: "'s \<Rightarrow> 's"
    and content :: "'s \<Rightarrow> 'c option"
    and made :: "'i \<Rightarrow> 's \<Rightarrow> 'c option"
  assumes made_fill: "made j (snd (fill i s)) = made j s"
    and made_clear: "made j (clear s) = made j s"
    and content_clear: "content (clear s) = None"
begin

lemma made_run: "made j (run_slot fill clear ops s) = made j s"
proof (induction ops rule: rev_induct)
  case (snoc op ops)
  then show ?case by (cases op) (simp_all add: made_fill made_clear)
qed simp

end

locale keeping_slot = slot +
  assumes fill_keeps: "content (snd (fill i s)) = (case content s of Some c \<Rightarrow> Some c | None \<Rightarrow> made i s)"
    and keep_error: "isl (fst (fill i s)) \<longleftrightarrow> content s = None \<and> made i s = None"
begin

lemma first_success:
  assumes "content s = None"
  shows "content (run_slot fill clear ops s) = first_of (successes (\<lambda>i. made i s) ops)"
proof (induction ops rule: rev_induct)
  case (snoc op ops)
  show ?case
  proof (cases op)
    case (Fill i)
    with snoc made_run show ?thesis
      by (cases "successes (\<lambda>i. made i s) ops") (auto simp: fill_keeps first_of_append split: option.split)
  qed (simp add: content_clear)
qed (simp add: assms)

end

locale replacing_slot = slot +
  assumes fill_replaces: "content (snd (fill i s)) = (case made i s of Some c \<Rightarrow> Some c | None \<Rightarrow> content s)"
    and replace_error: "isl (fst (fill i s)) \<longleftrightarrow> made i s = None"
begin

lemma last_success:
  assumes "content s = None"
  shows "content (run_slot fill clear ops s) = last_of (successes (\<lambda>i. made i s) ops)"
proof (induction ops rule: rev_induct)
  case (snoc op ops)
  show ?case
  proof (cases op)
    case (Fill i)
    with snoc made_run show ?thesis by (auto simp: fill_replaces split: option.split)
  qed (simp add: content_clear)
qed (simp add: assms)

end

end
