(* ===== verification/Node_Model.thy ===== *)
theory Node_Model
  imports Node_Slot Gguf_Bytes
begin

text \<open>
  The loaded shard and the forward pass (\<^verbatim>\<open>node-agent/src/inference/model.rs\<close>,
  \<^verbatim>\<open>forward.rs\<close>, \<^verbatim>\<open>mod.rs\<close>). The crate \<^verbatim>\<open>llama-cpp-4\<close> is a parameter: a record of the
  functions the agent calls, over its own types of models, contexts and batches. The flag
  \<open>inference\<close> is the cargo feature of that name. The properties: the forward pass runs on the
  shard loaded last, and its answer carries the model's logits bit by bit.
\<close>

section \<open>The inference library\<close>

text \<open>
  The functions have no state: \<open>load_from_file\<close> depends on the path alone, so a model file
  is taken not to change while the agent runs. Errors are the texts of the library's errors. Numbers of type \<^verbatim>\<open>f32\<close> are their bit
  patterns. \<open>add_seq b ts s all\<close> is \<^verbatim>\<open>add_sequence\<close> with the positions from 0 on;
  \<open>add_token b t p ss logits\<close> is \<^verbatim>\<open>add\<close> of the token \<open>t\<close> at position \<open>p\<close>.
\<close>

record ('m, 'c, 'b) llama =
  backend_init :: "string option"
  load_from_file :: "string \<Rightarrow> string + 'm"
  str_to_token :: "'m \<Rightarrow> string \<Rightarrow> string + i32 list"
  new_context :: "'m \<Rightarrow> u32 \<Rightarrow> string + 'c"
  new_batch :: "nat \<Rightarrow> nat \<Rightarrow> 'b"
  add_seq :: "'b \<Rightarrow> i32 list \<Rightarrow> i32 \<Rightarrow> bool \<Rightarrow> string + 'b"
  add_token :: "'b \<Rightarrow> i32 \<Rightarrow> i32 \<Rightarrow> i32 list \<Rightarrow> bool \<Rightarrow> string + 'b"
  decode :: "'c \<Rightarrow> 'b \<Rightarrow> string + 'c"
  get_logits :: "'c \<Rightarrow> u32 list"
  token_eos :: "'m \<Rightarrow> i32"
  token_to_str :: "'m \<Rightarrow> i32 \<Rightarrow> string option"

text \<open>\<^verbatim>\<open>r.map_err(f)?\<close> followed by the rest of the function.\<close>

fun try_map :: "('d \<Rightarrow> 'e) \<Rightarrow> 'd + 'a \<Rightarrow> ('a \<Rightarrow> 'e + 'b) \<Rightarrow> 'e + 'b" where
  "try_map f (Inl e) k = Inl (f e)"
| "try_map f (Inr x) k = k x"

section \<open>Messages\<close>

text \<open>The fields the agent reads.\<close>

record shard_config =
  config_model_name :: string
  config_first_layer :: i32
  config_num_layers :: i32
  config_has_lm_head :: bool
  gguf_path :: string

record load_status =
  loaded :: bool
  memory_used_bytes :: u64
  layers_loaded :: i32
  load_time_ms :: u64
  load_error :: string

record forward_request =
  request_hidden_state :: bytes
  input_ids :: "i32 list"
  text_prompt :: string
  max_tokens :: i32

record forward_response =
  hidden_state :: bytes
  logits :: bytes
  has_logits :: bool
  compute_time_ms :: u64

section \<open>State\<close>

record 'm shard_state =
  shard_model_name :: string
  shard_first_layer :: i32
  shard_num_layers :: i32
  shard_has_lm_head :: bool
  model :: "'m option"

text \<open>
  The two process-wide cells: whether \<^verbatim>\<open>BACKEND\<close> is initialised, and \<^verbatim>\<open>CURRENT_SHARD\<close>,
  an initialise-once cell around a lock around an optional shard.
\<close>

record 'm node =
  backend_ready :: bool
  current_shard :: "'m shard_state option option"

definition new_node :: "'m node" where
  "new_node = \<lparr>backend_ready = False, current_shard = None\<rparr>"

definition backend :: "('m, 'c, 'b) llama \<Rightarrow> 'm node \<Rightarrow> (string + unit) \<times> 'm node" where
  "backend ll s =
     (if backend_ready s then (Inr (), s)
      else
        case backend_init ll of
          Some e \<Rightarrow> (Inl (''Backend init: '' @ e), s)
        | None \<Rightarrow> (Inr (), s\<lparr>backend_ready := True\<rparr>))"

definition get_loaded_model :: "'m node \<Rightarrow> 'm shard_state option option" where
  "get_loaded_model s = current_shard s"

text \<open>The second call of \<^verbatim>\<open>backend\<close> finds it initialised; \<open>ms\<close> is the time that passed.\<close>

definition load_shard_model ::
  "bool \<Rightarrow> ('m, 'c, 'b) llama \<Rightarrow> u64 \<Rightarrow> shard_config \<Rightarrow> 'm node \<Rightarrow> (string + load_status) \<times> 'm node" where
  "load_shard_model inference ll ms c s =
     (if inference then
        case backend ll s of
          (Inl e, s) \<Rightarrow> (Inl e, s)
        | (Inr _, s) \<Rightarrow>
            (case load_from_file ll (gguf_path c) of
               Inl e \<Rightarrow> (Inl (''Failed to load model: '' @ e), s)
             | Inr m \<Rightarrow>
                 (Inr \<lparr>loaded = True, memory_used_bytes = 0, layers_loaded = config_num_layers c,
                       load_time_ms = ms, load_error = []\<rparr>,
                  s\<lparr>current_shard :=
                     Some (Some \<lparr>shard_model_name = config_model_name c, shard_first_layer = config_first_layer c,
                                 shard_num_layers = config_num_layers c, shard_has_lm_head = config_has_lm_head c,
                                 model = Some m\<rparr>)\<rparr>))
      else
        (Inr \<lparr>loaded = True, memory_used_bytes = 512 * 1024 * 1024, layers_loaded = config_num_layers c,
              load_time_ms = ms, load_error = []\<rparr>, s))"

definition unload_current_shard :: "'m node \<Rightarrow> 'm node" where
  "unload_current_shard s =
     (case current_shard s of Some cell \<Rightarrow> s\<lparr>current_shard := Some None\<rparr> | None \<Rightarrow> s)"

section \<open>The forward pass\<close>

text \<open>\<^verbatim>\<open>flat_map(|&f| f.to_le_bytes())\<close>\<close>

definition logits_bytes :: "u32 list \<Rightarrow> bytes" where
  "logits_bytes fs = concat (map u32_to_le fs)"

text \<open>From the resolution of the tokens on, on the model \<open>m\<close>.\<close>

definition infer ::
  "('m, 'c, 'b) llama \<Rightarrow> u64 \<Rightarrow> 'm \<Rightarrow> forward_request \<Rightarrow> string + forward_response" where
  "infer ll ms m req =
     try_map (\<lambda>e. e)
       (if text_prompt req \<noteq> []
        then try_map (\<lambda>e. ''Tokenize error: '' @ e) (str_to_token ll m (text_prompt req)) Inr
        else Inr (input_ids req))
       (\<lambda>toks.
     try_map (\<lambda>e. ''Context creation: '' @ e) (new_context ll m 2048) (\<lambda>ctx.
     try_map (\<lambda>e. ''Batch add: '' @ e) (add_seq ll (new_batch ll (length toks) 1) toks 0 True) (\<lambda>batch.
     try_map (\<lambda>e. ''Decode error: '' @ e) (decode ll ctx batch) (\<lambda>ctx.
     Inr \<lparr>hidden_state = [], logits = logits_bytes (get_logits ll ctx), has_logits = True, compute_time_ms = ms\<rparr>))))"

definition run_forward_pass ::
  "bool \<Rightarrow> ('m, 'c, 'b) llama \<Rightarrow> u64 \<Rightarrow> forward_request \<Rightarrow> 'm node \<Rightarrow> (string + forward_response) \<times> 'm node" where
  "run_forward_pass inference ll ms req s =
     (if inference then
        case backend ll s of
          (Inl e, s) \<Rightarrow> (Inl e, s)
        | (Inr _, s) \<Rightarrow>
            (case get_loaded_model s of
               None \<Rightarrow> (Inl ''No model loaded'', s)
             | Some None \<Rightarrow> (Inl ''No shard loaded'', s)
             | Some (Some sh) \<Rightarrow>
                 (case model sh of
                    None \<Rightarrow> (Inl ''No model instance'', s)
                  | Some m \<Rightarrow> (infer ll ms m req, s)))
      else
        (Inr \<lparr>hidden_state = request_hidden_state req, logits = [], has_logits = False, compute_time_ms = ms\<rparr>, s))"

text \<open>The functions of \<^verbatim>\<open>inference/mod.rs\<close>, which exist only with the feature.\<close>

definition load_shard ::
  "('m, 'c, 'b) llama \<Rightarrow> u64 \<Rightarrow> shard_config \<Rightarrow> 'm node \<Rightarrow> (string + load_status) \<times> 'm node" where
  "load_shard ll ms c s = load_shard_model True ll ms c s"

definition forward ::
  "('m, 'c, 'b) llama \<Rightarrow> u64 \<Rightarrow> forward_request \<Rightarrow> 'm node \<Rightarrow> (string + forward_response) \<times> 'm node" where
  "forward ll ms req s = run_forward_pass True ll ms req s"

definition unload_shard :: "'m node \<Rightarrow> 'm node" where
  "unload_shard s = unload_current_shard s"

section \<open>The loaded shard as a slot\<close>

definition content_of :: "'m node \<Rightarrow> 'm shard_state option" where
  "content_of s = (case current_shard s of Some (Some sh) \<Rightarrow> Some sh | _ \<Rightarrow> None)"

text \<open>What loading a configuration produces.\<close>

definition shard_from :: "('m, 'c, 'b) llama \<Rightarrow> shard_config \<Rightarrow> 'm node \<Rightarrow> 'm shard_state option" where
  "shard_from ll c s =
     (if \<not> backend_ready s \<and> backend_init ll \<noteq> None then None
      else
        case load_from_file ll (gguf_path c) of
          Inl e \<Rightarrow> None
        | Inr m \<Rightarrow> Some \<lparr>shard_model_name = config_model_name c, shard_first_layer = config_first_layer c,
                          shard_num_layers = config_num_layers c, shard_has_lm_head = config_has_lm_head c,
                          model = Some m\<rparr>)"

lemmas load_defs = load_shard_def load_shard_model_def backend_def shard_from_def content_of_def

interpretation shard_slot:
  replacing_slot "load_shard ll ms" unload_shard content_of "shard_from ll" for ll ms
proof unfold_locales
  fix j i and s :: "'a node"
  show "shard_from ll j (snd (load_shard ll ms i s)) = shard_from ll j s"
    by (simp add: load_defs split: option.split sum.split)
  show "shard_from ll j (unload_shard s) = shard_from ll j s"
    by (simp add: shard_from_def unload_shard_def unload_current_shard_def split: option.split)
  show "content_of (unload_shard s) = None"
    by (simp add: content_of_def unload_shard_def unload_current_shard_def split: option.split)
  show "content_of (snd (load_shard ll ms i s)) = (case shard_from ll i s of Some c \<Rightarrow> Some c | None \<Rightarrow> content_of s)"
    by (simp add: load_defs split: option.split sum.split)
  show "isl (fst (load_shard ll ms i s)) \<longleftrightarrow> shard_from ll i s = None"
    by (simp add: load_defs split: option.split sum.split)
qed

lemma shard_from_model: "shard_from ll c s = Some sh \<Longrightarrow> \<exists>m. load_from_file ll (gguf_path c) = Inr m \<and> model sh = Some m"
  by (auto simp: shard_from_def split: if_splits sum.splits)

text \<open>The cell is created by the first successful load and stays.\<close>

lemma current_shard_run:
  fixes ll :: "('m, 'c, 'b) llama"
  shows "current_shard (run_slot (load_shard ll ms) unload_shard ops new_node) = None \<longleftrightarrow>
     (\<forall>c. Fill c \<in> set ops \<longrightarrow> shard_from ll c new_node = None)"
proof (induction ops rule: rev_induct)
  case (snoc op ops)
  let ?s = "run_slot (load_shard ll ms) unload_shard ops new_node"
  show ?case
  proof (cases op)
    case (Fill c)
    have "current_shard (snd (load_shard ll ms c ?s)) = None \<longleftrightarrow> current_shard ?s = None \<and> shard_from ll c ?s = None"
      by (auto simp: load_defs split: option.split sum.split)
    with Fill snoc show ?thesis by (auto simp: shard_slot.made_run)
  qed (use snoc in \<open>auto simp: unload_shard_def unload_current_shard_def split: option.split\<close>)
qed (simp add: new_node_def)

section \<open>A library that records\<close>

text \<open>
  An instance of the parameter: its context is the list of the batches decoded so far, each a
  list of tokens with their positions; its logits are any function of that history. A model is
  the path it was loaded from, a text is one token per byte.
\<close>

definition recording ::
  "((i32 \<times> i32) list list \<Rightarrow> u32 list) \<Rightarrow> i32 \<Rightarrow> (string, (i32 \<times> i32) list list, (i32 \<times> i32) list) llama" where
  "recording lg eos =
     \<lparr>backend_init = None,
      load_from_file = (\<lambda>p. if p = [] then Inl ''no such file'' else Inr p),
      str_to_token = (\<lambda>m s. Inr (map (\<lambda>c. word_of_nat (code c)) s)),
      new_context = (\<lambda>m n. Inr []),
      new_batch = (\<lambda>n k. []),
      add_seq = (\<lambda>b ts sq all. Inr (b @ zip ts (map word_of_nat [0..<length ts]))),
      add_token = (\<lambda>b t p sq all. Inr (b @ [(t, p)])),
      decode = (\<lambda>c b. Inr (c @ [b])),
      get_logits = lg,
      token_eos = (\<lambda>m. eos),
      token_to_str = (\<lambda>m t. Some [char_of (unat t)])\<rparr>"

definition demo_config :: "string \<Rightarrow> shard_config" where
  "demo_config p =
     \<lparr>config_model_name = ''demo'', config_first_layer = 0, config_num_layers = 4, config_has_lm_head = True,
      gguf_path = p\<rparr>"

definition demo_request :: forward_request where
  "demo_request = \<lparr>request_hidden_state = [], input_ids = [5, 6], text_prompt = [], max_tokens = 0\<rparr>"

abbreviation demo_llama :: "(string, (i32 \<times> i32) list list, (i32 \<times> i32) list) llama" where
  "demo_llama \<equiv> recording (\<lambda>c. map fst (concat c)) 2"

section \<open>Properties\<close>

text \<open>
  C7: After any sequence of loads and unloads the forward pass runs on the model of the last
  successful load since the last unload: a failed load keeps the old shard, an unload forgets
  it. With no such load the request fails, with a different error if no load has succeeded ever.
\<close>

theorem forward_after_loads:
  assumes "backend_init ll = None"
  shows "fst (forward ll ms req (run_slot (load_shard ll ms') unload_shard ops new_node)) =
    (case last_of (successes (\<lambda>c. shard_from ll c new_node) ops) of
       Some sh \<Rightarrow> infer ll ms (the (model sh)) req
     | None \<Rightarrow>
         Inl (if \<forall>c. Fill c \<in> set ops \<longrightarrow> shard_from ll c new_node = None
              then ''No model loaded'' else ''No shard loaded''))"
proof -
  let ?s = "run_slot (load_shard ll ms') unload_shard ops new_node"
  have c: "content_of ?s = last_of (successes (\<lambda>c. shard_from ll c new_node) ops)"
    by (rule shard_slot.last_success) (simp add: content_of_def new_node_def)
  show ?thesis
  proof (cases "content_of ?s")
    case None
    then show ?thesis
      unfolding c [symmetric] current_shard_run [of ll ms' ops, symmetric]
      by (auto simp: forward_def run_forward_pass_def backend_def get_loaded_model_def content_of_def assms
          split: option.splits)
  next
    case (Some sh)
    then have "Some sh = last_of (successes (\<lambda>c. shard_from ll c new_node) ops)" using c by simp
    then have "sh \<in> set (successes (\<lambda>c. shard_from ll c new_node) ops)"
      by (cases "successes (\<lambda>c. shard_from ll c new_node) ops") auto
    then obtain k where "shard_from ll k new_node = Some sh" by (auto simp: successes_def List.map_filter_def)
    then obtain m where "model sh = Some m" using shard_from_model by blast
    with Some show ?thesis unfolding c [symmetric]
      by (auto simp: forward_def run_forward_pass_def backend_def get_loaded_model_def content_of_def assms
          split: option.splits)
  qed
qed

theorem forward_after_loads_witness:
  "fst (forward demo_llama 9 demo_request
     (run_slot (load_shard demo_llama 1) unload_shard
       [Fill (demo_config ''a.gguf''), Clear, Fill (demo_config ''b.gguf''), Fill (demo_config [])] new_node)) =
   infer demo_llama 9 ''b.gguf'' demo_request"
proof -
  have "successes (\<lambda>c. shard_from demo_llama c new_node)
      [Fill (demo_config ''a.gguf''), Clear, Fill (demo_config ''b.gguf''), Fill (demo_config [])] =
    [\<lparr>shard_model_name = ''demo'', shard_first_layer = 0, shard_num_layers = 4, shard_has_lm_head = True,
      model = Some ''b.gguf''\<rparr>]"
    by (simp add: successes_def since_clear_def List.map_filter_def shard_from_def recording_def demo_config_def new_node_def)
  then show ?thesis
    using forward_after_loads [of demo_llama 9 demo_request 1
        "[Fill (demo_config ''a.gguf''), Clear, Fill (demo_config ''b.gguf''), Fill (demo_config [])]"]
    by (simp add: recording_def)
qed

lemma try_map_Inr: "try_map f x k = Inr y \<longleftrightarrow> (\<exists>z. x = Inr z \<and> k z = Inr y)"
  by (cases x) auto

lemma infer_Inr:
  assumes "infer ll ms m req = Inr r"
  obtains toks ctx batch ctx' where
    "if text_prompt req \<noteq> [] then str_to_token ll m (text_prompt req) = Inr toks else toks = input_ids req"
    and "new_context ll m 2048 = Inr ctx" and "add_seq ll (new_batch ll (length toks) 1) toks 0 True = Inr batch"
    and "decode ll ctx batch = Inr ctx'" and "logits r = logits_bytes (get_logits ll ctx')"
  using assms that by (fastforce simp: infer_def try_map_Inr split: if_splits)

text \<open>
  C35: A forward pass that succeeds decoded the request's tokens, as one sequence from position
  0 on in a fresh context of 2048 tokens, and its answer carries the logits without loss:
  reading as many little-endian 32-bit numbers as there are logits gives their bit patterns
  back, and nothing remains.
\<close>

theorem forward_logits_roundtrip:
  assumes "fst (forward ll ms req s) = Inr r" and "valid_slice (logits r)"
  shows "\<exists>sh m toks ctx batch ctx'.
    current_shard s = Some (Some sh) \<and> model sh = Some m \<and>
    (if text_prompt req \<noteq> [] then str_to_token ll m (text_prompt req) = Inr toks else toks = input_ids req) \<and>
    new_context ll m 2048 = Inr ctx \<and> add_seq ll (new_batch ll (length toks) 1) toks 0 True = Inr batch \<and>
    decode ll ctx batch = Inr ctx' \<and>
    read_times (length (get_logits ll ctx')) (read_u32 oc (logits r)) 0 =
      Val (get_logits ll ctx', wlen (logits r))"
proof -
  obtain sh m where sh: "current_shard s = Some (Some sh)" "model sh = Some m" "infer ll ms m req = Inr r"
    using assms(1)
    by (auto simp: forward_def run_forward_pass_def get_loaded_model_def backend_def split: option.splits if_splits)
  obtain toks ctx batch ctx' where i:
    "if text_prompt req \<noteq> [] then str_to_token ll m (text_prompt req) = Inr toks else toks = input_ids req"
    "new_context ll m 2048 = Inr ctx" "add_seq ll (new_batch ll (length toks) 1) toks 0 True = Inr batch"
    "decode ll ctx batch = Inr ctx'" "logits r = logits_bytes (get_logits ll ctx')"
    using sh(3) by (rule infer_Inr)
  have h: "holds_at (logits r) 0 (concat (map u32_to_le (get_logits ll ctx')))"
    using holds_at_concat [of "[]" 0 "logits r" "[]"] i(5) by (simp add: logits_bytes_def)
  have "read_times (length (get_logits ll ctx')) (read_u32 oc (logits r)) 0 =
      Val (get_logits ll ctx', wlen (logits r))"
    using u32_codec.read_times_enc [OF _ assms(2) h, of oc] i(5) by (simp add: logits_bytes_def)
  with sh i(1-4) show ?thesis by blast
qed

theorem forward_logits_roundtrip_witness:
  "\<exists>r toks ctx batch ctx'.
    fst (forward demo_llama 9 demo_request (snd (load_shard demo_llama 1 (demo_config ''a.gguf'') new_node))) = Inr r \<and>
    toks = input_ids demo_request \<and> add_seq demo_llama (new_batch demo_llama (length toks) 1) toks 0 True = Inr batch \<and>
    decode demo_llama ctx batch = Inr ctx' \<and>
    read_times (length (get_logits demo_llama ctx')) (read_u32 True (logits r)) 0 =
      Val (get_logits demo_llama ctx', wlen (logits r))"
proof -
  let ?s = "snd (load_shard demo_llama 1 (demo_config ''a.gguf'') new_node)"
  let ?r = "\<lparr>hidden_state = [], logits = logits_bytes [5, 6], has_logits = True, compute_time_ms = 9\<rparr>"
  have f: "fst (forward demo_llama 9 demo_request ?s) = Inr ?r"
    by (simp add: forward_def run_forward_pass_def load_shard_def load_shard_model_def backend_def get_loaded_model_def
        new_node_def recording_def demo_config_def demo_request_def infer_def)
  have p: "text_prompt demo_request = []" by (simp add: demo_request_def)
  have v: "valid_slice (logits ?r)" by (simp add: valid_slice_def logits_bytes_def)
  show ?thesis
    using forward_logits_roundtrip [OF f v, of True] f
    by (simp only: p not_True_eq_False simp_thms if_False) blast
qed

end
