(* ===== verification/Node_Stream.thy ===== *)
theory Node_Stream
  imports Node_Model
begin

unbundle bit_operations_syntax

text \<open>
  Streaming generation (\<^verbatim>\<open>forward_stream\<close> in \<^verbatim>\<open>node-agent/src/network/grpc_server.rs\<close>): the
  sampling of a token, the blocking task that generates one answer into a channel, and the
  stream over the requests. The channel's receiver may go away at any time: \<open>accepts n\<close> says
  whether it still takes the \<open>n\<close>-th message. The specification \<open>greedy\<close> describes the token
  list of greedy decoding without referring to the code's loop: each token is a largest logit
  of the context that has decoded the ones before it. The properties say that such a list
  is unique and that the stream is a prefix of its texts, what \<open>argmax\<close> picks, and at which
  positions the generated tokens are decoded.
\<close>

section \<open>Sampling\<close>

text \<open>\<^verbatim>\<open>f32::total_cmp\<close> compares these keys of the bit patterns.\<close>

definition total_key :: "u32 \<Rightarrow> int" where
  "total_key w = sint (if bit w 31 then w XOR 0x7FFFFFFF else w)"

text \<open>\<^verbatim>\<open>Iterator::max_by\<close>: of equal elements the last.\<close>

fun max_by :: "('a \<Rightarrow> int) \<Rightarrow> 'a list \<Rightarrow> 'a option" where
  "max_by key [] = None"
| "max_by key (x # xs) = Some (fold (\<lambda>y best. if key y < key best then best else y) xs x)"

definition argmax :: "u32 list \<Rightarrow> i32" where
  "argmax lg =
     (case max_by (\<lambda>(i, a). total_key a) (enumerate 0 lg) of
        Some (i, a) \<Rightarrow> word_of_nat i
      | None \<Rightarrow> 0)"

section \<open>Generation\<close>

datatype grpc_code = Internal | Unimplemented | Other nat

type_synonym status = "grpc_code \<times> string"
type_synonym item = "status + forward_response"

text \<open>\<^verbatim>\<open>format!("{}", i)\<close> of an \<^verbatim>\<open>i32\<close>\<close>

definition dec_i32 :: "i32 \<Rightarrow> string" where
  "dec_i32 w = (if sint w < 0 then CHR ''-'' # dec (nat (- sint w)) else dec (nat (sint w)))"

definition token_text :: "('m, 'c, 'b) llama \<Rightarrow> 'm \<Rightarrow> i32 \<Rightarrow> string" where
  "token_text ll m t = (case token_to_str ll m t of Some s \<Rightarrow> s | None \<Rightarrow> ''['' @ dec_i32 t @ '']'')"

definition token_response :: "('m, 'c, 'b) llama \<Rightarrow> 'm \<Rightarrow> i32 \<Rightarrow> forward_response" where
  "token_response ll m t =
     \<lparr>hidden_state = [], logits = token_text ll m t, has_logits = True, compute_time_ms = 0\<rparr>"

definition end_marker :: forward_response where
  "end_marker = \<lparr>hidden_state = [], logits = [], has_logits = False, compute_time_ms = 0\<rparr>"

text \<open>\<^verbatim>\<open>blocking_send\<close> fails once the receiver is gone.\<close>

definition blocking_send :: "(nat \<Rightarrow> bool) \<Rightarrow> item \<Rightarrow> item list \<Rightarrow> bool \<times> item list" where
  "blocking_send accepts x sent =
     (if accepts (length sent) then (True, sent @ [x]) else (False, sent))"

text \<open>Decodes the last token at its position, unless it is token 0.\<close>

definition feed :: "('m, 'c, 'b) llama \<Rightarrow> nat \<Rightarrow> i32 \<Rightarrow> 'c \<Rightarrow> 'c option" where
  "feed ll pos last_token ctx =
     (if last_token \<noteq> 0 then
        case add_token ll (new_batch ll 1 1) last_token (word_of_nat pos) [0] True of
          Inl e \<Rightarrow> None
        | Inr b \<Rightarrow> (case decode ll ctx b of Inl e \<Rightarrow> None | Inr ctx' \<Rightarrow> Some ctx')
      else Some ctx)"

fun token_loop ::
  "('m, 'c, 'b) llama \<Rightarrow> (nat \<Rightarrow> bool) \<Rightarrow> 'm \<Rightarrow> i32 \<Rightarrow> nat list \<Rightarrow> i32 \<Rightarrow> 'c \<Rightarrow> item list \<Rightarrow> item list \<times> 'c" where
  "token_loop ll accepts m eos_id [] last_token ctx sent = (sent, ctx)"
| "token_loop ll accepts m eos_id (pos # ps) last_token ctx sent =
     (case feed ll pos last_token ctx of
        None \<Rightarrow> (sent, ctx)
      | Some ctx \<Rightarrow>
          if get_logits ll ctx = [] then (sent, ctx)
          else
            let sampled_id = argmax (get_logits ll ctx);
                (ok, sent) = blocking_send accepts (Inr (token_response ll m sampled_id)) sent
            in if \<not> ok then (sent, ctx)
               else if sampled_id = eos_id then (sent, ctx)
               else token_loop ll accepts m eos_id ps sampled_id ctx sent)"

text \<open>
  The task from the tokenisation on: the messages it sends, and its last context. An error is
  the only message.
\<close>

definition send_error :: "(nat \<Rightarrow> bool) \<Rightarrow> string \<Rightarrow> item list" where
  "send_error accepts e = snd (blocking_send accepts (Inl (Internal, e)) [])"

definition generate_on ::
  "('m, 'c, 'b) llama \<Rightarrow> (nat \<Rightarrow> bool) \<Rightarrow> 'm \<Rightarrow> string \<Rightarrow> nat \<Rightarrow> item list \<times> 'c option" where
  "generate_on ll accepts m prompt max_toks =
     (case str_to_token ll m prompt of
        Inl e \<Rightarrow> (send_error accepts (''Tokenize: '' @ e), None)
      | Inr prompt_tokens \<Rightarrow>
          (case new_context ll m 2048 of
             Inl e \<Rightarrow> (send_error accepts (''Ctx: '' @ e), None)
           | Inr ctx \<Rightarrow>
               (case add_seq ll (new_batch ll (length prompt_tokens) 1) prompt_tokens 0 True of
                  Inl e \<Rightarrow> (send_error accepts (''Batch: '' @ e), Some ctx)
                | Inr batch \<Rightarrow>
                    (case decode ll ctx batch of
                       Inl e \<Rightarrow> (send_error accepts (''Decode prompt: '' @ e), Some ctx)
                     | Inr ctx \<Rightarrow>
                         let (sent, ctx) = token_loop ll accepts m (token_eos ll m) [0..<max_toks] 0 ctx []
                         in (snd (blocking_send accepts (Inr end_marker) sent), Some ctx)))))"

definition default_model_path :: string where
  "default_model_path = ''/models/qwen2.5-0.5b-instruct-q4_k_m.gguf''"

text \<open>\<open>env\<close> is the variable \<^verbatim>\<open>ARCFLARE_MODEL_PATH\<close>.\<close>

definition generate ::
  "('m, 'c, 'b) llama \<Rightarrow> (nat \<Rightarrow> bool) \<Rightarrow> string option \<Rightarrow> string \<Rightarrow> nat \<Rightarrow> 'm node \<Rightarrow> item list \<times> 'm node" where
  "generate ll accepts env prompt max_toks s =
     (case backend ll s of
        (Inl e, s) \<Rightarrow> (send_error accepts (''Backend init: '' @ e), s)
      | (Inr _, s) \<Rightarrow>
          (case load_from_file ll (case env of Some p \<Rightarrow> p | None \<Rightarrow> default_model_path) of
             Inl e \<Rightarrow> (send_error accepts (''Load model: '' @ e), s)
           | Inr m \<Rightarrow> (fst (generate_on ll accepts m prompt max_toks), s)))"

section \<open>The stream\<close>

definition token_limit :: "forward_request \<Rightarrow> nat" where
  "token_limit req = (if 0 <s max_tokens req then unat (max_tokens req) else 256)"

text \<open>\<^verbatim>\<open>yield resp?\<close>: the first error is the last thing yielded.\<close>

fun yield_items :: "item list \<Rightarrow> item list \<times> bool" where
  "yield_items [] = ([], True)"
| "yield_items (Inl e # xs) = ([Inl e], False)"
| "yield_items (Inr r # xs) = (let (ys, ok) = yield_items xs in (Inr r # ys, ok))"

text \<open>A client that reads the whole stream: every message of a task is taken.\<close>

fun forward_stream ::
  "('m, 'c, 'b) llama \<Rightarrow> u64 \<Rightarrow> string option \<Rightarrow> (status + forward_request) list \<Rightarrow> 'm node \<Rightarrow> item list \<times> 'm node" where
  "forward_stream ll ms env [] s = ([], s)"
| "forward_stream ll ms env (Inl st # rs) s = ([Inl st], s)"
| "forward_stream ll ms env (Inr req # rs) s =
     (if text_prompt req \<noteq> [] then
        let (sent, s) = generate ll (\<lambda>_. True) env (text_prompt req) (token_limit req) s;
            (ys, ok) = yield_items sent
        in if ok then let (zs, s) = forward_stream ll ms env rs s in (ys @ zs, s) else (ys, s)
      else
        case forward ll ms req s of
          (Inl e, s) \<Rightarrow> ([Inl (Internal, ''Forward: '' @ e)], s)
        | (Inr r, s) \<Rightarrow> let (zs, s) = forward_stream ll ms env rs s in (Inr r # zs, s))"

section \<open>Greedy decoding\<close>

text \<open>
  The specification. Numbers in the total order of IEEE 754: negative ones below the others and
  by decreasing magnitude.
\<close>

definition total_rank :: "u32 \<Rightarrow> int" where
  "total_rank w = (if bit w 31 then - 1 - uint (take_bit 31 w) else uint w)"

text \<open>\<open>t\<close> is the index of a largest number, and of several the last.\<close>

definition largest :: "u32 list \<Rightarrow> i32 \<Rightarrow> bool" where
  "largest lg t \<longleftrightarrow>
     (\<exists>i < length lg. t = word_of_nat i \<and> (\<forall>j < length lg. total_rank (lg ! j) \<le> total_rank (lg ! i)) \<and>
       (\<forall>j < length lg. i < j \<longrightarrow> total_rank (lg ! j) < total_rank (lg ! i)))"

text \<open>
  The context \<open>c\<close> after reading the tokens, each in a batch of its own, at the positions from
  \<open>pos\<close> on. Token 0 stands for no token: it is passed over.
\<close>

fun read_tokens :: "('m, 'c, 'b) llama \<Rightarrow> nat \<Rightarrow> i32 list \<Rightarrow> 'c \<Rightarrow> 'c option" where
  "read_tokens ll pos [] c = Some c"
| "read_tokens ll pos (t # ts) c =
     (if t = 0 then read_tokens ll (Suc pos) ts c
      else
        case add_token ll (new_batch ll 1 1) t (word_of_nat pos) [0] True of
          Inl e \<Rightarrow> None
        | Inr b \<Rightarrow> (case decode ll c b of Inl e \<Rightarrow> None | Inr c' \<Rightarrow> read_tokens ll (Suc pos) ts c'))"

text \<open>
  \<open>ts\<close> is decoded greedily from the context \<open>c0\<close> of the prompt, with at most \<open>n\<close> tokens: every
  token is a largest logit after those before it, only the last may be the end of generation,
  and the list is shorter than \<open>n\<close> only if it ends so, or if the last token cannot be read
  or leaves no logits.
\<close>

definition greedy :: "('m, 'c, 'b) llama \<Rightarrow> i32 \<Rightarrow> nat \<Rightarrow> 'c \<Rightarrow> i32 list \<Rightarrow> bool" where
  "greedy ll eos_id n c0 ts \<longleftrightarrow>
     length ts \<le> n \<and>
     (\<forall>i < length ts. \<exists>c. read_tokens ll 1 (take i ts) c0 = Some c \<and> largest (get_logits ll c) (ts ! i)) \<and>
     (\<forall>i. Suc i < length ts \<longrightarrow> ts ! i \<noteq> eos_id) \<and>
     (length ts < n \<longrightarrow>
       ts \<noteq> [] \<and> last ts = eos_id \<or> (\<forall>c. read_tokens ll 1 ts c0 = Some c \<longrightarrow> get_logits ll c = []))"

text \<open>The messages with the texts of the tokens, and the end marker.\<close>

definition greedy_items :: "('m, 'c, 'b) llama \<Rightarrow> 'm \<Rightarrow> i32 list \<Rightarrow> item list" where
  "greedy_items ll m ts =
     map (\<lambda>t. Inr \<lparr>hidden_state = [],
       logits = (case token_to_str ll m t of Some w \<Rightarrow> w | None \<Rightarrow> ''['' @ dec_i32 t @ '']''),
       has_logits = True, compute_time_ms = 0\<rparr>) ts @
     [Inr \<lparr>hidden_state = [], logits = [], has_logits = False, compute_time_ms = 0\<rparr>]"

text \<open>
  The same computed. \<open>after n\<close> is the token chosen in round \<open>n\<close> with the context it was chosen
  in: round \<open>n + 1\<close> feeds the token at position \<open>n\<close> and takes the largest logit.
\<close>

definition next_token :: "('m, 'c, 'b) llama \<Rightarrow> nat \<Rightarrow> i32 \<Rightarrow> 'c \<Rightarrow> (i32 \<times> 'c) option" where
  "next_token ll pos t c =
     (case feed ll pos t c of
        None \<Rightarrow> None
      | Some c \<Rightarrow> if get_logits ll c = [] then None else Some (argmax (get_logits ll c), c))"

primrec after :: "('m, 'c, 'b) llama \<Rightarrow> 'c \<Rightarrow> nat \<Rightarrow> (i32 \<times> 'c) option" where
  "after ll c0 0 = Some (0, c0)"
| "after ll c0 (Suc n) = (case after ll c0 n of None \<Rightarrow> None | Some (t, c) \<Rightarrow> next_token ll n t c)"

fun upto_first :: "'a \<Rightarrow> 'a list \<Rightarrow> 'a list" where
  "upto_first x [] = []"
| "upto_first x (y # ys) = (if y = x then [y] else y # upto_first x ys)"

definition greedy_tokens :: "('m, 'c, 'b) llama \<Rightarrow> i32 \<Rightarrow> 'c \<Rightarrow> nat \<Rightarrow> i32 list" where
  "greedy_tokens ll eos_id c0 n =
     upto_first eos_id (List.map_filter (\<lambda>i. map_option fst (after ll c0 (Suc i))) [0..<n])"

lemma after_None: "after ll c0 i = None \<Longrightarrow> i \<le> j \<Longrightarrow> after ll c0 j = None"
  by (induction j) (auto simp: le_Suc_eq)

declare after.simps(2) [simp del]

lemma length_upto_first: "length (upto_first x ys) \<le> length ys"
  by (induction ys) auto

lemma length_greedy: "length (greedy_tokens ll eos_id c0 n) \<le> n"
proof -
  have "length (List.map_filter f xs) \<le> length xs" for f :: "nat \<Rightarrow> i32 option" and xs
    by (simp add: List.map_filter_def)
  then have "length (List.map_filter (\<lambda>i. map_option fst (after ll c0 (Suc i))) [0..<n]) \<le> n"
    by (metis length_upt minus_nat.diff_0)
  then show ?thesis unfolding greedy_tokens_def by (rule order_trans [OF length_upto_first])
qed

lemma token_loop_greedy:
  assumes "after ll c0 k = Some (t, c)" and "length sent \<le> K"
  shows "fst (token_loop ll (\<lambda>i. i < K) m eos_id [k..<n] t c sent) =
    take K (sent @ map (Inr \<circ> token_response ll m)
      (upto_first eos_id (List.map_filter (\<lambda>i. map_option fst (after ll c0 (Suc i))) [k..<n])))"
  using assms
proof (induction "n - k" arbitrary: k t c sent)
  case 0
  then show ?case by (simp add: List.map_filter_simps)
next
  case (Suc d)
  then have ks: "[k..<n] = k # [Suc k..<n]" by (simp add: upt_conv_Cons)
  let ?f = "\<lambda>i. map_option fst (after ll c0 (Suc i))"
  show ?case
  proof (cases "after ll c0 (Suc k)")
    case None
    then have "?f i = None" if "k \<le> i" for i using after_None [OF None, of "Suc i"] that by simp
    then have "List.map_filter ?f [k..<n] = []" by (auto simp: List.map_filter_def)
    moreover have "fst (token_loop ll (\<lambda>i. i < K) m eos_id [k..<n] t c sent) = sent"
      using None Suc.prems(1) by (auto simp: ks after.simps(2) next_token_def split: option.splits if_splits)
    ultimately show ?thesis using Suc.prems(2) by simp
  next
    case (Some r)
    then obtain t' c' where r: "after ll c0 (Suc k) = Some (t', c')" by (cases r) auto
    with Suc.prems(1) have f: "feed ll k t c = Some c'" "get_logits ll c' \<noteq> []" "t' = argmax (get_logits ll c')"
      by (auto simp: after.simps(2) next_token_def split: option.splits if_splits)
    have mf: "List.map_filter ?f [k..<n] = t' # List.map_filter ?f [Suc k..<n]"
      using r by (simp add: ks List.map_filter_simps)
    show ?thesis
    proof (cases "length sent < K")
      case True
      then have "length (sent @ [Inr (token_response ll m t')]) \<le> K" by simp
      with Suc.hyps(1) [of "Suc k" t' c' "sent @ [Inr (token_response ll m t')]"] Suc.hyps(2) r True f Suc.prems(2)
      show ?thesis unfolding mf by (simp add: ks blocking_send_def Let_def)
    next
      case False
      with f Suc.prems(2) show ?thesis unfolding mf by (simp add: ks blocking_send_def Let_def)
    qed
  qed
qed

lemma send_last: "snd (blocking_send (\<lambda>i. i < K) x (take K xs)) = take K (xs @ [x])"
  by (auto simp: blocking_send_def min_def)

lemma generate_greedy:
  assumes "str_to_token ll m prompt = Inr toks" and "new_context ll m 2048 = Inr ctx"
    and "add_seq ll (new_batch ll (length toks) 1) toks 0 True = Inr batch" and "decode ll ctx batch = Inr c0"
  shows "fst (generate_on ll (\<lambda>i. i < K) m prompt n) =
      take K (map (Inr \<circ> token_response ll m) (greedy_tokens ll (token_eos ll m) c0 n) @ [Inr end_marker]) \<and>
    length (fst (generate_on ll (\<lambda>i. i < K) m prompt n)) \<le> Suc n"
proof -
  obtain sent c where l: "token_loop ll (\<lambda>i. i < K) m (token_eos ll m) [0..<n] 0 c0 [] = (sent, c)"
    by fastforce
  have "sent = take K (map (Inr \<circ> token_response ll m) (greedy_tokens ll (token_eos ll m) c0 n))"
    using token_loop_greedy [of ll c0 0 0 c0 "[]" K m "token_eos ll m" n] l by (simp add: greedy_tokens_def)
  then have "fst (generate_on ll (\<lambda>i. i < K) m prompt n) =
      take K (map (Inr \<circ> token_response ll m) (greedy_tokens ll (token_eos ll m) c0 n) @ [Inr end_marker])"
    using assms l by (simp add: generate_on_def send_last)
  then show ?thesis using length_greedy [of ll "token_eos ll m" c0 n] by simp
qed

section \<open>The computed tokens are the greedy ones\<close>

lemma sint_clear: "\<not> bit (w :: u32) 31 \<Longrightarrow> sint w = uint w"
proof -
  assume a: "\<not> bit w 31"
  have "take_bit 31 (uint w) = uint w"
    by (rule bit_eqI) (use a in \<open>auto simp: bit_take_bit_iff bit_uint_iff less_Suc_eq numeral_eq_Suc\<close>)
  then show ?thesis using a by (simp add: sint_uint signed_take_bit_def bit_uint_iff)
qed

lemma sint_set: "bit (w :: u32) 31 \<Longrightarrow> sint (w XOR 0x7FFFFFFF) = - 1 - uint (take_bit 31 w)"
proof -
  assume a: "bit w 31"
  have m: "(0x7FFFFFFF :: u32) = mask 31" by (simp add: mask_eq_exp_minus_1)
  have "w XOR 0x7FFFFFFF = NOT (take_bit 31 w)"
    unfolding m by (rule bit_word_eqI) (use a in \<open>auto simp: bit_simps less_Suc_eq numeral_eq_Suc\<close>)
  moreover have "sint (take_bit 31 w) = uint (take_bit 31 w)" by (rule sint_clear) (simp add: bit_take_bit_iff)
  moreover have "signed_take_bit 32 (- uint (take_bit 31 w) - 1) = - uint (take_bit 31 w) - 1"
  proof (rule signed_take_bit_int_eq_self)
    have u: "uint (take_bit 31 w) < 2 ^ 32" "0 \<le> uint (take_bit 31 w)"
      using uint_lt2p [of "take_bit 31 w"] by simp_all
    then show "- (2 ^ 32) \<le> - uint (take_bit 31 w) - 1" "- uint (take_bit 31 w) - 1 < 2 ^ 32" by linarith+
  qed
  ultimately show ?thesis by (simp add: signed_not_eq not_int_def)
qed

lemma total_key_rank: "total_key w = total_rank w"
  by (simp add: total_key_def total_rank_def sint_clear sint_set)

lemma max_by_snoc:
  "max_by key (xs @ [y]) =
     (case max_by key xs of Some b \<Rightarrow> Some (if key y < key b then b else y) | None \<Rightarrow> Some y)"
  by (cases xs) auto

lemma max_by_enumerate:
  "lg \<noteq> [] \<Longrightarrow> \<exists>i. max_by (\<lambda>(i, a). key a) (enumerate 0 lg) = Some (i, lg ! i) \<and> i < length lg \<and>
     (\<forall>j < length lg. key (lg ! j) \<le> key (lg ! i)) \<and> (\<forall>j < length lg. i < j \<longrightarrow> key (lg ! j) < key (lg ! i))"
proof (induction lg rule: rev_induct)
  case (snoc a lg)
  have e: "enumerate 0 (lg @ [a]) = enumerate 0 lg @ [(length lg, a)]" by (simp add: enumerate_append_eq)
  show ?case
  proof (cases "lg = []")
    case False
    with snoc.IH obtain i where i: "max_by (\<lambda>(i, a). key a) (enumerate 0 lg) = Some (i, lg ! i)" "i < length lg"
      "\<forall>j < length lg. key (lg ! j) \<le> key (lg ! i)" "\<forall>j < length lg. i < j \<longrightarrow> key (lg ! j) < key (lg ! i)" by blast
    show ?thesis
    proof (cases "key a < key (lg ! i)")
      case True
      then show ?thesis
        unfolding e max_by_snoc i(1) using i(2-)
        by (intro exI [of _ i]) (auto simp: nth_append less_Suc_eq)
    next
      case False
      then show ?thesis
        unfolding e max_by_snoc i(1) using i(2-)
        by (intro exI [of _ "length lg"]) (fastforce simp: nth_append less_Suc_eq)
    qed
  qed simp
qed simp

lemma argmax_largest: "lg \<noteq> [] \<Longrightarrow> largest lg (argmax lg)"
  using max_by_enumerate [of lg total_key] by (auto simp: argmax_def largest_def total_key_rank)

lemma largest_unique: "largest lg t \<Longrightarrow> largest lg u \<Longrightarrow> t = u"
  by (auto simp: largest_def) (metis less_irrefl linorder_neqE_nat order_le_less_trans)

lemma largest_nonempty: "largest lg t \<Longrightarrow> lg \<noteq> []"
  by (auto simp: largest_def)

lemma greedy_nth: "greedy ll e n c0 ts \<Longrightarrow> i < length ts \<Longrightarrow>
    \<exists>c. read_tokens ll 1 (take i ts) c0 = Some c \<and> largest (get_logits ll c) (ts ! i)"
  by (simp add: greedy_def)

text \<open>A list that goes on cannot stop where another stops.\<close>

lemma greedy_stops:
  assumes "greedy ll e n c0 ts" and "greedy ll e n c0 us" and "take (length ts) us = ts"
  shows "length us \<le> length ts"
proof (rule ccontr)
  assume l: "\<not> length us \<le> length ts"
  then obtain c where "read_tokens ll 1 ts c0 = Some c" "get_logits ll c \<noteq> []"
    using assms(2,3) largest_nonempty unfolding greedy_def by (metis linorder_not_le)
  moreover have "length ts < n" using l assms(2) by (simp add: greedy_def)
  ultimately have e: "ts \<noteq> []" "last ts = e" using assms(1) by (auto simp: greedy_def)
  then have "us ! (length ts - 1) = e" using assms(3) l by (metis last_conv_nth diff_less length_greater_0_conv less_one nth_take)
  moreover have "Suc (length ts - 1) < length us" using e(1) l by (cases ts) auto
  ultimately show False using assms(2) by (auto simp: greedy_def)
qed

lemma take_whole: "take k xs = take k ys \<Longrightarrow> length xs \<le> k \<Longrightarrow> take (length xs) ys = xs"
  by (auto simp: min_def)

lemma greedy_unique:
  assumes "greedy ll e n c0 ts" and "greedy ll e n c0 us"
  shows "ts = us"
proof -
  have "take k ts = take k us" for k
  proof (induction k)
    case (Suc k)
    consider "k < length ts" "k < length us" | "length ts \<le> k" | "length us \<le> k" by linarith
    then show ?case
    proof cases
      case 1
      obtain c where c: "read_tokens ll 1 (take k ts) c0 = Some c" "largest (get_logits ll c) (ts ! k)"
        using greedy_nth [OF assms(1) 1(1)] by blast
      obtain d where d: "read_tokens ll 1 (take k us) c0 = Some d" "largest (get_logits ll d) (us ! k)"
        using greedy_nth [OF assms(2) 1(2)] by blast
      have "d = c" using c(1) d(1) unfolding Suc by simp
      then have "ts ! k = us ! k" using c(2) d(2) largest_unique by blast
      then show ?thesis using Suc 1 by (simp add: take_Suc_conv_app_nth)
    next
      case 2
      then have "take (length ts) us = ts" using take_whole [OF Suc] by simp
      then show ?thesis using greedy_stops [OF assms] 2 Suc by simp
    next
      case 3
      then have "take (length us) ts = us" using take_whole [OF Suc [symmetric]] by simp
      then show ?thesis using greedy_stops [OF assms(2,1)] 3 Suc by simp
    qed
  qed simp
  from this [of "length ts + length us"] show ?thesis by simp
qed

lemma read_tokens_snoc:
  "read_tokens ll pos (ts @ [t]) c = Option.bind (read_tokens ll pos ts c) (feed ll (pos + length ts) t)"
  by (induction ts arbitrary: pos c) (auto simp: feed_def split: sum.split)

text \<open>Along the rounds: \<open>pre\<close> has been chosen, \<open>t\<close> last.\<close>

lemma greedy_from:
  assumes "after ll c0 k = Some (t, c)" and "feed ll k t c = read_tokens ll 1 pre c0" and "length pre = k" and "k \<le> n"
    and "\<forall>i < k. \<exists>c. read_tokens ll 1 (take i pre) c0 = Some c \<and> largest (get_logits ll c) (pre ! i)"
    and "\<forall>i < k. pre ! i \<noteq> eos_id"
  shows "greedy ll eos_id n c0
    (pre @ upto_first eos_id (List.map_filter (\<lambda>i. map_option fst (after ll c0 (Suc i))) [k..<n]))"
  using assms
proof (induction "n - k" arbitrary: k t c pre)
  case 0
  then show ?case by (simp add: greedy_def List.map_filter_simps)
next
  case (Suc d)
  then have ks: "[k..<n] = k # [Suc k..<n]" by (simp add: upt_conv_Cons)
  let ?f = "\<lambda>i. map_option fst (after ll c0 (Suc i))"
  show ?case
  proof (cases "after ll c0 (Suc k)")
    case None
    then have "?f i = None" if "k \<le> i" for i using after_None [OF None, of "Suc i"] that by simp
    then have "List.map_filter ?f [k..<n] = []" by (auto simp: List.map_filter_def)
    moreover have "\<forall>c. read_tokens ll 1 pre c0 = Some c \<longrightarrow> get_logits ll c = []"
      using None Suc.prems(1,2) by (auto simp: after.simps(2) next_token_def split: option.splits if_splits)
    ultimately show ?thesis using Suc.prems by (simp add: greedy_def)
  next
    case (Some r)
    then obtain t' c' where r: "after ll c0 (Suc k) = Some (t', c')" by (cases r) auto
    with Suc.prems(1) have f: "feed ll k t c = Some c'" "get_logits ll c' \<noteq> []" "t' = argmax (get_logits ll c')"
      by (auto simp: after.simps(2) next_token_def split: option.splits if_splits)
    have mf: "List.map_filter ?f [k..<n] = t' # List.map_filter ?f [Suc k..<n]"
      using r by (simp add: ks List.map_filter_simps)
    have rd: "read_tokens ll 1 pre c0 = Some c'" using Suc.prems(2) f(1) by simp
    have lg: "\<forall>i < Suc k. \<exists>c. read_tokens ll 1 (take i (pre @ [t'])) c0 = Some c \<and> largest (get_logits ll c) ((pre @ [t']) ! i)"
      using Suc.prems(3,5) rd argmax_largest [OF f(2)] f(3) by (auto simp: less_Suc_eq nth_append)
    show ?thesis
    proof (cases "t' = eos_id")
      case True
      have "\<forall>i. Suc i < length (pre @ [t']) \<longrightarrow> (pre @ [t']) ! i \<noteq> eos_id"
        using Suc.prems(3,6) by (auto simp: nth_append)
      then show ?thesis using True lg Suc.prems(3) Suc.hyps(2) by (simp add: mf greedy_def)
    next
      case False
      have "feed ll (Suc k) t' c' = read_tokens ll 1 (pre @ [t']) c0"
        using rd Suc.prems(3) by (simp add: read_tokens_snoc)
      moreover have "\<forall>i < Suc k. (pre @ [t']) ! i \<noteq> eos_id"
        using False Suc.prems(3,6) by (auto simp: less_Suc_eq nth_append)
      ultimately show ?thesis
        using Suc.hyps(1) [of "Suc k" t' c' "pre @ [t']"] Suc.hyps(2) Suc.prems(3) r lg False by (simp add: mf)
    qed
  qed
qed

lemma greedy_computed: "greedy ll eos_id n c0 us \<longleftrightarrow> us = greedy_tokens ll eos_id c0 n"
proof -
  have "greedy ll eos_id n c0 (greedy_tokens ll eos_id c0 n)"
    using greedy_from [of ll c0 0 0 c0 "[]" n eos_id] by (simp add: greedy_tokens_def feed_def)
  then show ?thesis by (auto dest: greedy_unique)
qed

lemma items_computed: "greedy_items ll m ts = map (Inr \<circ> token_response ll m) ts @ [Inr end_marker]"
  by (simp add: greedy_items_def token_response_def token_text_def end_marker_def)

section \<open>Properties\<close>

text \<open>
  C5: Once the prompt is decoded, there is exactly one list of tokens that is decoded greedily
  from it, up to the limit and up to the first end-of-generation token, and the messages of
  the task are the texts of these tokens and then one end marker; a receiver that leaves after
  \<open>K\<close> messages has got the first \<open>K\<close> of them. So there are at most limit + 1 messages.
\<close>

theorem stream_is_greedy:
  assumes "str_to_token ll m prompt = Inr toks" and "new_context ll m 2048 = Inr ctx"
    and "add_seq ll (new_batch ll (length toks) 1) toks 0 True = Inr batch" and "decode ll ctx batch = Inr c0"
  shows "\<exists>ts. (\<forall>us. greedy ll (token_eos ll m) n c0 us \<longleftrightarrow> us = ts) \<and>
    fst (generate_on ll (\<lambda>i. i < K) m prompt n) = take K (greedy_items ll m ts) \<and>
    length (fst (generate_on ll (\<lambda>i. i < K) m prompt n)) \<le> Suc n"
  using generate_greedy [OF assms] greedy_computed [of ll "token_eos ll m" n c0]
  unfolding items_computed by blast

text \<open>The second token depends on the first having been decoded.\<close>

theorem stream_is_greedy_witness:
  "fst (generate_on (recording (\<lambda>c. [0, 1, of_nat (length c)]) 1) (\<lambda>i. i < 9) ''m'' ''hi'' 2) =
     greedy_items (recording (\<lambda>c. [0, 1, of_nat (length c)]) 1) ''m'' [2, 2] \<and>
   read_tokens (recording (\<lambda>c. [0, 1, of_nat (length c)]) 1) 1 [2, 2] [[(104, 0), (105, 1)]] =
     Some [[(104, 0), (105, 1)], [(2, 1)], [(2, 2)]]"
proof -
  let ?ll = "recording (\<lambda>c. [0, 1, of_nat (length c)]) 1"
  have g: "greedy_tokens ?ll 1 [[(104, 0), (105, 1)]] 2 = [2, 2]"
    by (simp add: greedy_tokens_def after.simps next_token_def feed_def recording_def argmax_def total_key_def
        upt_rec List.map_filter_simps)
  have h: "str_to_token ?ll ''m'' ''hi'' = Inr [104, 105]" "new_context ?ll ''m'' 2048 = Inr []"
    "add_seq ?ll (new_batch ?ll (length [104 :: i32, 105]) 1) [104, 105] 0 True = Inr [(104, 0), (105, 1)]"
    "decode ?ll [] [(104, 0), (105, 1)] = Inr [[(104, 0), (105, 1)]]"
    by (simp_all add: recording_def upt_rec)
  have e: "token_eos ?ll ''m'' = 1" by (simp add: recording_def)
  obtain ts where ts: "\<forall>us. greedy ?ll 1 2 [[(104, 0), (105, 1)]] us \<longleftrightarrow> us = ts"
    "fst (generate_on ?ll (\<lambda>i. i < 9) ''m'' ''hi'' 2) = take 9 (greedy_items ?ll ''m'' ts)"
  proof (rule exE [OF stream_is_greedy [OF h, where K = 9 and n = 2, unfolded e]], elim conjE)
  qed (rule that)
  have "greedy ?ll 1 2 [[(104, 0), (105, 1)]] [2, 2]" by (simp only: greedy_computed g)
  then have "ts = [2, 2]" using spec [OF ts(1), of "[2, 2]"] by simp
  moreover have "read_tokens ?ll 1 [2, 2] [[(104, 0), (105, 1)]] = Some [[(104, 0), (105, 1)], [(2, 1)], [(2, 2)]]"
    by (simp add: recording_def)
  ultimately show ?thesis using ts(2) by (simp add: greedy_items_def)
qed

text \<open>
  C36: \<^verbatim>\<open>argmax\<close> returns the index of a largest logit in the total order of floating-point
  numbers, and of several equal ones the last.
\<close>

theorem argmax_last_maximum:
  assumes "lg \<noteq> []" and "length lg \<le> 2 ^ 31"
  shows "unat (argmax lg) < length lg \<and>
    (\<forall>j < length lg. total_key (lg ! j) \<le> total_key (lg ! unat (argmax lg))) \<and>
    (\<forall>j < length lg. unat (argmax lg) < j \<longrightarrow> total_key (lg ! j) < total_key (lg ! unat (argmax lg)))"
proof -
  obtain i where i: "max_by (\<lambda>(i, a). total_key a) (enumerate 0 lg) = Some (i, lg ! i)" "i < length lg"
    "\<forall>j < length lg. total_key (lg ! j) \<le> total_key (lg ! i)"
    "\<forall>j < length lg. i < j \<longrightarrow> total_key (lg ! j) < total_key (lg ! i)"
    using max_by_enumerate [OF assms(1), of total_key] by blast
  have "unat (argmax lg) = i" using i(1,2) assms(2) by (simp add: argmax_def)
  with i show ?thesis by simp
qed

theorem argmax_last_maximum_witness:
  "total_key 0xBF800000 < total_key 0x3F800000 \<and> argmax [0x3F800000, 0xBF800000, 0x3F800000, 0] = 2"
proof -
  let ?lg = "[0x3F800000, 0xBF800000, 0x3F800000, 0] :: u32 list"
  have k: "total_key 0x3F800000 = 0x3F800000" "total_key 0xBF800000 = - 0x3F800001" "total_key 0 = 0" by code_simp+
  have l: "unat (argmax ?lg) < 4" and m: "\<forall>j < 4. total_key (?lg ! j) \<le> total_key (?lg ! unat (argmax ?lg))"
    and n: "\<forall>j < 4. unat (argmax ?lg) < j \<longrightarrow> total_key (?lg ! j) < total_key (?lg ! unat (argmax ?lg))"
    using argmax_last_maximum [of ?lg] by simp_all
  have "unat (argmax ?lg) = 2"
    using l m [rule_format, of 0] n [rule_format, of 2] k by (auto simp: numeral_eq_Suc less_Suc_eq)
  then show ?thesis using k by (simp add: word_unat_eq_iff)
qed

text \<open>The rounds of the recording library decode one token each.\<close>

lemma recording_round:
  assumes "\<And>h. lg h \<noteq> []" and "t \<noteq> 0"
  shows "feed (recording lg e) k t c = Some (c @ [[(t, word_of_nat k)]])"
  using assms by (simp add: feed_def recording_def)

lemma recording_loop:
  assumes lg: "\<And>h. lg h \<noteq> []" and "after (recording lg e) c0 k = Some (t, c)" and "t \<noteq> 0"
    and "rest = upto_first e (List.map_filter (\<lambda>i. map_option fst (after (recording lg e) c0 (Suc i))) [k..<n])"
    and "0 \<notin> set rest"
  shows "snd (token_loop (recording lg e) (\<lambda>_. True) m e [k..<n] t c sent) =
    c @ map (\<lambda>j. [((t # rest) ! j, word_of_nat (k + j))]) [0..<length rest]"
  using assms(2-)
proof (induction "n - k" arbitrary: k t c sent rest)
  case 0
  then show ?case by (simp add: List.map_filter_simps)
next
  case (Suc d)
  let ?ll = "recording lg e"
  let ?c = "c @ [[(t, word_of_nat k)]]" and ?t = "argmax (lg (c @ [[(t, word_of_nat k)]]))"
  have ks: "[k..<n] = k # [Suc k..<n]" using Suc.hyps(2) by (simp add: upt_conv_Cons)
  have gl: "get_logits ?ll = lg" by (simp add: recording_def)
  have f: "feed ?ll k t c = Some ?c" using recording_round [OF lg Suc.prems(2)] .
  then have r: "after ?ll c0 (Suc k) = Some (?t, ?c)"
    using Suc.prems(1) lg by (simp add: after.simps(2) next_token_def gl)
  define rest' where
    "rest' = upto_first e (List.map_filter (\<lambda>i. map_option fst (after ?ll c0 (Suc i))) [Suc k..<n])"
  have rest: "rest = (if ?t = e then [?t] else ?t # rest')"
    using Suc.prems(3) r by (simp add: ks List.map_filter_simps rest'_def)
  show ?case
  proof (cases "?t = e")
    case True
    then show ?thesis using f lg by (simp add: ks gl rest blocking_send_def)
  next
    case False
    with Suc.prems(4) rest have nz: "?t \<noteq> 0" "0 \<notin> set rest'" by auto
    have "snd (token_loop ?ll (\<lambda>_. True) m e [k..<n] t c sent) =
        snd (token_loop ?ll (\<lambda>_. True) m e [Suc k..<n] ?t ?c (sent @ [Inr (token_response ?ll m ?t)]))"
      using f lg False by (simp add: ks gl blocking_send_def Let_def)
    also have "\<dots> = ?c @ map (\<lambda>j. [((?t # rest') ! j, word_of_nat (Suc k + j))]) [0..<length rest']"
      using Suc.hyps(2) by (intro Suc.hyps(1) [OF _ r nz(1) rest'_def nz(2)]) simp
    also have "\<dots> = c @ map (\<lambda>j. [((t # rest) ! j, word_of_nat (k + j))]) [0..<length rest]"
      using False by (simp add: rest upt_conv_Cons map_Suc_upt [symmetric] del: upt_Suc)
    finally show ?thesis .
  qed
qed

text \<open>
  The generated tokens are decoded at the positions 1, 2, 3, ... whatever the length of the
  prompt, whose tokens are at 0, 1, 2, ...: the first generated token is placed at position 1,
  in the middle of a longer prompt, not behind it.
\<close>

theorem stream_positions:
  assumes lg: "\<And>h. lg h \<noteq> []" and toks: "toks = map (\<lambda>c. word_of_nat (code c)) prompt"
    and c0: "c0 = [zip toks (map word_of_nat [0..<length toks])]"
    and ts: "ts = greedy_tokens (recording lg e) e c0 n" and nz: "0 \<notin> set ts"
  shows "snd (generate_on (recording lg e) (\<lambda>_. True) m prompt n) =
    Some (zip toks (map word_of_nat [0..<length toks]) #
      map (\<lambda>p. [(ts ! (p - 1), word_of_nat p)]) [1..<length ts])"
proof -
  let ?ll = "recording lg e"
  have gl: "get_logits ?ll = lg" by (simp add: recording_def)
  have g: "snd (generate_on ?ll (\<lambda>_. True) m prompt n) =
      Some (snd (token_loop ?ll (\<lambda>_. True) m e [0..<n] 0 c0 []))"
  proof -
    have "str_to_token ?ll m prompt = Inr toks" "new_context ?ll m 2048 = Inr []"
      "add_seq ?ll (new_batch ?ll (length toks) 1) toks 0 True = Inr (hd c0)" "decode ?ll [] (hd c0) = Inr c0"
      "token_eos ?ll m = e"
      by (simp_all add: recording_def toks c0)
    then show ?thesis by (simp add: generate_on_def split: prod.split)
  qed
  have "snd (token_loop ?ll (\<lambda>_. True) m e [0..<n] 0 c0 []) =
      c0 @ map (\<lambda>p. [(ts ! (p - 1), word_of_nat p)]) [1..<length ts]"
  proof (cases n)
    case 0
    then show ?thesis using ts by (simp add: greedy_tokens_def List.map_filter_simps)
  next
    case (Suc k)
    then have n: "[0..<n] = 0 # [1..<n]" by (simp add: upt_conv_Cons)
    let ?t = "argmax (lg c0)"
    have f: "feed ?ll 0 0 c0 = Some c0" by (simp add: feed_def)
    then have r: "after ?ll c0 1 = Some (?t, c0)" using lg by (simp add: after.simps(2) next_token_def gl)
    define rest where
      "rest = upto_first e (List.map_filter (\<lambda>i. map_option fst (after ?ll c0 (Suc i))) [1..<n])"
    have t: "ts = (if ?t = e then [?t] else ?t # rest)"
      using ts r by (simp add: greedy_tokens_def n List.map_filter_simps rest_def)
    show ?thesis
    proof (cases "?t = e")
      case True
      then show ?thesis using f lg by (simp add: n gl t blocking_send_def)
    next
      case False
      with nz t have z: "?t \<noteq> 0" "0 \<notin> set rest" by auto
      have "snd (token_loop ?ll (\<lambda>_. True) m e [0..<n] 0 c0 []) =
          snd (token_loop ?ll (\<lambda>_. True) m e [1..<n] ?t c0 [Inr (token_response ?ll m ?t)])"
        using f lg False by (simp add: n gl blocking_send_def Let_def)
      also have "\<dots> = c0 @ map (\<lambda>j. [((?t # rest) ! j, word_of_nat (1 + j))]) [0..<length rest]"
        by (rule recording_loop [OF lg r z(1) rest_def z(2)])
      also have "\<dots> = c0 @ map (\<lambda>p. [(ts ! (p - 1), word_of_nat p)]) [1..<length ts]"
        using False by (simp add: t map_Suc_upt [symmetric] del: upt_Suc)
      finally show ?thesis .
    qed
  qed
  with g c0 show ?thesis by simp
qed

theorem stream_positions_witness:
  "snd (generate_on (recording (\<lambda>c. [0, 1]) 2) (\<lambda>_. True) ''m'' ''abcd'' 3) =
    Some [[(97, 0), (98, 1), (99, 2), (100, 3)], [(1, 1)], [(1, 2)]]"
proof -
  have z: "0 \<notin> set (greedy_tokens (recording (\<lambda>c. [0, 1]) 2) 2 [[(97, 0), (98, 1), (99, 2), (100, 3)]] 3)"
    and g: "greedy_tokens (recording (\<lambda>c. [0, 1]) 2) 2 [[(97, 0), (98, 1), (99, 2), (100, 3)]] 3 = [1, 1, 1]"
    by (simp_all add: greedy_tokens_def after.simps next_token_def feed_def recording_def argmax_def total_key_def
        upt_rec List.map_filter_simps)
  show ?thesis
    using stream_positions [of "\<lambda>c. [0, 1]" "[97, 98, 99, 100]" "''abcd''"
        "[[(97, 0), (98, 1), (99, 2), (100, 3)]]" "[1, 1, 1]" 2 3 "''m''"]
    by (simp add: g upt_rec)
qed

lemma yield_items_ok:
  "yield_items xs = (ys, ok) \<Longrightarrow> list_all (\<lambda>y. \<not> isl y) (butlast ys) \<and> (ok \<longrightarrow> list_all (\<lambda>y. \<not> isl y) ys)"
  by (induction xs arbitrary: ys rule: yield_items.induct) (fastforce split: prod.splits)+

lemma butlast_all: "list_all P xs \<Longrightarrow> list_all P (butlast ys) \<Longrightarrow> list_all P (butlast (xs @ ys))"
  by (auto simp: butlast_append list_all_iff dest: in_set_butlastD)

text \<open>
  An error ends the stream: whatever the requests and the library's answers, everything
  before the last item of a stream is a response.
\<close>

theorem stream_error_last:
  "list_all (\<lambda>y. \<not> isl y) (butlast (fst (forward_stream ll ms env reqs s)))"
proof (induction ll ms env reqs s rule: forward_stream.induct)
  case (3 ll ms env req rs s)
  show ?case
  proof (cases "text_prompt req = []")
    case True
    with 3(2) show ?thesis by (auto split: sum.split prod.splits)
  next
    case False
    obtain sent s' where g: "generate ll (\<lambda>_. True) env (text_prompt req) (token_limit req) s = (sent, s')" by fastforce
    obtain ys ok where y: "yield_items sent = (ys, ok)" by fastforce
    show ?thesis
    proof (cases ok)
      case True
      with 3(1) [OF False g [symmetric] refl y [symmetric] refl] yield_items_ok [OF y] False show ?thesis
        by (cases "forward_stream ll ms env rs s'") (simp add: g y butlast_all)
    next
      case False
      with yield_items_ok [OF y] \<open>text_prompt req \<noteq> []\<close> show ?thesis by (simp add: g y)
    qed
  qed
qed simp_all

section \<open>A whole stream\<close>

text \<open>The context after the prompt of a request, and the complete answer to it.\<close>

definition prompt_context :: "('m, 'c, 'b) llama \<Rightarrow> 'm \<Rightarrow> string \<Rightarrow> 'c option" where
  "prompt_context ll m prompt =
     (case str_to_token ll m prompt of
        Inl e \<Rightarrow> None
      | Inr toks \<Rightarrow>
          (case new_context ll m 2048 of
             Inl e \<Rightarrow> None
           | Inr ctx \<Rightarrow>
               (case add_seq ll (new_batch ll (length toks) 1) toks 0 True of
                  Inl e \<Rightarrow> None
                | Inr batch \<Rightarrow> (case decode ll ctx batch of Inl e \<Rightarrow> None | Inr c \<Rightarrow> Some c))))"

text \<open>The limit of a request is its \<open>max_tokens\<close> if that is positive, and otherwise 256.\<close>

definition answers_prompt :: "('m, 'c, 'b) llama \<Rightarrow> 'm \<Rightarrow> forward_request \<Rightarrow> item list \<Rightarrow> bool" where
  "answers_prompt ll m req xs \<longleftrightarrow>
     (\<exists>c0 ts. prompt_context ll m (text_prompt req) = Some c0 \<and>
       (\<forall>us. greedy ll (token_eos ll m)
          (if 0 < sint (max_tokens req) then nat (sint (max_tokens req)) else 256) c0 us \<longleftrightarrow> us = ts) \<and>
       xs = greedy_items ll m ts)"

text \<open>A receiver that takes every message a task can send is as good as one that never leaves.\<close>

lemma token_loop_accepts:
  "(\<And>i. i < length sent + length ps \<Longrightarrow> accepts i) \<Longrightarrow>
     token_loop ll accepts m e ps t c sent = token_loop ll (\<lambda>_. True) m e ps t c sent"
proof (induction ps arbitrary: t c sent)
  case (Cons p ps)
  have "accepts (length sent)" using Cons.prems by simp
  moreover have "token_loop ll accepts m e ps t' c' (sent @ [x]) = token_loop ll (\<lambda>_. True) m e ps t' c' (sent @ [x])"
    for t' c' x
    using Cons.prems by (intro Cons.IH) simp
  ultimately show ?case
    by (auto simp: blocking_send_def Let_def split: option.split)
qed simp

lemma token_loop_length:
  "length (fst (token_loop ll accepts m e ps t c sent)) \<le> length sent + length ps"
proof (induction ps arbitrary: t c sent)
  case (Cons p ps)
  have "length (fst (token_loop ll accepts m e ps t' c' (sent @ [x]))) \<le> Suc (length sent + length ps)" for t' c' x
    using Cons.IH [of t' c' "sent @ [x]"] by simp
  then show ?case
    by (auto simp: blocking_send_def Let_def intro: le_SucI split: option.split)
qed simp

lemma generate_on_accepts:
  assumes "\<And>i. i \<le> n \<Longrightarrow> accepts i"
  shows "generate_on ll accepts m prompt n = generate_on ll (\<lambda>_. True) m prompt n"
proof -
  have "send_error accepts e = send_error (\<lambda>_. True) e" for e
    using assms by (simp add: send_error_def blocking_send_def)
  moreover have "token_loop ll accepts m e [0..<n] 0 c [] = token_loop ll (\<lambda>_. True) m e [0..<n] 0 c []" for e c
    by (rule token_loop_accepts) (simp add: assms)
  moreover have "blocking_send accepts x sent = blocking_send (\<lambda>_. True) x sent"
    if "token_loop ll (\<lambda>_. True) m e [0..<n] 0 c [] = (sent, c')" for x e c sent c'
    using token_loop_length [of ll "\<lambda>_. True" m e "[0..<n]" 0 c "[]"] that by (simp add: blocking_send_def assms)
  ultimately show ?thesis
    by (simp add: generate_on_def split: sum.split prod.split)
qed

lemma bit_iff_sint_neg: "bit w 31 \<longleftrightarrow> sint w < 0" for w :: i32
  by (simp add: sint_uint signed_take_bit_def bit_uint_iff)

lemma nat_sint: "0 < sint w \<Longrightarrow> unat w = nat (sint w)" for w :: i32
proof -
  assume a: "0 < sint w"
  then have "\<not> bit w 31" by (simp add: bit_iff_sint_neg)
  then show ?thesis by (simp add: sint_clear)
qed

lemma token_limit_sint: "token_limit req = (if 0 < sint (max_tokens req) then nat (sint (max_tokens req)) else 256)"
  by (auto simp: token_limit_def word_sless_alt nat_sint)

lemma generate_on_answer:
  assumes "prompt_context ll m (text_prompt req) \<noteq> None"
  shows "answers_prompt ll m req (fst (generate_on ll (\<lambda>_. True) m (text_prompt req) (token_limit req)))"
proof -
  obtain toks ctx batch c0 where c: "str_to_token ll m (text_prompt req) = Inr toks" "new_context ll m 2048 = Inr ctx"
    "add_seq ll (new_batch ll (length toks) 1) toks 0 True = Inr batch" "decode ll ctx batch = Inr c0"
    using assms by (auto simp: prompt_context_def split: sum.splits)
  let ?n = "token_limit req" and ?ts = "greedy_tokens ll (token_eos ll m) c0 (token_limit req)"
  have "generate_on ll (\<lambda>_. True) m (text_prompt req) ?n = generate_on ll (\<lambda>i. i < Suc ?n) m (text_prompt req) ?n"
    by (rule generate_on_accepts [symmetric]) simp
  then have "fst (generate_on ll (\<lambda>_. True) m (text_prompt req) ?n) = greedy_items ll m ?ts"
    using generate_greedy [OF c, of "Suc ?n" ?n] length_greedy [of ll "token_eos ll m" c0 ?n]
    by (simp add: items_computed)
  moreover have "prompt_context ll m (text_prompt req) = Some c0" using c by (simp add: prompt_context_def)
  ultimately show ?thesis
    using greedy_computed [of ll "token_eos ll m" ?n c0]
    unfolding answers_prompt_def token_limit_sint [symmetric] by blast
qed

lemma answers_promptD:
  assumes "answers_prompt ll m req xs" and c: "prompt_context ll m (text_prompt req) = Some c0"
    and g: "greedy ll (token_eos ll m) (if 0 < sint (max_tokens req) then nat (sint (max_tokens req)) else 256) c0 ts"
  shows "xs = greedy_items ll m ts"
proof -
  let ?n = "if 0 < sint (max_tokens req) then nat (sint (max_tokens req)) else 256"
  obtain d us where "prompt_context ll m (text_prompt req) = Some d" "xs = greedy_items ll m us"
    "\<forall>vs. greedy ll (token_eos ll m) ?n d vs \<longleftrightarrow> vs = us"
    using assms(1) unfolding answers_prompt_def by blast
  with c g show ?thesis by simp
qed

lemma yield_answer: "answers_prompt ll m req xs \<Longrightarrow> yield_items xs = (xs, True)"
proof -
  have "yield_items (map Inr rs) = (map Inr rs, True)" for rs :: "forward_response list"
    by (induction rs) auto
  from this [of "map (token_response ll m) ts @ [end_marker]" for ts]
  show "answers_prompt ll m req xs \<Longrightarrow> yield_items xs = (xs, True)"
    by (auto simp: answers_prompt_def items_computed comp_def)
qed

lemma generate_answer:
  assumes "backend_init ll = None"
    and "load_from_file ll (case env of Some p \<Rightarrow> p | None \<Rightarrow> default_model_path) = Inr m"
    and "prompt_context ll m (text_prompt req) \<noteq> None"
  obtains xs s' where "generate ll (\<lambda>_. True) env (text_prompt req) (token_limit req) s = (xs, s')"
    and "answers_prompt ll m req xs" and "yield_items xs = (xs, True)"
proof -
  obtain s' where b: "backend ll s = (Inr (), s')" using assms(1) by (cases "backend_ready s") (auto simp: backend_def)
  let ?xs = "fst (generate_on ll (\<lambda>_. True) m (text_prompt req) (token_limit req))"
  have "generate ll (\<lambda>_. True) env (text_prompt req) (token_limit req) s = (?xs, s')"
    using b assms(2) by (simp add: generate_def)
  then show ?thesis by (rule that) (use generate_on_answer [OF assms(3)] yield_answer in auto)
qed

text \<open>
  C14: A stream of prompts is answered in order and each on its own: when the model loads and
  every prompt can be decoded, the stream is the complete greedy answer to the first prompt
  with its end marker, then that to the second, and so on, whatever the node served before.
  Each answer has its own limit, the request's \<^verbatim>\<open>max_tokens\<close> or 256 if that is not positive.
\<close>

theorem stream_answers:
  assumes "backend_init ll = None"
    and "load_from_file ll (case env of Some p \<Rightarrow> p | None \<Rightarrow> default_model_path) = Inr m"
    and "\<forall>req \<in> set reqs. text_prompt req \<noteq> [] \<and> prompt_context ll m (text_prompt req) \<noteq> None"
  shows "\<exists>xss. list_all2 (answers_prompt ll m) reqs xss \<and>
    fst (forward_stream ll ms env (map Inr reqs) s) = concat xss"
  using assms(3)
proof (induction reqs arbitrary: s)
  case (Cons req reqs)
  then have "prompt_context ll m (text_prompt req) \<noteq> None" by simp
  from generate_answer [OF assms(1,2) this, of s] obtain xs s' where
    g: "generate ll (\<lambda>_. True) env (text_prompt req) (token_limit req) s = (xs, s')"
      "answers_prompt ll m req xs" "yield_items xs = (xs, True)" .
  obtain xss where "list_all2 (answers_prompt ll m) reqs xss" "fst (forward_stream ll ms env (map Inr reqs) s') = concat xss"
    using Cons.IH [of s'] Cons.prems by auto
  then show ?case
    using g Cons.prems
    by (intro exI [of _ "xs # xss"], cases "forward_stream ll ms env (map Inr reqs) s'") simp
qed simp

text \<open>Two requests: the first has a limit of two tokens, the answer to the second ends with token 3.\<close>

abbreviation counting_llama :: "(string, (i32 \<times> i32) list list, (i32 \<times> i32) list) llama" where
  "counting_llama \<equiv> recording (\<lambda>c. [0, 1, of_nat (length c), if length c < 3 then 0 else 9]) 3"

lemma counting_greedy:
  "greedy counting_llama 3 2 [b] [2, 2]" "greedy counting_llama 3 256 [b] [2, 2, 3]"
proof -
  have a: "argmax [0, 1, of_nat (length c), if length c < 3 then 0 else 9] = (if length c < 3 then 2 else 3)"
    if "length c \<in> {1, 2, 3}" for c :: "(i32 \<times> i32) list list"
    using that by (auto simp: argmax_def total_key_def)
  have l: "largest [0, 1, of_nat (length c), if length c < 3 then 0 else 9] (if length c < 3 then 2 else 3)"
    if "length c \<in> {1, 2, 3}" for c :: "(i32 \<times> i32) list list"
    using argmax_largest [of "[0, 1, of_nat (length c), if length c < 3 then 0 else 9]"] a [OF that] by simp
  show "greedy counting_llama 3 2 [b] [2, 2]" "greedy counting_llama 3 256 [b] [2, 2, 3]"
    using l [of "[b]"] l [of "[b, [(2, 1)]]"] l [of "[b, [(2, 1)], [(2, 2)]]"]
    by (auto simp: greedy_def recording_def less_Suc_eq numeral_eq_Suc)
qed

theorem stream_answers_witness:
  "fst (forward_stream counting_llama 9 (Some ''m'')
       (map Inr [demo_request\<lparr>text_prompt := ''hi'', max_tokens := 2\<rparr>, demo_request\<lparr>text_prompt := ''you''\<rparr>]) new_node) =
     greedy_items counting_llama ''m'' [2, 2] @ greedy_items counting_llama ''m'' [2, 2, 3]"
proof -
  let ?rs = "[demo_request\<lparr>text_prompt := ''hi'', max_tokens := 2\<rparr>, demo_request\<lparr>text_prompt := ''you''\<rparr>]"
  have c: "\<exists>b. prompt_context counting_llama ''m'' w = Some [b]" for w
    by (simp add: prompt_context_def recording_def)
  then have "\<forall>req \<in> set ?rs. text_prompt req \<noteq> [] \<and> prompt_context counting_llama ''m'' (text_prompt req) \<noteq> None"
    using c [of "''hi''"] c [of "''you''"] by auto
  moreover have "backend_init counting_llama = None"
    "load_from_file counting_llama (case Some ''m'' of Some p \<Rightarrow> p | None \<Rightarrow> default_model_path) = Inr ''m''"
    by (simp_all add: recording_def)
  ultimately obtain xss where x: "list_all2 (answers_prompt counting_llama ''m'') ?rs xss"
    "fst (forward_stream counting_llama 9 (Some ''m'') (map Inr ?rs) new_node) = concat xss"
    using stream_answers [of counting_llama "Some ''m''" "''m''" ?rs 9 new_node] by (elim meta_impE exE conjE)
  have e: "token_eos counting_llama ''m'' = 3" by (simp add: recording_def)
  obtain a b where ab: "prompt_context counting_llama ''m'' ''hi'' = Some [a]" "prompt_context counting_llama ''m'' ''you'' = Some [b]"
    using c by blast
  have "xs = greedy_items counting_llama ''m'' [2, 2]"
    if "answers_prompt counting_llama ''m'' (demo_request\<lparr>text_prompt := ''hi'', max_tokens := 2\<rparr>) xs" for xs
    by (rule answers_promptD [OF that]) (use ab(1) counting_greedy(1) e in simp_all)
  moreover have "xs = greedy_items counting_llama ''m'' [2, 2, 3]"
    if "answers_prompt counting_llama ''m'' (demo_request\<lparr>text_prompt := ''you''\<rparr>) xs" for xs
    by (rule answers_promptD [OF that]) (use ab(2) counting_greedy(2) e in \<open>simp_all add: demo_request_def\<close>)
  ultimately show ?thesis using x by (auto simp: list_all2_Cons1)
qed

end
