(* ===== verification/Node_Service.thy ===== *)
theory Node_Service
  imports Node_Overclock Node_Drivers Node_Hardware Node_Benchmark Node_Stream
begin

text \<open>
  The gRPC service (\<^verbatim>\<open>node-agent/src/network/grpc_server.rs\<close>): one definition per handler, on
  top of the components the handlers call. A handler returns a status or a reply; those that
  act on the system are in the state monad over its events, those of the inference part pass
  the node's shard state on; the benchmark takes the time it needed.
\<close>

section \<open>The service\<close>

record service =
  service_node_id :: string
  service_node_name :: string
  service_hardware :: hardware_report
  service_addr :: string
  service_rpc_port :: u16

definition new_service :: "string \<Rightarrow> string \<Rightarrow> hardware_report \<Rightarrow> string \<Rightarrow> u16 \<Rightarrow> service" where
  "new_service node_id node_name hw addr rp =
     \<lparr>service_node_id = node_id, service_node_name = node_name, service_hardware = hw, service_addr = addr,
      service_rpc_port = rp\<rparr>"

record register_response =
  accepted :: bool
  orchestrator_id :: string
  session_token :: string

definition register_node :: "service \<Rightarrow> string \<Rightarrow> status + register_response" where
  "register_node sv req_node_id =
     Inr \<lparr>accepted = True, orchestrator_id = ''arcflare-orch'', session_token = ''dev-session''\<rparr>"

record heartbeat_response =
  acknowledged :: bool
  commands :: "string list"

definition heartbeat :: "service \<Rightarrow> status + heartbeat_response" where
  "heartbeat sv = Inr \<lparr>acknowledged = True, commands = []\<rparr>"

definition get_hardware_info :: "service \<Rightarrow> status + hardware_report" where
  "get_hardware_info sv = Inr ((service_hardware sv)\<lparr>report_node_id := service_node_id sv\<rparr>)"

definition run_benchmark :: "duration \<Rightarrow> status + benchmark_result" where
  "run_benchmark elapsed = (let cpu_result = run_cpu_benchmark elapsed in Inr cpu_result)"

section \<open>Handlers that act on the system\<close>

datatype perf_mode = Safe | Aggressive | Custom

text \<open>\<^verbatim>\<open>Mode::try_from\<close>, generated from the enumeration of the protocol.\<close>

definition mode_try_from :: "i32 \<Rightarrow> perf_mode option" where
  "mode_try_from w = (if w = 0 then Some Safe else if w = 1 then Some Aggressive else if w = 2 then Some Custom else None)"

record perf_response =
  mode_applied :: bool
  mode_message :: string

definition set_performance_mode :: "os \<Rightarrow> i32 \<Rightarrow> (status + perf_response) act" where
  "set_performance_mode os mode_id = do {
     result \<leftarrow>
       (case mode_try_from mode_id of
          Some Safe \<Rightarrow> apply_safe_tuning os
        | Some Aggressive \<Rightarrow> apply_aggressive_tuning os
        | _ \<Rightarrow> ret (Inr ''Custom mode applied''));
     ret (case result of
            Inr msg \<Rightarrow> Inr \<lparr>mode_applied = True, mode_message = msg\<rparr>
          | Inl e \<Rightarrow> Inr \<lparr>mode_applied = False, mode_message = ''Failed: '' @ e\<rparr>)
   }"

definition get_overclocking_status :: "os \<Rightarrow> (status + overclocking_status) act" where
  "get_overclocking_status os = do { st \<leftarrow> get_status os; ret (Inr st) }"

definition check_drivers :: "os \<Rightarrow> (status + driver_report) act" where
  "check_drivers os = do { r \<leftarrow> audit os; ret (Inr r) }"

definition apply_system_tuning :: "os \<Rightarrow> tuning_request \<Rightarrow> (status + tuning_response) act" where
  "apply_system_tuning os req = do { r \<leftarrow> apply_tuning os req; ret (Inr r) }"

section \<open>Inference\<close>

definition not_compiled :: string where
  "not_compiled = ''Inference support not compiled. Build with --features inference''"

definition handle_load_shard ::
  "bool \<Rightarrow> ('m, 'c, 'b) llama \<Rightarrow> u64 \<Rightarrow> shard_config \<Rightarrow> 'm node \<Rightarrow> (status + load_status) \<times> 'm node" where
  "handle_load_shard inference ll ms config s =
     (if inference then
        let (r, s) = load_shard ll ms config s
        in (try_map (\<lambda>e. (Internal, ''Failed to load shard: '' @ e)) r Inr, s)
      else (Inl (Unimplemented, not_compiled), s))"

definition handle_forward ::
  "bool \<Rightarrow> ('m, 'c, 'b) llama \<Rightarrow> u64 \<Rightarrow> forward_request \<Rightarrow> 'm node \<Rightarrow> (status + forward_response) \<times> 'm node" where
  "handle_forward inference ll ms req s =
     (if inference then
        let (r, s) = forward ll ms req s
        in (try_map (\<lambda>e. (Internal, ''Forward pass failed: '' @ e)) r Inr, s)
      else (Inl (Unimplemented, not_compiled), s))"

definition handle_forward_stream ::
  "bool \<Rightarrow> ('m, 'c, 'b) llama \<Rightarrow> u64 \<Rightarrow> string option \<Rightarrow> (status + forward_request) list \<Rightarrow> 'm node \<Rightarrow>
   (status + item list) \<times> 'm node" where
  "handle_forward_stream inference ll ms env reqs s =
     (if inference then let (items, s) = forward_stream ll ms env reqs s in (Inr items, s)
      else (Inl (Unimplemented, not_compiled), s))"

definition handle_unload_shard :: "bool \<Rightarrow> 'm node \<Rightarrow> (status + unit) \<times> 'm node" where
  "handle_unload_shard inference s = (Inr (), if inference then unload_shard s else s)"

record inference_stats =
  stats_layers_loaded :: i32
  total_forward_calls :: u64
  avg_forward_time_ms :: f64
  total_tokens_processed :: u64
  kv_cache_used_bytes :: u64
  peak_memory_bytes :: u64

definition get_inference_stats :: "service \<Rightarrow> status + inference_stats" where
  "get_inference_stats sv =
     Inr \<lparr>stats_layers_loaded = 0, total_forward_calls = 0, avg_forward_time_ms = f64_zero,
          total_tokens_processed = 0, kv_cache_used_bytes = 0, peak_memory_bytes = 0\<rparr>"

record rpc_endpoint =
  running :: bool
  endpoint_port :: u32
  address :: string

definition get_rpc_endpoint :: "service \<Rightarrow> status + rpc_endpoint" where
  "get_rpc_endpoint sv =
     (let running = 0 < service_rpc_port sv
      in Inr \<lparr>running = running, endpoint_port = ucast (service_rpc_port sv), address = []\<rparr>)"

section \<open>Properties\<close>

lemma tuning_Inr: "gives (\<lambda>r. \<not> isl r) (apply_safe_tuning os)" "gives (\<lambda>r. \<not> isl r) (apply_aggressive_tuning os)"
  unfolding apply_safe_tuning_def apply_aggressive_tuning_def Let_def
  by (intro gives_bind gives_return; simp)+

text \<open>
  Setting a performance mode never fails: whatever the system answers and whatever number
  the request has, the reply says the mode is applied. A number that is no mode, like the
  custom mode, changes nothing.
\<close>

theorem mode_always_applied:
  "\<exists>r t'. run_state (set_performance_mode os w) t = (Inr r, t') \<and> mode_applied r \<and>
     (mode_try_from w \<noteq> Some Safe \<and> mode_try_from w \<noteq> Some Aggressive \<longrightarrow>
        t' = t \<and> mode_message r = ''Custom mode applied'')"
proof -
  have "\<exists>m t'. run_state (apply_safe_tuning os) t = (Inr m, t')"
    "\<exists>m t'. run_state (apply_aggressive_tuning os) t = (Inr m, t')"
    using tuning_Inr [of os] unfolding gives_def by (metis prod.collapse sum.collapse(2))+
  then obtain m t1 m' t2 where
    "run_state (apply_safe_tuning os) t = (Inr m, t1)" "run_state (apply_aggressive_tuning os) t = (Inr m', t2)" by blast
  then show ?thesis
    by (cases "mode_try_from w"; cases "the (mode_try_from w)") (simp_all add: set_performance_mode_def)
qed

theorem mode_always_applied_witness:
  "\<exists>r. run_state (set_performance_mode locked_os 77) [] = (Inr r, []) \<and> mode_applied r"
  using mode_always_applied [of locked_os 77 "[]"] by (auto simp: mode_try_from_def)

end
