(* ===== verification/Node_Rpc.thy ===== *)
theory Node_Rpc
  imports Node_Slot Rust_Text
begin

text \<open>
  The \<^verbatim>\<open>rpc-server\<close> child process (\<^verbatim>\<open>node-agent/src/inference/rpc.rs\<close>). What the operating
  system answers to \<^verbatim>\<open>spawn\<close> is a parameter of \<open>start\<close>: an error text, or the new child. The
  properties are about every reachable state: starts, stops and children that end by
  themselves, in any order.
\<close>

section \<open>The server\<close>

type_synonym pid = nat

text \<open>
  \<open>alive\<close> is the operating system's side: the children of this server that still run.
\<close>

record rpc_server =
  port :: u16
  bin :: string
  process :: "pid option"
  alive :: "pid list"

definition new_server :: "u16 \<Rightarrow> string \<Rightarrow> rpc_server" where
  "new_server p b = \<lparr>port = p, bin = b, process = None, alive = []\<rparr>"

type_synonym spawn = "string \<Rightarrow> string list \<Rightarrow> string + pid"

definition start :: "spawn \<Rightarrow> rpc_server \<Rightarrow> (string + unit) \<times> rpc_server" where
  "start spawn s =
     (if process s \<noteq> None then (Inr (), s)
      else
        case spawn (bin s) [''-H'', ''0.0.0.0'', ''-p'', dec (unat (port s))] of
          Inl e \<Rightarrow> (Inl (''Failed to spawn rpc-server ('' @ bin s @ ''): '' @ e), s)
        | Inr child \<Rightarrow> (Inr (), s\<lparr>process := Some child, alive := child # alive s\<rparr>))"

text \<open>
  \<^verbatim>\<open>kill\<close> sends the signal and waits; if it reports an error (the child had ended already),
  the error is logged and the handle is dropped, which kills again. Either way the child
  does not run afterwards.
\<close>

definition stop :: "rpc_server \<Rightarrow> rpc_server" where
  "stop s =
     (case process s of
        Some child \<Rightarrow> s\<lparr>process := None, alive := removeAll child (alive s)\<rparr>
      | None \<Rightarrow> s)"

definition get_port :: "rpc_server \<Rightarrow> u16" where
  "get_port s = port s"

definition is_running :: "rpc_server \<Rightarrow> bool" where
  "is_running s \<longleftrightarrow> process s \<noteq> None"

section \<open>Reachable states\<close>

text \<open>A child ends: the server is not told.\<close>

definition child_ends :: "pid \<Rightarrow> rpc_server \<Rightarrow> rpc_server" where
  "child_ends c s = s\<lparr>alive := removeAll c (alive s)\<rparr>"

inductive rpc_step :: "rpc_server \<Rightarrow> rpc_server \<Rightarrow> bool" where
  started: "start spawn s = (r, s') \<Longrightarrow> rpc_step s s'"
| stopped: "rpc_step s (stop s)"
| ended: "c \<in> set (alive s) \<Longrightarrow> rpc_step s (child_ends c s)"

inductive_cases rpc_stepE: "rpc_step s s'"

abbreviation rpc_reaches :: "rpc_server \<Rightarrow> rpc_server \<Rightarrow> bool" where
  "rpc_reaches \<equiv> rpc_step\<^sup>*\<^sup>*"

text \<open>The only child that can run is the one in the handle, and it runs once.\<close>

definition no_orphan :: "rpc_server \<Rightarrow> bool" where
  "no_orphan s \<longleftrightarrow> alive s = [] \<or> (\<exists>c. process s = Some c \<and> alive s = [c])"

lemma no_orphan_new: "no_orphan (new_server p b)"
  by (simp add: no_orphan_def new_server_def)

lemma no_orphan_step: "rpc_step s s' \<Longrightarrow> no_orphan s \<Longrightarrow> no_orphan s'"
  by (erule rpc_stepE)
    (auto simp: no_orphan_def start_def stop_def child_ends_def split: option.splits sum.splits if_splits)

lemma no_orphan_reachable: "rpc_reaches s s' \<Longrightarrow> no_orphan s \<Longrightarrow> no_orphan s'"
  by (induction rule: rtranclp_induct) (auto intro: no_orphan_step)

lemma stop_kills: "no_orphan s \<Longrightarrow> alive (stop s) = []"
  by (auto simp: no_orphan_def stop_def split: option.splits)

section \<open>The server as a slot\<close>

definition spawned :: "spawn \<Rightarrow> rpc_server \<Rightarrow> pid option" where
  "spawned spawn s =
     (case spawn (bin s) [''-H'', ''0.0.0.0'', ''-p'', dec (unat (port s))] of
        Inl e \<Rightarrow> None
      | Inr child \<Rightarrow> Some child)"

interpretation rpc_slot: keeping_slot start stop process spawned
proof unfold_locales
  fix j i s
  have "bin (snd (start i s)) = bin s" "port (snd (start i s)) = port s"
    by (simp_all add: start_def split: sum.split)
  then show "spawned j (snd (start i s)) = spawned j s" by (simp add: spawned_def)
  show "spawned j (stop s) = spawned j s" by (simp add: spawned_def stop_def split: option.split)
  show "process (stop s) = None" by (simp add: stop_def split: option.split)
  show "process (snd (start i s)) = (case process s of Some c \<Rightarrow> Some c | None \<Rightarrow> spawned i s)"
    by (auto simp: start_def spawned_def split: sum.split option.split)
  show "isl (fst (start i s)) \<longleftrightarrow> process s = None \<and> spawned i s = None"
    by (auto simp: start_def spawned_def split: sum.split option.split)
qed

section \<open>Properties\<close>

text \<open>
  C17: No \<^verbatim>\<open>rpc-server\<close> is orphaned: after any sequence of starts, stops and children that end
  by themselves, the only child that can still run is the one in the handle, so at most one
  runs, and stopping leaves none.
\<close>

theorem rpc_no_orphans:
  assumes "rpc_reaches (new_server p b) s"
  shows "(alive s = [] \<or> (\<exists>c. process s = Some c \<and> alive s = [c])) \<and> alive (stop s) = []"
  using no_orphan_reachable [OF assms no_orphan_new] by (simp add: no_orphan_def stop_kills)

text \<open>A server with a child, and one whose child has ended.\<close>

definition demo_running :: rpc_server where
  "demo_running = snd (start (\<lambda>c a. Inr 7) (new_server 10001 ''llama-rpc-server''))"

lemma demo_reachable: "rpc_reaches (new_server 10001 ''llama-rpc-server'') demo_running"
  unfolding demo_running_def by (rule r_into_rtranclp, rule started [OF prod.collapse [symmetric]])

theorem rpc_no_orphans_witness: "alive demo_running = [7] \<and> alive (stop demo_running) = []"
proof -
  have "alive demo_running = [7]" by (simp add: demo_running_def start_def new_server_def)
  with rpc_no_orphans [OF demo_reachable] show ?thesis by blast
qed

text \<open>
  C34: The child in the handle is the one of the first successful start since the last stop: a
  second start does not replace a running child, and a failed start leaves no trace.
\<close>

theorem rpc_first_start:
  "process (run_slot start stop ops (new_server p b)) = first_of (successes (\<lambda>sp. spawned sp (new_server p b)) ops)"
  by (rule rpc_slot.first_success) (simp add: new_server_def)

text \<open>
  A child that ended is not noticed: there is a reachable state in which no child runs,
  \<^verbatim>\<open>is_running\<close> says yes, and starting again reports success without starting anything.
\<close>

theorem rpc_dead_child_kept:
  "\<exists>s. rpc_reaches (new_server p b) s \<and> alive s = [] \<and> is_running s \<and> (\<forall>spawn. start spawn s = (Inr (), s))"
proof -
  let ?s1 = "snd (start (\<lambda>c a. Inr 7) (new_server p b))"
  have "rpc_step (new_server p b) ?s1" by (rule started [OF prod.collapse [symmetric]])
  moreover have "rpc_step ?s1 (child_ends 7 ?s1)" by (rule ended) (simp add: start_def new_server_def)
  ultimately have "rpc_reaches (new_server p b) (child_ends 7 ?s1)" by (meson rtranclp.rtrancl_into_rtrancl rtranclp.rtrancl_refl)
  then show ?thesis
    by (intro exI [of _ "child_ends 7 ?s1"]) (simp add: start_def new_server_def child_ends_def is_running_def)
qed

end
