(* ===== verification/Node_Discovery.thy ===== *)
theory Node_Discovery
  imports Rust_Text "HOL-Library.Monad_Syntax"
begin

text \<open>
  The discovery broadcaster (\<^verbatim>\<open>node-agent/src/network/discovery.rs\<close>): a loop that sends the
  node's message every five seconds until the shutdown flag is set. Time is counted in
  seconds from the start of the task, \<open>flag t\<close> is the flag at second \<open>t\<close>; sending takes no
  time, and a failed send is only logged. A broadcaster that never stops has the value
  \<^const>\<open>None\<close>. The property is that it does stop, at the very second the flag is set.
\<close>

record discovery_message =
  msg_node_id :: string
  msg_node_name :: string
  msg_grpc_port :: u16
  msg_rpc_port :: u16
  msg_version :: string
  msg_os :: string

definition discovery_interval :: nat where
  "discovery_interval = 5"

definition discovery_dest :: string where
  "discovery_dest = ''255.255.255.255:'' @ dec 5678"

text \<open>The second branch of the \<^verbatim>\<open>select!\<close>: polls the flag once a second.\<close>

fun poll_flag :: "(nat \<Rightarrow> bool) \<Rightarrow> nat \<Rightarrow> nat \<Rightarrow> nat" where
  "poll_flag flag 0 t = t"
| "poll_flag flag (Suc n) t = (if flag (t + 1) then t + 1 else poll_flag flag n (t + 1))"

text \<open>The \<^verbatim>\<open>select!\<close> ends with the branch that ends first.\<close>

definition wake :: "(nat \<Rightarrow> bool) \<Rightarrow> nat \<Rightarrow> nat" where
  "wake flag t = min (t + discovery_interval) (poll_flag flag (max discovery_interval 1) t)"

text \<open>The times of the sends, and the time at which the loop ends.\<close>

partial_function (option) broadcast_loop ::
  "(nat \<Rightarrow> bool) \<Rightarrow> nat \<Rightarrow> nat list \<Rightarrow> (nat list \<times> nat) option" where
  "broadcast_loop flag t sent =
     (if flag t then Some (sent, t) else broadcast_loop flag (wake flag t) (sent @ [t]))"

text \<open>
  The whole task. Parameters: the serialisation of the message, whether binding a socket and
  enabling broadcasts succeed. The result lists when what was sent where.
\<close>

definition start_broadcaster ::
  "(discovery_message \<Rightarrow> bytes option) \<Rightarrow> string \<Rightarrow> string \<Rightarrow> bool \<Rightarrow> bool \<Rightarrow>
   string \<Rightarrow> string \<Rightarrow> u16 \<Rightarrow> u16 \<Rightarrow> (nat \<Rightarrow> bool) \<Rightarrow> ((nat \<times> bytes \<times> string) list \<times> nat) option" where
  "start_broadcaster to_json pkg_version os_name bound broadcasts node_id node_name grpc_port rpc_port flag =
     (case to_json \<lparr>msg_node_id = node_id, msg_node_name = node_name, msg_grpc_port = grpc_port,
                     msg_rpc_port = rpc_port, msg_version = pkg_version, msg_os = os_name\<rparr> of
        None \<Rightarrow> Some ([], 0)
      | Some payload \<Rightarrow>
          if \<not> bound then Some ([], 0)
          else if \<not> broadcasts then Some ([], 0)
          else
            map_option (\<lambda>(times, t). (map (\<lambda>u. (u, payload, discovery_dest)) times, t)) (broadcast_loop flag 0 []))"

section \<open>The flag is set once\<close>

lemma poll_flag_set:
  assumes "\<And>u. flag u \<longleftrightarrow> stop \<le> u" and "t < stop"
  shows "poll_flag flag n t = min (t + n) stop"
  using assms(2)
proof (induction n arbitrary: t)
  case (Suc n)
  then show ?case by (cases "stop \<le> t + 1") (auto simp: assms(1))
qed simp

lemma wake_set:
  assumes "\<And>u. flag u \<longleftrightarrow> stop \<le> u" and "t < stop"
  shows "wake flag t = min (t + 5) stop"
  using poll_flag_set [OF assms] by (simp add: wake_def discovery_interval_def)

lemma multiples_step:
  assumes "5 dvd t" and "t < stop"
  shows "filter (\<lambda>u. 5 dvd u) [t..<stop] = t # filter (\<lambda>u. 5 dvd u) [min (t + 5) stop..<stop]"
proof -
  have "Suc t \<le> min (t + 5) stop" "min (t + 5) stop \<le> stop" using assms(2) by auto
  then have "[Suc t..<stop] = [Suc t..<min (t + 5) stop] @ [min (t + 5) stop..<stop]"
    by (metis le_Suc_ex upt_add_eq_append)
  then have "[t..<stop] = t # [Suc t..<min (t + 5) stop] @ [min (t + 5) stop..<stop]"
    using assms(2) by (simp add: upt_conv_Cons)
  moreover have "\<not> 5 dvd u" if "u \<in> set [Suc t..<min (t + 5) stop]" for u
    using that assms(1) by auto presburger
  ultimately show ?thesis using assms(1) by (simp add: filter_empty_conv)
qed

lemma broadcast_loop_set:
  assumes flag: "\<And>u. flag u \<longleftrightarrow> stop \<le> u" and "t \<le> stop" and "5 dvd t \<or> t = stop"
  shows "broadcast_loop flag t sent = Some (sent @ filter (\<lambda>u. 5 dvd u) [t..<stop], stop)"
  using assms(2,3)
proof (induction "stop - t" arbitrary: t sent rule: less_induct)
  case less
  show ?case
  proof (cases "t = stop")
    case True
    then show ?thesis by (subst broadcast_loop.simps) (simp add: flag)
  next
    case False
    with less.prems have t: "t < stop" "5 dvd t" by auto
    let ?t = "min (t + 5) stop"
    have "broadcast_loop flag t sent = broadcast_loop flag ?t (sent @ [t])"
      using t(1) by (subst broadcast_loop.simps) (simp add: flag wake_set [OF flag t(1)])
    also have "\<dots> = Some ((sent @ [t]) @ filter (\<lambda>u. 5 dvd u) [?t..<stop], stop)"
      using t by (intro less.hyps) (auto simp: min_def)
    finally show ?thesis using multiples_step [OF t(2,1)] by simp
  qed
qed

lemma broadcast_loop_stops: "broadcast_loop flag t sent = Some r \<Longrightarrow> \<exists>u. flag u"
  by (rule broadcast_loop.raw_induct [where P = "\<lambda>flag t sent r. \<exists>u. flag u"]) (auto split: if_splits)

lemma start_broadcaster_set:
  assumes "to_json \<lparr>msg_node_id = i, msg_node_name = nm, msg_grpc_port = g, msg_rpc_port = r, msg_version = v,
      msg_os = o'\<rparr> = Some payload"
  shows "start_broadcaster to_json v o' True True i nm g r (\<lambda>t. stop \<le> t) =
      Some (map (\<lambda>u. (u, payload, discovery_dest)) (filter (\<lambda>u. 5 dvd u) [0..<stop]), stop)"
  using assms broadcast_loop_set [of "\<lambda>t. stop \<le> t" stop 0 "[]"] by (simp add: start_broadcaster_def)

section \<open>Property\<close>

text \<open>
  C20: The broadcaster stops at the second the shutdown flag is set, not up to five seconds
  later, and up to then it sends the node's message at the seconds 0, 5, 10, ...; it runs
  forever if the flag is never set.
\<close>

theorem broadcaster_stops:
  assumes "to_json \<lparr>msg_node_id = i, msg_node_name = nm, msg_grpc_port = g, msg_rpc_port = r, msg_version = v,
      msg_os = o'\<rparr> = Some payload"
  shows "start_broadcaster to_json v o' True True i nm g r (\<lambda>t. stop \<le> t) =
      Some (map (\<lambda>u. (u, payload, discovery_dest)) (filter (\<lambda>u. 5 dvd u) [0..<stop]), stop) \<and>
    start_broadcaster to_json v o' True True i nm g r (\<lambda>t. False) = None"
proof -
  have "broadcast_loop (\<lambda>t. False) 0 [] = None"
    using broadcast_loop_stops [of "\<lambda>t. False" 0 "[]"] by (cases "broadcast_loop (\<lambda>t. False) 0 []") auto
  then show ?thesis
    using assms start_broadcaster_set [of to_json i nm g r v o' payload stop, OF assms] by (simp add: start_broadcaster_def)
qed

theorem broadcaster_stops_witness:
  "start_broadcaster (\<lambda>m. Some (msg_node_id m)) ''1'' ''linux'' True True ''n1'' ''n'' 9001 0 (\<lambda>t. 12 \<le> t) =
     Some ([(0, ''n1'', discovery_dest), (5, ''n1'', discovery_dest), (10, ''n1'', discovery_dest)], 12)"
proof -
  have "filter (\<lambda>u. 5 dvd u) [0..<12] = [0, 5, 10 :: nat]" by code_simp
  then show ?thesis
    using broadcaster_stops [of "\<lambda>m. Some (msg_node_id m)" "''n1''" "''n''" 9001 0 "''1''" "''linux''" "''n1''" 12]
    by simp
qed

end
