(* ===== verification/Node_Main.thy ===== *)
theory Node_Main
  imports Node_Service Node_Rpc Node_Discovery
begin

text \<open>
  The node agent as a whole (\<^verbatim>\<open>node-agent/src/main.rs\<close>): its identity and ports, start-up,
  serving, shut-down. The environment is a parameter: the system and the \<^verbatim>\<open>sysinfo\<close> crate,
  the machine's id, what spawning the \<^verbatim>\<open>rpc-server\<close> and posting the registration answer,
  which child processes end while the agent serves, and how serving ends. Logging is left out.
\<close>

section \<open>Arguments and identity\<close>

record args =
  arg_grpc_port :: u16
  arg_name :: "string option"
  arg_orchestrator_port :: u16
  arg_orchestrator_host :: "string option"
  arg_enable_rpc :: bool
  arg_rpc_port :: "u16 option"
  arg_rpc_server_bin :: string

definition hostname :: "os \<Rightarrow> string act" where
  "hostname os = do {
     s \<leftarrow> read_to_string os ''/etc/hostname'';
     ret (case s of Some s \<Rightarrow> trim s | None \<Rightarrow> ''unknown'')
   }"

definition machine_id_of :: "string option \<Rightarrow> string \<Rightarrow> string" where
  "machine_id_of uid host =
     (case uid of
        Some s \<Rightarrow> if s \<noteq> [] then s else host
      | None \<Rightarrow> host)"

definition node_id_of :: "string \<Rightarrow> string \<Rightarrow> u16 \<Rightarrow> string" where
  "node_id_of machine_id host p = machine_id @ ''-'' @ host @ ''-'' @ dec (unat p)"

definition effective_rpc_port :: "args \<Rightarrow> u16" where
  "effective_rpc_port a =
     (if arg_enable_rpc a
      then case arg_rpc_port a of Some p \<Rightarrow> p | None \<Rightarrow> sat_add (arg_grpc_port a) 1000
      else 0)"

section \<open>Start-up\<close>

text \<open>A failed start is only logged; the server is kept in any case.\<close>

definition start_rpc :: "spawn \<Rightarrow> args \<Rightarrow> rpc_server option" where
  "start_rpc spawn a =
     (if arg_enable_rpc a
      then let (r, rpc) = start spawn (new_server (effective_rpc_port a) (arg_rpc_server_bin a)) in Some rpc
      else None)"

record registration =
  reg_node_id :: string
  reg_name :: string
  reg_grpc_port :: u16
  reg_rpc_port :: u16
  reg_version :: string
  reg_os :: string
  reg_cpu_cores :: u32
  reg_ram_bytes :: u64
  reg_gpu_count :: nat

text \<open>The agent: what it has started and announced, and the shutdown flag.\<close>

record agent =
  agent_service :: service
  agent_rpc :: "rpc_server option"
  agent_shutdown :: bool
  agent_announces :: discovery_message
  agent_posted :: "(string \<times> registration) option"

text \<open>The address is parsed from a 16-bit number, which succeeds; the reply to the registration is only logged.\<close>

definition start_up ::
  "bool \<Rightarrow> os \<Rightarrow> sysinfo \<Rightarrow> string \<Rightarrow> string option \<Rightarrow> spawn \<Rightarrow> string \<Rightarrow> string \<Rightarrow> args \<Rightarrow> (string, agent) outcome act" where
  "start_up oc os sys arch uid spawn pkg_version os_name a = do {
     host \<leftarrow> hostname os;
     let node_id = node_id_of (machine_id_of uid host) host (arg_grpc_port a);
     hw \<leftarrow> collect oc os sys arch;
     ret (and_then hw (\<lambda>hw.
       let rp = effective_rpc_port a;
           rpc = start_rpc spawn a;
           addr = ''0.0.0.0:'' @ dec (unat (arg_grpc_port a));
           node_name = (case arg_name a of Some n \<Rightarrow> n | None \<Rightarrow> host);
           posted =
             (case arg_orchestrator_host a of
                None \<Rightarrow> None
              | Some h \<Rightarrow>
                  Some (''http://'' @ h @ '':'' @ dec (unat (arg_orchestrator_port a)) @ ''/api/nodes/register'',
                    \<lparr>reg_node_id = node_id, reg_name = node_name, reg_grpc_port = arg_grpc_port a,
                     reg_rpc_port = rp, reg_version = pkg_version, reg_os = os_name,
                     reg_cpu_cores = cores (cpu hw), reg_ram_bytes = total_bytes (memory hw),
                     reg_gpu_count = length (gpus hw)\<rparr>))
       in Val \<lparr>agent_service = new_service node_id node_name hw addr rp, agent_rpc = rpc, agent_shutdown = False,
               agent_announces =
                 \<lparr>msg_node_id = node_id, msg_node_name = node_name, msg_grpc_port = arg_grpc_port a,
                  msg_rpc_port = rp, msg_version = pkg_version, msg_os = os_name\<rparr>,
               agent_posted = posted\<rparr>))
   }"

section \<open>Serving and shut-down\<close>

text \<open>Children that end while the agent serves.\<close>

definition serve_with :: "pid list \<Rightarrow> agent \<Rightarrow> agent" where
  "serve_with ended ag = ag\<lparr>agent_rpc := map_option (fold child_ends ended) (agent_rpc ag)\<rparr>"

definition shut_down :: "agent \<Rightarrow> agent" where
  "shut_down ag = ag\<lparr>agent_shutdown := True, agent_rpc := map_option stop (agent_rpc ag)\<rparr>"



text \<open>
  The \<^verbatim>\<open>select!\<close>: when and how serving ends, with the server's own result or with \<^verbatim>\<open>Ok\<close> after
  a signal; \<open>pick\<close> decides if both come in the same second.
\<close>

definition serve_until ::
  "bool \<Rightarrow> (nat \<times> (string + unit)) option \<Rightarrow> nat option \<Rightarrow> (nat \<times> (string + unit)) option" where
  "serve_until pick server signal =
     (case (server, signal) of
        (None, None) \<Rightarrow> None
      | (Some (t, res), None) \<Rightarrow> Some (t, res)
      | (None, Some u) \<Rightarrow> Some (u, Inr ())
      | (Some (t, res), Some u) \<Rightarrow> if t < u \<or> (t = u \<and> pick) then Some (t, res) else Some (u, Inr ()))"

text \<open>The run: the agent afterwards, the result and the time, or \<^const>\<open>None\<close> if it serves forever.\<close>

definition main ::
  "bool \<Rightarrow> os \<Rightarrow> sysinfo \<Rightarrow> string \<Rightarrow> string option \<Rightarrow> spawn \<Rightarrow> string \<Rightarrow> string \<Rightarrow>
   pid list \<Rightarrow> (nat \<times> (string + unit)) option \<Rightarrow> nat option \<Rightarrow> bool \<Rightarrow> args \<Rightarrow>
   (string, (agent \<times> (string + unit) \<times> nat) option) outcome act" where
  "main oc os sys arch uid spawn pkg_version os_name ended server signal pick a = do {
     ag \<leftarrow> start_up oc os sys arch uid spawn pkg_version os_name a;
     ret (and_then ag (\<lambda>ag.
       Val (case serve_until pick server signal of
              None \<Rightarrow> None
            | Some (t, res) \<Rightarrow> Some (shut_down (serve_with ended ag), res, t))))
   }"


section \<open>Lemmas\<close>

lemma start_up_Val:
  assumes "fst (run_state (start_up oc os sys arch uid spawn v o' a) t) = Val ag"
  shows "agent_rpc ag = start_rpc spawn a" and "service_rpc_port (agent_service ag) = effective_rpc_port a"
    and "msg_rpc_port (agent_announces ag) = effective_rpc_port a"
  using assms by (auto simp: start_up_def Let_def and_then_eq_Val new_service_def split: prod.splits)

lemma child_ends_no_orphan: "no_orphan s \<Longrightarrow> no_orphan (child_ends c s)"
  by (auto simp: no_orphan_def child_ends_def split: if_splits)

lemma children_end_no_orphan: "no_orphan s \<Longrightarrow> no_orphan (fold child_ends cs s)"
  by (induction cs arbitrary: s) (auto simp: child_ends_no_orphan)

lemma start_rpc_no_orphan: "start_rpc spawn a = Some s \<Longrightarrow> no_orphan s"
  using no_orphan_step [OF started [OF prod.collapse [symmetric]] no_orphan_new]
  by (auto simp: start_rpc_def split: if_splits prod.splits) (metis snd_conv)

lemma stop_process [simp]: "process (stop s) = None"
  by (simp add: stop_def split: option.split)

lemma split_last:
  assumes "a @ c # x = b @ c # y" and "c \<notin> set x" and "c \<notin> set y"
  shows "a = b \<and> x = y"
proof -
  have "takeWhile (\<lambda>d. d \<noteq> c) (rev (a @ c # x)) = rev x" "takeWhile (\<lambda>d. d \<noteq> c) (rev (b @ c # y)) = rev y"
    using assms(2,3) by (auto simp: takeWhile_tail takeWhile_append2)
  with assms(1) have "x = y" by simp
  with assms(1) show ?thesis by simp
qed

lemma dec_inj: "dec n = dec m \<Longrightarrow> n = m"
  by (metis digits_val_dec)

section \<open>A run\<close>

text \<open>With \<^verbatim>\<open>Disks::new()\<close> being empty, start-up returns on every system.\<close>

definition demo_sys :: sysinfo where
  "demo_sys =
     \<lparr>total_memory = 2 ^ 34, available_memory = 2 ^ 33, total_swap = 0, free_swap = 0, physical_core_count = Some 4,
      new_cpus = 0, new_total_memory = 0, disks = []\<rparr>"

definition demo_args :: args where
  "demo_args =
     \<lparr>arg_grpc_port = 65000, arg_name = None, arg_orchestrator_port = 8000, arg_orchestrator_host = None,
      arg_enable_rpc = True, arg_rpc_port = None, arg_rpc_server_bin = ''llama-rpc-server''\<rparr>"

lemma collect_returns: "gives (\<lambda>r. \<exists>hw. r = Val hw) (collect oc os demo_sys arch)"
  unfolding collect_def
  by (intro gives_bind) (simp add: read_disks_def sum_u64_def demo_sys_def gives_bind gives_return)

lemma start_up_returns: "\<exists>ag. fst (run_state (start_up oc os demo_sys arch uid spawn v o' a) t) = Val ag"
proof -
  have "gives (\<lambda>r. \<exists>ag. r = Val ag) (start_up oc os demo_sys arch uid spawn v o' a)"
    unfolding start_up_def Let_def
    by (rule gives_bind, rule gives_bind_from [OF collect_returns]) (auto intro: gives_return)
  then show ?thesis by (simp add: gives_def)
qed

lemma serve_until_Some:
  assumes "serve_until pick server signal = Some (T, res)"
  shows "(server = Some (T, res) \<or> (signal = Some T \<and> res = Inr ())) \<and> (\<forall>u. signal = Some u \<longrightarrow> T \<le> u) \<and>
    (\<forall>u r. server = Some (u, r) \<longrightarrow> T \<le> u)"
  using assms by (auto simp: serve_until_def split: option.splits if_splits)


lemma main_Some:
  assumes "fst (run_state (main oc os sys arch uid spawn v o' ended server signal pick a) t) = Val (Some (ag, res, T))"
  obtains ag1 where "fst (run_state (start_up oc os sys arch uid spawn v o' a) t) = Val ag1"
    and "ag = shut_down (serve_with ended ag1)" and "serve_until pick server signal = Some (T, res)"
proof -
  obtain r t1 where s: "run_state (start_up oc os sys arch uid spawn v o' a) t = (r, t1)" by fastforce
  then obtain ag1 where "r = Val ag1"
    "(case serve_until pick server signal of None \<Rightarrow> None
      | Some (t, res) \<Rightarrow> Some (shut_down (serve_with ended ag1), res, t)) = Some (ag, res, T)"
    using assms by (auto simp: main_def and_then_eq_Val)
  with that [of ag1] s show ?thesis by (auto split: option.splits)
qed

lemma main_returns:
  assumes "fst (run_state (start_up oc os sys arch uid spawn v o' a) t) = Val ag1"
    and "serve_until pick server signal = Some (T, res)"
  shows "fst (run_state (main oc os sys arch uid spawn v o' ended server signal pick a) t) =
    Val (Some (shut_down (serve_with ended ag1), res, T))"
  using assms by (cases "run_state (start_up oc os sys arch uid spawn v o' a) t") (simp add: main_def)









lemma shut_down_announces [simp]:
  "agent_announces (shut_down ag) = agent_announces ag" "agent_announces (serve_with ended ag) = agent_announces ag"
  by (simp_all add: shut_down_def serve_with_def)

section \<open>Properties\<close>

text \<open>
  C8: However serving ends, and whichever children have ended meanwhile, when the agent returns
  the shutdown flag of the broadcaster is set, no \<^verbatim>\<open>rpc-server\<close> child runs and none is in the
  handle, and the result is the server's own, or \<^verbatim>\<open>Ok\<close> at the time of the signal.
\<close>

theorem main_cleans_up:
  assumes "fst (run_state (main oc os sys arch uid spawn v o' ended server signal pick a) t) = Val (Some (ag, res, T))"
  shows "agent_shutdown ag \<and> (\<forall>s. agent_rpc ag = Some s \<longrightarrow> alive s = [] \<and> process s = None) \<and>
    (agent_rpc ag = None \<longleftrightarrow> \<not> arg_enable_rpc a) \<and>
    (server = Some (T, res) \<or> (signal = Some T \<and> res = Inr ()))"
proof -
  obtain ag1 where ag: "fst (run_state (start_up oc os sys arch uid spawn v o' a) t) = Val ag1"
    "ag = shut_down (serve_with ended ag1)" "serve_until pick server signal = Some (T, res)"
    using assms by (rule main_Some)
  have "agent_rpc ag1 = start_rpc spawn a" by (rule start_up_Val(1) [OF ag(1)])
  moreover have "alive (stop (fold child_ends ended s)) = []" if "start_rpc spawn a = Some s" for s
    using that by (intro stop_kills children_end_no_orphan start_rpc_no_orphan)
  moreover have "start_rpc spawn a = None \<longleftrightarrow> \<not> arg_enable_rpc a" by (simp add: start_rpc_def split: prod.split)
  ultimately show ?thesis using ag(2) serve_until_Some [OF ag(3)] by (auto simp: shut_down_def serve_with_def)
qed

theorem main_cleans_up_witness:
  "\<exists>ag s. fst (run_state (main True locked_os demo_sys ''x86_64'' None (\<lambda>c as. Inr 7) ''1'' ''linux'' [] None (Some 12) True demo_args) []) =
      Val (Some (ag, Inr (), 12)) \<and>
    agent_shutdown ag \<and> agent_rpc ag = Some s \<and> alive s = []"
proof -
  obtain ag1 where "fst (run_state (start_up True locked_os demo_sys ''x86_64'' None (\<lambda>c as. Inr 7) ''1'' ''linux'' demo_args) []) = Val ag1"
    using start_up_returns by blast
  then have r: "fst (run_state (main True locked_os demo_sys ''x86_64'' None (\<lambda>c as. Inr 7) ''1'' ''linux'' [] None (Some 12) True demo_args) []) =
      Val (Some (shut_down (serve_with [] ag1), Inr (), 12))"
    by (rule main_returns) (simp add: serve_until_def)
  have "arg_enable_rpc demo_args" by (simp add: demo_args_def)
  with main_cleans_up [OF r] r show ?thesis by auto
qed



text \<open>
  C38: Nodes with machine ids of the same length have the same id only if machine id, host name
  and port are the same: clones of one disk that differ in their host name have different ids,
  and so have two agents on one machine.
\<close>

theorem node_id_unique:
  assumes "length m = length m'"
  shows "node_id_of m h p = node_id_of m' h' p' \<longleftrightarrow> m = m' \<and> h = h' \<and> p = p'"
proof
  assume "node_id_of m h p = node_id_of m' h' p'"
  then have "m = m'" and r: "h @ CHR ''-'' # dec (unat p) = h' @ CHR ''-'' # dec (unat p')"
    using assms by (auto simp: node_id_of_def)
  have "CHR ''-'' \<notin> set (dec n)" for n using dec_digits [of "CHR ''-''" n] by auto
  with split_last [OF r] have "h = h'" "dec (unat p) = dec (unat p')" by simp_all
  with \<open>m = m'\<close> dec_inj show "m = m' \<and> h = h' \<and> p = p'" by (simp add: word_unat_eq_iff)
qed simp

theorem node_id_unique_witness: "node_id_of ''m'' ''a-1'' 9001 \<noteq> node_id_of ''m'' ''a'' 19001"
  using node_id_unique [of "''m''" "''m''" "''a-1''" 9001 "''a''" 19001] by simp

text \<open>
  C39: When the \<^verbatim>\<open>rpc-server\<close> cannot be started, the agent runs without it but still announces
  its port to the cluster, and the service reports the endpoint as running.
\<close>

theorem failed_rpc_announced:
  assumes "arg_enable_rpc a" and "effective_rpc_port a \<noteq> 0" and "\<And>c as. spawn c as = Inl (err c as)"
    and "fst (run_state (start_up oc os sys arch uid spawn v o' a) t) = Val ag"
  shows "(\<exists>s. agent_rpc ag = Some s \<and> \<not> is_running s \<and> alive s = []) \<and>
    get_rpc_endpoint (agent_service ag) =
      Inr \<lparr>running = True, endpoint_port = ucast (effective_rpc_port a), address = []\<rparr> \<and>
    msg_rpc_port (agent_announces ag) = effective_rpc_port a"
proof -
  have "start_rpc spawn a = Some (new_server (effective_rpc_port a) (arg_rpc_server_bin a))"
    using assms(1,3) by (simp add: start_rpc_def start_def new_server_def)
  then have "\<exists>s. start_rpc spawn a = Some s \<and> process s = None \<and> alive s = []"
    by (simp add: new_server_def)
  with start_up_Val [OF assms(4)] assms(2) show ?thesis
    by (auto simp: is_running_def get_rpc_endpoint_def word_gt_0)
qed

theorem failed_rpc_announced_witness:
  "\<exists>ag. fst (run_state (start_up True locked_os demo_sys ''x86_64'' None (\<lambda>c as. Inl ''not found'') ''1'' ''linux'' demo_args) []) =
      (Val ag :: (string, agent) outcome) \<and>
    get_rpc_endpoint (agent_service ag) = Inr \<lparr>running = True, endpoint_port = 65535, address = []\<rparr>"
proof -
  obtain ag where r:
    "fst (run_state (start_up True locked_os demo_sys ''x86_64'' None (\<lambda>c as. Inl ''not found'') ''1'' ''linux'' demo_args) []) =
      (Val ag :: (string, agent) outcome)"
    using start_up_returns by blast
  have "effective_rpc_port demo_args = 65535" by code_simp
  then show ?thesis
    using failed_rpc_announced [of demo_args "\<lambda>c as. Inl ''not found''" "\<lambda>c as. ''not found''", OF _ _ refl r] r
    by (auto simp: demo_args_def)
qed

text \<open>
  The default port of the \<^verbatim>\<open>rpc-server\<close> is 1000 above the agent's own, but never above
  65535, so it is the agent's own port exactly if that is 65535.
\<close>

theorem default_rpc_port:
  assumes "arg_enable_rpc a" and "arg_rpc_port a = None"
  shows "unat (effective_rpc_port a) = min (unat (arg_grpc_port a) + 1000) 65535 \<and>
    (effective_rpc_port a = arg_grpc_port a \<longleftrightarrow> arg_grpc_port a = 65535)"
proof -
  have "unat (- 1 :: u16) = 65535" by code_simp
  then have "unat (sat_add (g :: u16) 1000) = min (unat g + 1000) 65535" for g
    using unsigned_less [of g, where ?'a = nat] unat_add_exact [of g 1000] by (auto simp: sat_add_def)
  then show ?thesis using assms unsigned_less [of "arg_grpc_port a", where ?'a = nat]
    by (auto simp: effective_rpc_port_def word_unat_eq_iff)
qed

theorem default_rpc_port_witness: "unat (effective_rpc_port demo_args) = 65535"
  using default_rpc_port [of demo_args] by (simp add: demo_args_def)

end
