(* ===== verification/Node_Shard.thy ===== *)
theory Node_Shard
  imports Gguf_Layers
begin

text \<open>
  The node's own view of layers (\<^verbatim>\<open>node-agent/src/inference/shard.rs\<close>): the range of layers a
  node serves, the layer of a tensor name as an \<^verbatim>\<open>i32\<close>, and which tensors are the node's. The
  property relates it to the splitter, which decides independently, with \<^verbatim>\<open>u32\<close> layers, which
  tensors are in the node's shard file.
\<close>

section \<open>Signed arithmetic of the two build profiles\<close>

definition iadd :: "bool \<Rightarrow> i32 \<Rightarrow> i32 \<Rightarrow> ('e, i32) outcome" where
  "iadd oc a b = (if oc \<and> sint (a + b) \<noteq> sint a + sint b then Panic ArithOverflow else Val (a + b))"

definition isub :: "bool \<Rightarrow> i32 \<Rightarrow> i32 \<Rightarrow> ('e, i32) outcome" where
  "isub oc a b = (if oc \<and> sint (a - b) \<noteq> sint a - sint b then Panic ArithOverflow else Val (a - b))"

section \<open>shard.rs\<close>

record layer_range =
  first_layer :: i32
  num_layers :: i32
  has_lm_head :: bool

definition new_range :: "i32 \<Rightarrow> i32 \<Rightarrow> bool \<Rightarrow> layer_range" where
  "new_range first n has = \<lparr>first_layer = first, num_layers = n, has_lm_head = has\<rparr>"

definition last_layer :: "bool \<Rightarrow> layer_range \<Rightarrow> ('e, i32) outcome" where
  "last_layer oc r =
     and_then (iadd oc (first_layer r) (num_layers r)) (\<lambda>e. isub oc e 1)"

definition layer_from_tensor_name :: "string \<Rightarrow> i32 option" where
  "layer_from_tensor_name nm =
     (case strip_prefix nm ''blk.'' of
        Some rest \<Rightarrow>
          (case find_char rest CHR ''.'' of
             None \<Rightarrow> None
           | Some dot_pos \<Rightarrow> parse_i32 (take dot_pos rest))
      | None \<Rightarrow> None)"

text \<open>The second comparison, and with it the arithmetic of \<^verbatim>\<open>last_layer\<close>, only if the first holds.\<close>

definition tensor_belongs_to_node :: "bool \<Rightarrow> string \<Rightarrow> layer_range \<Rightarrow> ('e, bool) outcome" where
  "tensor_belongs_to_node oc nm r =
     (case layer_from_tensor_name nm of
        Some layer \<Rightarrow>
          if first_layer r <=s layer
          then and_then (last_layer oc r) (\<lambda>l. Val (layer <=s l))
          else Val False
      | None \<Rightarrow> Val (contains nm ''output'' \<and> has_lm_head r))"

section \<open>Small layer numbers\<close>

lemma sint_small: "unat a < 2 ^ 31 \<Longrightarrow> sint a = int (unat a)" for a :: i32
proof -
  assume "unat a < 2 ^ 31"
  then have "int (unat a) < int (2 ^ 31)" by (simp only: of_nat_less_iff)
  then have "uint a < 2 ^ 31" by simp
  moreover have "- (2 ^ 31) \<le> uint a" by (rule order_trans [OF _ uint_ge_0]) simp
  ultimately have "signed_take_bit 31 (uint a) = uint a" by (intro signed_take_bit_int_eq_self)
  then show ?thesis by (simp add: sint_uint)
qed

lemma sle_small: "unat a < 2 ^ 31 \<Longrightarrow> unat b < 2 ^ 31 \<Longrightarrow> a <=s b \<longleftrightarrow> unat a \<le> unat b" for a b :: i32
  unfolding word_sle_eq by (simp only: sint_small of_nat_le_iff)

lemma iadd_small:
  fixes a b :: i32
  assumes "unat a + unat b < 2 ^ 31"
  shows "iadd oc a b = Val (a + b)" and "unat (a + b) = unat a + unat b"
proof -
  show u: "unat (a + b) = unat a + unat b" using assms by (intro unat_add_exact) simp
  show "iadd oc a b = Val (a + b)" using assms by (simp add: iadd_def sint_small u)
qed

lemma isub_small:
  fixes a b :: i32
  assumes "unat b \<le> unat a" "unat a < 2 ^ 31"
  shows "isub oc a b = Val (a - b)" and "unat (a - b) = unat a - unat b"
proof -
  show u: "unat (a - b) = unat a - unat b" using assms by (intro unat_sub_exact) (simp add: word_le_nat_alt)
  show "isub oc a b = Val (a - b)" using assms by (simp add: isub_def sint_small u of_nat_diff)
qed

lemma layer_names_agree:
  assumes "get_layer_id nm = Some l" and "unat l < 2 ^ 31"
  shows "layer_from_tensor_name nm = Some l"
  using assms by (auto simp: get_layer_id_def layer_from_tensor_name_def parse_i32_u32 split: option.splits)

lemma last_layer_small:
  assumes "unat (first_layer r) + unat (num_layers r) < 2 ^ 31" and "num_layers r \<noteq> 0"
  obtains l where "last_layer oc r = (Val l :: ('e, i32) outcome)" and "Suc (unat l) = unat (first_layer r) + unat (num_layers r)"
proof -
  let ?e = "first_layer r + num_layers r"
  have e: "unat ?e = unat (first_layer r) + unat (num_layers r)" by (rule iadd_small(2) [OF assms(1)])
  have "0 < unat (num_layers r)" using assms(2) by (simp add: unat_gt_0)
  with e assms(1) have "isub oc ?e 1 = (Val (?e - 1) :: ('e, i32) outcome)" "unat (?e - 1) = unat ?e - 1"
    using isub_small [of 1 ?e] by simp_all
  with e \<open>0 < _\<close> show ?thesis
    using that [of "?e - 1"] by (simp add: last_layer_def iadd_small(1) [OF assms(1)])
qed

text \<open>The layers of a shard, by division.\<close>

lemma div_in_shard:
  fixes l n lps i lst :: nat
  assumes "0 < lps" and "l < n" and "Suc lst = min (Suc i * lps) n"
  shows "i * lps \<le> l \<and> l \<le> lst \<longleftrightarrow> l div lps = i"
proof -
  have "l \<le> lst \<longleftrightarrow> l < Suc i * lps" using assms(2,3) by linarith
  then show ?thesis
    using assms(1) by (metis div_less_iff_less_mult less_Suc_eq_le less_eq_div_iff_mult_less_eq order_antisym_conv order_refl)
qed

section \<open>Property\<close>

text \<open>
  C15: The node and the splitter agree. Give a node the range of layers that the splitter
  computed for shard \<open>i\<close> (first layer, number of layers, LM head), in a model of fewer than
  \<open>2 ^ 31\<close> layers. Then the node's check of a tensor of layer \<open>l\<close> says yes exactly if
  the splitter puts the layer into shard \<open>i\<close>, with no panic in either build. A tensor
  whose name has no layer is the node's only if the name contains \<^verbatim>\<open>output\<close> and the
  shard is the last one.
\<close>

theorem node_agrees_with_splitter:
  assumes fit: "ranges_fit n lps" and lps: "lps \<noteq> 0" and n: "unat n < 2 ^ 31"
    and i: "i < num_shards_of n lps"
  shows "\<exists>first lst has.
    shard_range oc n lps (num_shards_of n lps) i = Val (first, lst, has) \<and>
    (\<forall>nm l. get_layer_id nm = Some l \<and> l < n \<longrightarrow>
       tensor_belongs_to_node oc nm (new_range first (lst - first + 1) has) = (Val :: _ \<Rightarrow> ('e, bool) outcome)
         (shard_of (unat lps) (unat (num_shards_of n lps)) (Layer (unat l)) = unat i)) \<and>
    (\<forall>nm. \<not> starts_with nm ''blk.'' \<longrightarrow>
       tensor_belongs_to_node oc nm (new_range first (lst - first + 1) has) =
         (Val :: _ \<Rightarrow> ('e, bool) outcome) (contains nm ''output'' \<and> Suc (unat i) = unat (num_shards_of n lps)))"
proof -
  obtain first lst where r:
    "shard_range oc n lps (num_shards_of n lps) i = Val (first, lst, Suc (unat i) = unat (num_shards_of n lps))"
    "unat first = unat i * unat lps" "Suc (unat lst) = min (Suc (unat i) * unat lps) (unat n)"
    "unat i * unat lps < unat n"
    by (rule shard_range_eq [OF fit lps i])
  let ?has = "Suc (unat i) = unat (num_shards_of n lps)"
  let ?r = "new_range first (lst - first + 1) ?has"
  have "unat i * unat lps < Suc (unat i) * unat lps" using lps by (simp add: unat_gt_0)
  with r have "unat first \<le> unat lst" by linarith
  then have d: "unat (lst - first) = unat lst - unat first" by (simp add: unat_sub_exact word_le_nat_alt)
  then have c: "unat (lst - first + 1) = Suc (unat lst - unat first)"
    using r n by (subst unat_add_exact) auto
  with r n \<open>unat first \<le> unat lst\<close> have fits: "unat (first_layer ?r) + unat (num_layers ?r) < 2 ^ 31"
    "num_layers ?r \<noteq> 0" "unat (first_layer ?r) + unat (num_layers ?r) = Suc (unat lst)"
    by (auto simp: new_range_def)
  obtain top where top: "last_layer oc ?r = (Val top :: ('e, i32) outcome)" "Suc (unat top) = Suc (unat lst)"
    by (rule last_layer_small [OF fits(1,2), of oc]) (use fits in simp)
  have "tensor_belongs_to_node oc nm ?r = (Val (unat l div unat lps = unat i) :: ('e, bool) outcome)"
    if "get_layer_id nm = Some l" "l < n" for nm l
  proof -
    have l: "unat l < unat n" using that(2) by (simp add: word_less_nat_alt)
    then have nm: "layer_from_tensor_name nm = Some l" using layer_names_agree [OF that(1)] n by simp
    have "unat first < 2 ^ 31" "unat top < 2 ^ 31" using r n top by auto
    then have "tensor_belongs_to_node oc nm ?r =
        (Val (unat first \<le> unat l \<and> unat l \<le> unat lst) :: ('e, bool) outcome)"
      using l n top by (simp add: tensor_belongs_to_node_def nm sle_small new_range_def)
    also have "unat first \<le> unat l \<and> unat l \<le> unat lst \<longleftrightarrow> unat l div unat lps = unat i"
      using div_in_shard [OF _ l r(3)] lps unfolding r(2) by (simp add: unat_gt_0)
    finally show ?thesis .
  qed
  moreover have "tensor_belongs_to_node oc nm ?r = (Val (contains nm ''output'' \<and> ?has) :: ('e, bool) outcome)"
    if "\<not> starts_with nm ''blk.''" for nm
    using that by (simp add: tensor_belongs_to_node_def layer_from_tensor_name_def strip_prefix_def new_range_def)
  ultimately show ?thesis using r(1) by (intro exI [of _ first] exI [of _ lst] exI [of _ ?has]) simp
qed

theorem node_agrees_with_splitter_witness:
  "\<exists>first lst.
    shard_range True 10 4 3 2 = Val (first, lst, True) \<and>
    tensor_belongs_to_node True ''blk.9.attn_q.weight'' (new_range first (lst - first + 1) True) =
      (Val True :: (unit, bool) outcome) \<and>
    tensor_belongs_to_node True ''blk.7.attn_q.weight'' (new_range first (lst - first + 1) True) =
      (Val False :: (unit, bool) outcome) \<and>
    tensor_belongs_to_node True ''token_embd.weight'' (new_range first (lst - first + 1) True) =
      (Val False :: (unit, bool) outcome)"
proof -
  have n: "num_shards_of 10 4 = 3" by (simp add: word_unat_eq_iff num_shards_exact)
  have fit: "ranges_fit 10 4" by code_simp
  have l: "get_layer_id ''blk.9.attn_q.weight'' = Some 9" "get_layer_id ''blk.7.attn_q.weight'' = Some 7"
    "\<not> starts_with ''token_embd.weight'' ''blk.''" "\<not> contains ''token_embd.weight'' ''output''" by code_simp+
  obtain first lst has where r: "shard_range True 10 4 3 2 = Val (first, lst, has)"
    "\<forall>nm l. get_layer_id nm = Some l \<and> l < 10 \<longrightarrow>
       tensor_belongs_to_node True nm (new_range first (lst - first + 1) has) = (Val :: _ \<Rightarrow> (unit, bool) outcome) (unat l div 4 = 2)"
    "\<forall>nm. \<not> starts_with nm ''blk.'' \<longrightarrow>
       tensor_belongs_to_node True nm (new_range first (lst - first + 1) has) = (Val :: _ \<Rightarrow> (unit, bool) outcome) (contains nm ''output'')"
    using node_agrees_with_splitter [where n = 10 and lps = 4 and i = 2 and oc = True and ?'e = unit, OF fit] n by auto
  moreover have "shard_range True 10 4 3 2 = Val (8, 9, True)" by code_simp
  with r(1) have "has" by simp
  ultimately show ?thesis
    using l r(2) [rule_format, of "''blk.9.attn_q.weight''" 9] r(2) [rule_format, of "''blk.7.attn_q.weight''" 7]
      r(3) [rule_format, of "''token_embd.weight''"] by (simp del: contains.simps)
qed

end
