(* ===== verification/Node_Channel.thy ===== *)
theory Node_Channel
  imports Node_Stream "HOL-Library.Sublist"
begin

text \<open>
  The generating task and the stream that reads its messages as two processes
  (\<^verbatim>\<open>forward_stream\<close> in \<^verbatim>\<open>node-agent/src/network/grpc_server.rs\<close>): the task runs on a thread
  of its own and sends into a channel of 32 messages; a send waits for room and fails once
  the receiver is gone, which may happen at any time. \<open>Node_Stream\<close> describes the task as if
  it ran alone. Here its steps are interleaved with the client's, and the answer the client
  reads is shown to be the one of \<open>Node_Stream\<close>, without deadlock. The channel is that of the
  crate \<^verbatim>\<open>tokio\<close>, a parameter: a record of the functions called, with their documented
  behaviour as the assumptions of the locale \<open>bounded_channel\<close>.
\<close>

section \<open>Channels\<close>

text \<open>A send that would have to wait for room is \<open>Full\<close>; \<open>Closed\<close> is its error.\<close>

datatype 'q sent = Sent 'q | Full | Closed

record ('q, 'x) channel_lib =
  new_channel :: "nat \<Rightarrow> 'q"
  try_send :: "'x \<Rightarrow> 'q \<Rightarrow> 'q sent"
  try_recv :: "'q \<Rightarrow> ('x \<times> 'q) option"
  drop_receiver :: "'q \<Rightarrow> 'q"

locale bounded_channel =
  fixes ch :: "('q, item) channel_lib" and contents :: "'q \<Rightarrow> item list" and is_open :: "'q \<Rightarrow> bool"
    and capacity :: "'q \<Rightarrow> nat"
  assumes new_channel: "contents (new_channel ch k) = [] \<and> is_open (new_channel ch k) \<and> capacity (new_channel ch k) = k"
    and send_room: "is_open q \<Longrightarrow> length (contents q) < capacity q \<Longrightarrow> try_send ch x q \<noteq> Full \<and> try_send ch x q \<noteq> Closed"
    and send: "try_send ch x q = Sent q' \<Longrightarrow> is_open q \<and> length (contents q) < capacity q \<and>
      contents q' = contents q @ [x] \<and> is_open q' \<and> capacity q' = capacity q"
    and send_closed: "try_send ch x q = Closed \<longleftrightarrow> \<not> is_open q"
    and recv_some: "contents q \<noteq> [] \<Longrightarrow> is_open q \<Longrightarrow> try_recv ch q \<noteq> None"
    and recv: "is_open q \<Longrightarrow> try_recv ch q = Some (x, q') \<Longrightarrow>
      contents q = x # contents q' \<and> is_open q' \<and> capacity q' = capacity q"
    and dropped: "\<not> is_open (drop_receiver ch q)"
begin

lemma can_send:
  assumes "is_open q" and "length (contents q) < capacity q"
  obtains q' where "try_send ch x q = Sent q'"
  using send_room [OF assms, of x] by (cases "try_send ch x q") auto

lemma can_recv:
  assumes "is_open q" and "contents q = x # xs"
  obtains q' where "try_recv ch q = Some (x, q')"
  using recv_some [of q] recv [of q] assms by (cases "try_recv ch q") fastforce+

end

text \<open>The contract can be met: a list with its capacity, and whether the receiver is there.\<close>

definition list_channel :: "(nat \<times> bool \<times> 'x list, 'x) channel_lib" where
  "list_channel =
     \<lparr>new_channel = (\<lambda>k. (k, True, [])),
      try_send = (\<lambda>x (k, l, xs). if \<not> l then Closed else if length xs < k then Sent (k, l, xs @ [x]) else Full),
      try_recv = (\<lambda>(k, l, xs). case xs of [] \<Rightarrow> None | x # xs \<Rightarrow> Some (x, (k, l, xs))),
      drop_receiver = (\<lambda>(k, l, xs). (k, False, []))\<rparr>"

interpretation lists: bounded_channel list_channel "\<lambda>(k, l, xs). xs" "\<lambda>(k, l, xs). l" "\<lambda>(k, l, xs). k"
  by unfold_locales (auto simp: list_channel_def split: if_splits list.splits)

section \<open>The task\<close>

text \<open>
  Where the task stands: before a round (with the position, the last token and the context),
  blocked in sending the text of a token, blocked in sending its last message, returned.
\<close>

datatype ('m, 'c) task =
    Round 'm nat i32 'c
  | Sending 'm nat i32 'c
  | Last item
  | Returned

definition start_task ::
  "('m, 'c, 'b) llama \<Rightarrow> string option \<Rightarrow> string \<Rightarrow> 'm node \<Rightarrow> ('m, 'c) task" where
  "start_task ll env prompt s =
     (case backend ll s of
        (Inl e, s) \<Rightarrow> Last (Inl (Internal, ''Backend init: '' @ e))
      | (Inr _, s) \<Rightarrow>
          (case load_from_file ll (case env of Some p \<Rightarrow> p | None \<Rightarrow> default_model_path) of
             Inl e \<Rightarrow> Last (Inl (Internal, ''Load model: '' @ e))
           | Inr m \<Rightarrow>
               (case str_to_token ll m prompt of
                  Inl e \<Rightarrow> Last (Inl (Internal, ''Tokenize: '' @ e))
                | Inr toks \<Rightarrow>
                    (case new_context ll m 2048 of
                       Inl e \<Rightarrow> Last (Inl (Internal, ''Ctx: '' @ e))
                     | Inr ctx \<Rightarrow>
                         (case add_seq ll (new_batch ll (length toks) 1) toks 0 True of
                            Inl e \<Rightarrow> Last (Inl (Internal, ''Batch: '' @ e))
                          | Inr batch \<Rightarrow>
                              (case decode ll ctx batch of
                                 Inl e \<Rightarrow> Last (Inl (Internal, ''Decode prompt: '' @ e))
                               | Inr ctx \<Rightarrow> Round m 0 0 ctx))))))"

text \<open>A round up to its send; every \<^verbatim>\<open>break\<close> leads to the end marker.\<close>

definition sample ::
  "('m, 'c, 'b) llama \<Rightarrow> nat \<Rightarrow> 'm \<Rightarrow> nat \<Rightarrow> i32 \<Rightarrow> 'c \<Rightarrow> ('m, 'c) task" where
  "sample ll max_toks m pos last_token ctx =
     (if pos < max_toks then
        case feed ll pos last_token ctx of
          None \<Rightarrow> Last (Inr end_marker)
        | Some ctx \<Rightarrow>
            if get_logits ll ctx = [] then Last (Inr end_marker)
            else Sending m pos (argmax (get_logits ll ctx)) ctx
      else Last (Inr end_marker))"

definition after_send :: "('m, 'c, 'b) llama \<Rightarrow> 'm \<Rightarrow> nat \<Rightarrow> i32 \<Rightarrow> 'c \<Rightarrow> ('m, 'c) task" where
  "after_send ll m pos t ctx = (if t = token_eos ll m then Last (Inr end_marker) else Round m (Suc pos) t ctx)"

section \<open>Task, channel and client\<close>

definition channel_capacity :: nat where
  "channel_capacity = 32"

record ('m, 'c, 'q) conf =
  task :: "('m, 'c) task"
  chan :: 'q
  received :: "item list"
  listening :: bool

definition start_conf :: "('q, item) channel_lib \<Rightarrow> ('m, 'c) task \<Rightarrow> ('m, 'c, 'q) conf" where
  "start_conf ch t = \<lparr>task = t, chan = new_channel ch channel_capacity, received = [], listening = True\<rparr>"

text \<open>
  \<open>receive\<close> is the stream's loop: \<^verbatim>\<open>yield resp?\<close> hands the message on, and an error ends the
  stream. In \<open>leave\<close> the client drops the stream, and the stream the receiver.
\<close>

inductive step ::
  "('q, item) channel_lib \<Rightarrow> ('m, 'c, 'b) llama \<Rightarrow> nat \<Rightarrow> ('m, 'c, 'q) conf \<Rightarrow> ('m, 'c, 'q) conf \<Rightarrow> bool"
  for ch ll n where
  compute: "task s = Round m pos t c \<Longrightarrow> step ch ll n s (s\<lparr>task := sample ll n m pos t c\<rparr>)"
| send: "task s = Sending m pos t c \<Longrightarrow> try_send ch (Inr (token_response ll m t)) (chan s) = Sent q \<Longrightarrow>
    step ch ll n s (s\<lparr>task := after_send ll m pos t c, chan := q\<rparr>)"
| send_fails: "task s = Sending m pos t c \<Longrightarrow> try_send ch (Inr (token_response ll m t)) (chan s) = Closed \<Longrightarrow>
    step ch ll n s (s\<lparr>task := Last (Inr end_marker)\<rparr>)"
| send_last: "task s = Last x \<Longrightarrow> try_send ch x (chan s) = Sent q \<Longrightarrow>
    step ch ll n s (s\<lparr>task := Returned, chan := q\<rparr>)"
| last_fails: "task s = Last x \<Longrightarrow> try_send ch x (chan s) = Closed \<Longrightarrow> step ch ll n s (s\<lparr>task := Returned\<rparr>)"
| receive: "listening s \<Longrightarrow> try_recv ch (chan s) = Some (Inr r, q) \<Longrightarrow>
    step ch ll n s (s\<lparr>chan := q, received := received s @ [Inr r]\<rparr>)"
| receive_error: "listening s \<Longrightarrow> try_recv ch (chan s) = Some (Inl e, q) \<Longrightarrow>
    step ch ll n s (s\<lparr>chan := drop_receiver ch q, received := received s @ [Inl e], listening := False\<rparr>)"
| leave: "listening s \<Longrightarrow> step ch ll n s (s\<lparr>chan := drop_receiver ch (chan s), listening := False\<rparr>)"

inductive_cases stepE: "step ch ll n s s'"

section \<open>All messages\<close>

text \<open>What the task will have sent in all, if every send succeeds from here on.\<close>

function messages :: "('m, 'c, 'b) llama \<Rightarrow> nat \<Rightarrow> ('m, 'c) task \<Rightarrow> item list \<Rightarrow> item list" where
  "messages ll n (Round m pos t c) sent =
     fst (token_loop ll (\<lambda>_. True) m (token_eos ll m) [pos..<n] t c sent) @ [Inr end_marker]"
| "messages ll n (Sending m pos t c) sent =
     messages ll n (after_send ll m pos t c) (sent @ [Inr (token_response ll m t)])"
| "messages ll n (Last x) sent = sent @ [x]"
| "messages ll n Returned sent = sent"
  by pat_completeness auto

termination
  by (relation "measure (\<lambda>(_, _, t, _). case t of Sending _ _ _ _ \<Rightarrow> 1 | _ \<Rightarrow> 0)")
    (auto simp: after_send_def)

lemma messages_sample: "messages ll n (sample ll n m pos t c) sent = messages ll n (Round m pos t c) sent"
proof (cases "pos < n")
  case True
  then have "[pos..<n] = pos # [Suc pos..<n]" by (simp add: upt_conv_Cons)
  with True show ?thesis
    by (simp add: sample_def after_send_def blocking_send_def Let_def split: option.split)
qed (simp add: sample_def)

lemma token_loop_extends:
  "\<exists>zs. fst (token_loop ll (\<lambda>_. True) m e ps t c sent) = sent @ zs"
proof (induction ps arbitrary: t c sent)
  case (Cons p ps)
  have "\<exists>zs. fst (token_loop ll (\<lambda>_. True) m e ps t' c' (sent @ [x])) = sent @ zs" for t' c' x
    using Cons.IH [of t' c' "sent @ [x]"] by auto
  then show ?case by (auto simp: blocking_send_def Let_def split: option.split)
qed simp

lemma messages_extend: "\<exists>zs. messages ll n t sent = sent @ zs"
proof (induction ll n t sent rule: messages.induct)
  case (1 ll n m pos t c sent)
  then show ?case using token_loop_extends [of ll m "token_eos ll m" "[pos..<n]" t c sent] by auto
qed auto

text \<open>Alone, the task sends what \<open>generate\<close> says.\<close>

lemma messages_start:
  "messages ll n (start_task ll env prompt s) [] = fst (generate ll (\<lambda>_. True) env prompt n s)"
  by (auto simp: start_task_def generate_def generate_on_def send_error_def blocking_send_def
      split: prod.split sum.split option.split)

section \<open>Invariant\<close>

lemma messages_prefix: "messages ll n t (xs @ ys) = whole \<Longrightarrow> prefix xs whole"
  using messages_extend [of ll n t "xs @ ys"] by (auto simp: prefix_def)

fun rounds_left :: "nat \<Rightarrow> ('m, 'c) task \<Rightarrow> nat" where
  "rounds_left n (Round m pos t c) = 3 * (n - pos) + 3"
| "rounds_left n (Sending m pos t c) = 3 * (n - Suc pos) + 5"
| "rounds_left n (Last x) = 2"
| "rounds_left n Returned = 0"

text \<open>Without a receiver the task ends after three steps: it samples once and fails to send twice.\<close>

fun steps_left :: "('m, 'c) task \<Rightarrow> nat" where
  "steps_left (Round m pos t c) = 3"
| "steps_left (Sending m pos t c) = 2"
| "steps_left (Last x) = 1"
| "steps_left Returned = 0"

definition work :: "('q \<Rightarrow> item list) \<Rightarrow> nat \<Rightarrow> ('m, 'c, 'q) conf \<Rightarrow> nat" where
  "work contents n s =
     rounds_left n (task s) + (if listening s then Suc (length (contents (chan s))) else 0)"

context bounded_channel
begin

definition delivers :: "('m, 'c, 'b) llama \<Rightarrow> nat \<Rightarrow> item list \<Rightarrow> ('m, 'c, 'q) conf \<Rightarrow> bool" where
  "delivers ll n whole s \<longleftrightarrow>
     (listening s \<longrightarrow> messages ll n (task s) (received s @ contents (chan s)) = whole \<and>
        capacity (chan s) = channel_capacity \<and> length (contents (chan s)) \<le> channel_capacity) \<and>
     is_open (chan s) = listening s \<and> prefix (received s) whole"

lemma delivers_start: "delivers ll n (messages ll n t []) (start_conf ch t)"
  using new_channel [of channel_capacity] by (simp add: delivers_def start_conf_def)

lemma delivers_step:
  assumes "step ch ll n s s'" and "delivers ll n whole s"
  shows "delivers ll n whole s'"
  using assms(1)
proof cases
  case (receive r q)
  then have "contents (chan s) = Inr r # contents q \<and> is_open q \<and> capacity q = capacity (chan s)"
    using recv assms(2) by (auto simp: delivers_def)
  moreover from this have "prefix (received s @ [Inr r]) whole"
    using assms(2) receive messages_prefix [of ll n "task s" "received s @ [Inr r]" "contents q"]
    by (auto simp: delivers_def)
  ultimately show ?thesis using assms(2) receive by (auto simp: delivers_def)
next
  case (receive_error e q)
  then have "contents (chan s) = Inl e # contents q" using recv assms(2) by (auto simp: delivers_def)
  then have "prefix (received s @ [Inl e]) whole"
    using assms(2) receive_error messages_prefix [of ll n "task s" "received s @ [Inl e]" "contents q"]
    by (auto simp: delivers_def)
  then show ?thesis using receive_error dropped by (auto simp: delivers_def)
next
  case leave
  then show ?thesis using assms(2) dropped by (auto simp: delivers_def)
next
  case (send m pos t c q)
  then show ?thesis using assms(2) bounded_channel.send [OF bounded_channel_axioms send(3)] by (auto simp: delivers_def)
next
  case (send_last x q)
  then show ?thesis using assms(2) bounded_channel.send [OF bounded_channel_axioms send_last(3)] by (auto simp: delivers_def)
next
  case (send_fails m pos t c)
  then show ?thesis using assms(2) send_closed by (auto simp: delivers_def)
next
  case (last_fails x)
  then show ?thesis using assms(2) send_closed by (auto simp: delivers_def)
next
  case (compute m pos t c)
  then show ?thesis using assms(2) by (auto simp: delivers_def messages_sample)
qed

lemma delivers_run:
  "(step ch ll n)\<^sup>*\<^sup>* s s' \<Longrightarrow> delivers ll n whole s \<Longrightarrow> delivers ll n whole s'"
  by (induction rule: rtranclp_induct) (auto intro: delivers_step)

lemma start_delivers:
  assumes "(step ch ll n)\<^sup>*\<^sup>* (start_conf ch (start_task ll env prompt s0)) s"
  shows "delivers ll n (fst (generate ll (\<lambda>_. True) env prompt n s0)) s"
  using assms delivers_start messages_start delivers_run by metis

text \<open>While the client listens, the task has returned or someone but a leaving client can go on.\<close>

lemma progress:
  assumes inv: "delivers ll n whole s" and "listening s"
  shows "task s = Returned \<and> contents (chan s) = [] \<or>
    (\<exists>s'. step ch ll n s s' \<and> (task s' \<noteq> task s \<or> received s' \<noteq> received s))"
proof (cases "contents (chan s)")
  case (Cons x xs)
  have "is_open (chan s)" using inv assms(2) by (simp add: delivers_def)
  then obtain q where q: "try_recv ch (chan s) = Some (x, q)" by (rule can_recv [OF _ Cons])
  show ?thesis
  proof (cases x)
    case (Inl e)
    then show ?thesis using step.receive_error [OF assms(2), of ch e q ll n] q
      by (intro disjI2 exI, intro conjI) (auto)
  next
    case (Inr r)
    then show ?thesis using step.receive [OF assms(2), of ch r q ll n] q
      by (intro disjI2 exI, intro conjI) (auto)
  qed
next
  case Nil
  then have room: "is_open (chan s)" "length (contents (chan s)) < capacity (chan s)"
    using inv assms(2) by (auto simp: delivers_def channel_capacity_def)
  show ?thesis
  proof (cases "task s")
    case (Round m pos t c)
    then have "task (s\<lparr>task := sample ll n m pos t c\<rparr>) \<noteq> task s"
      by (simp add: sample_def split: option.split)
    with step.compute [OF Round] show ?thesis by blast
  next
    case (Sending m pos t c)
    obtain q where "try_send ch (Inr (token_response ll m t)) (chan s) = Sent q" by (rule can_send [OF room])
    then show ?thesis using step.send [OF Sending]
      by (intro disjI2 exI, intro conjI) (assumption, simp add: after_send_def Sending)
  next
    case (Last x)
    obtain q where "try_send ch x (chan s) = Sent q" by (rule can_send [OF room])
    then show ?thesis using step.send_last [OF Last]
      by (intro disjI2 exI, intro conjI) (assumption, simp add: Last)
  qed (use Nil in simp)
qed

definition work :: "nat \<Rightarrow> ('m, 'c, 'q) conf \<Rightarrow> nat" where
  "work n s = rounds_left n (task s) + (if listening s then Suc (length (contents (chan s))) else 0)"

lemma step_decreases:
  assumes "step ch ll n s s'" and "is_open (chan s) = listening s"
  shows "work n s' < work n s"
  using assms(1)
proof cases
  case (send m pos t c q)
  then show ?thesis using assms(2) bounded_channel.send [OF bounded_channel_axioms send(3)]
    by (auto simp: work_def after_send_def)
next
  case (send_last x q)
  then show ?thesis using assms(2) bounded_channel.send [OF bounded_channel_axioms send_last(3)] by (auto simp: work_def)
next
  case (receive r q)
  then show ?thesis using assms(2) recv [of "chan s" "Inr r" q] by (auto simp: work_def)
qed (auto simp: work_def sample_def split: option.split)

lemma run_bounded:
  assumes "(step ch ll n ^^ k) s s'" and "delivers ll n whole s"
  shows "work n s' + k \<le> work n s"
  using assms(1)
proof (induction k arbitrary: s')
  case (Suc k)
  then obtain s1 where s1: "(step ch ll n ^^ k) s s1" "step ch ll n s1 s'" by auto
  then have "delivers ll n whole s1" using delivers_run [OF relpowp_imp_rtranclp assms(2)] by blast
  with s1 Suc.IH [of s1] step_decreases [of ll n s1 s'] show ?case by (auto simp: delivers_def)
qed simp

lemma alone_step:
  assumes "step ch ll n s s'" and "\<not> listening s" and "\<not> is_open (chan s)"
  shows "\<not> listening s' \<and> \<not> is_open (chan s') \<and> steps_left (task s') < steps_left (task s)"
  using assms(1)
proof cases
  case (send m pos t c q)
  then show ?thesis using assms(3) bounded_channel.send [OF bounded_channel_axioms send(3)] by simp
next
  case (send_last x q)
  then show ?thesis using assms(3) bounded_channel.send [OF bounded_channel_axioms send_last(3)] by simp
qed (use assms in \<open>auto simp: sample_def split: option.split\<close>)

lemma alone_run:
  "(step ch ll n ^^ k) s s' \<Longrightarrow> \<not> listening s \<Longrightarrow> \<not> is_open (chan s) \<Longrightarrow>
     \<not> listening s' \<and> \<not> is_open (chan s') \<and> steps_left (task s') + k \<le> steps_left (task s)"
proof (induction k arbitrary: s')
  case (Suc k)
  then obtain s1 where "(step ch ll n ^^ k) s s1" "step ch ll n s1 s'" by auto
  with Suc.IH [of s1] Suc.prems(2,3) alone_step [of ll n s1 s'] show ?case by fastforce
qed simp

lemma channel_safe:
  assumes "(step ch ll n)\<^sup>*\<^sup>* (start_conf ch (start_task ll env prompt s0)) s"
  shows "prefix (received s) (fst (generate ll (\<lambda>_. True) env prompt n s0))"
    and "listening s \<Longrightarrow> length (contents (chan s)) \<le> 32"
    and "listening s \<Longrightarrow>
      task s = Returned \<and> contents (chan s) = [] \<and> received s = fst (generate ll (\<lambda>_. True) env prompt n s0) \<or>
      (\<exists>s'. step ch ll n s s' \<and> (task s' \<noteq> task s \<or> received s' \<noteq> received s))"
  using start_delivers [OF assms] progress [OF start_delivers [OF assms]]
  by (auto simp: delivers_def channel_capacity_def)

lemma channel_bound:
  assumes "(step ch ll n ^^ k) (start_conf ch (start_task ll env prompt s0)) s"
  shows "k \<le> 3 * n + 4" and "\<not> listening s \<Longrightarrow> (step ch ll n ^^ j) s s' \<Longrightarrow> j \<le> 3"
proof -
  have inv: "delivers ll n (fst (generate ll (\<lambda>_. True) env prompt n s0)) s"
    using start_delivers relpowp_imp_rtranclp [OF assms] by blast
  have "rounds_left n (start_task ll env prompt s0) \<le> 3 * n + 3"
    by (auto simp: start_task_def split: prod.split sum.split option.split)
  then show "k \<le> 3 * n + 4"
    using run_bounded [OF assms delivers_start] new_channel [of channel_capacity] by (simp add: work_def start_conf_def)
  have "steps_left (task s) \<le> 3" by (cases "task s") auto
  then show "j \<le> 3" if "\<not> listening s" "(step ch ll n ^^ j) s s'"
    using alone_run [OF that(2,1)] inv that(1) by (auto simp: delivers_def)
qed

end

section \<open>Properties\<close>

text \<open>
  C3: On every channel that behaves as documented: however the task and the client interleave,
  what the client has read of an answer is the beginning of the messages the task sends when
  it runs alone; no message is lost, doubled or out of order, and at most 32 are under way.
  While the client listens there is no deadlock: either the task has returned, the channel is
  empty and the client has the whole answer, or the task or the client can go on.
\<close>

theorem channel_delivers:
  assumes "bounded_channel ch contents is_open capacity"
    and "(step ch ll n)\<^sup>*\<^sup>* (start_conf ch (start_task ll env prompt s0)) s"
  shows "prefix (received s) (fst (generate ll (\<lambda>_. True) env prompt n s0)) \<and>
    (listening s \<longrightarrow> length (contents (chan s)) \<le> 32 \<and>
      (task s = Returned \<and> contents (chan s) = [] \<and> received s = fst (generate ll (\<lambda>_. True) env prompt n s0) \<or>
       (\<exists>s'. step ch ll n s s' \<and> (task s' \<noteq> task s \<or> received s' \<noteq> received s))))"
  using bounded_channel.channel_safe [OF assms] by blast

theorem channel_delivers_witness:
  "\<exists>s :: (string, (i32 \<times> i32) list list, nat \<times> bool \<times> item list) conf.
     received s = [Inr (token_response (recording (\<lambda>c. [0, 1, of_nat (length c)]) 2) ''m'' 2)] \<and>
     prefix (received s) (fst (generate (recording (\<lambda>c. [0, 1, of_nat (length c)]) 2) (\<lambda>_. True) (Some ''m'') ''hi'' 5 new_node))"
proof -
  let ?ll = "recording (\<lambda>c. [0, 1, of_nat (length c)]) 2" and ?c = "[[(104, 0), (105, 1)]]"
  let ?r = "token_response ?ll ''m'' 2"
  have t: "start_task ?ll (Some ''m'') ''hi'' new_node = Round ''m'' 0 0 ?c"
    by (simp add: start_task_def backend_def new_node_def recording_def upt_rec)
  have sm: "sample ?ll 5 ''m'' 0 0 ?c = Sending ''m'' 0 2 ?c"
    by (simp add: sample_def feed_def recording_def argmax_def total_key_def)
  have e: "token_eos ?ll ''m'' = 2" by (simp add: recording_def)
  let ?s0 = "start_conf list_channel (Round ''m'' 0 0 ?c)" and ?s1 = "start_conf list_channel (Sending ''m'' 0 2 ?c)"
  let ?s2 = "(start_conf list_channel (Last (Inr end_marker)))\<lparr>chan := (32, True, [Inr ?r])\<rparr>"
  let ?s3 = "(start_conf list_channel (Last (Inr end_marker)))\<lparr>received := [Inr ?r]\<rparr> :: (string, (i32 \<times> i32) list list, nat \<times> bool \<times> item list) conf"
  have "step list_channel ?ll 5 ?s0 ?s1"
    using step.compute [of ?s0 "''m''" 0 0 ?c list_channel ?ll 5] by (simp add: start_conf_def sm)
  moreover have "step list_channel ?ll 5 ?s1 ?s2"
    using step.send [of ?s1 "''m''" 0 2 ?c list_channel ?ll]
    by (simp add: start_conf_def channel_capacity_def after_send_def e list_channel_def)
  moreover have "step list_channel ?ll 5 ?s2 ?s3"
    using step.receive [of ?s2 list_channel ?r _ ?ll 5] by (simp add: start_conf_def list_channel_def channel_capacity_def)
  ultimately have "(step list_channel ?ll 5)\<^sup>*\<^sup>* (start_conf list_channel (start_task ?ll (Some ''m'') ''hi'' new_node)) ?s3"
    unfolding t by (meson converse_rtranclp_into_rtranclp rtranclp.rtrancl_refl)
  then have "prefix (received ?s3) (fst (generate ?ll (\<lambda>_. True) (Some ''m'') ''hi'' 5 new_node))"
    by (rule channel_delivers [OF lists.bounded_channel_axioms, THEN conjunct1])
  moreover have "received ?s3 = [Inr ?r]" by simp
  ultimately show ?thesis by metis
qed

text \<open>
  C18: A generation ends: with a limit of \<open>n\<close> tokens there are at most \<open>3 * n + 4\<close> steps of the
  task, the client and the channel, in any order. Once the client has left, the task, which
  notices only when it sends, takes at most three more steps and samples at most one token.
\<close>

theorem channel_ends:
  assumes "bounded_channel ch contents is_open capacity"
    and "(step ch ll n ^^ k) (start_conf ch (start_task ll env prompt s0)) s"
  shows "k \<le> 3 * n + 4 \<and> (\<forall>j s'. \<not> listening s \<longrightarrow> (step ch ll n ^^ j) s s' \<longrightarrow> j \<le> 3)"
  using bounded_channel.channel_bound [OF assms] by blast

theorem channel_ends_witness:
  "\<exists>s. (step list_channel (recording (\<lambda>c. [0]) 2) 5 ^^ 1)
       (start_conf list_channel (start_task (recording (\<lambda>c. [0]) 2) None ''hi'' new_node)) s \<and>
     \<not> listening s \<and> (\<forall>j s'. (step list_channel (recording (\<lambda>c. [0]) 2) 5 ^^ j) s s' \<longrightarrow> j \<le> 3)"
proof -
  let ?ll = "recording (\<lambda>c. [0]) 2"
  let ?s0 = "start_conf list_channel (start_task ?ll None ''hi'' new_node)"
  let ?s1 = "?s0\<lparr>chan := drop_receiver list_channel (chan ?s0), listening := False\<rparr>"
  have "(step list_channel ?ll 5 ^^ 1) ?s0 ?s1"
    using step.leave [of ?s0 list_channel ?ll 5] by (simp only: relpowp_1) (simp add: start_conf_def)
  with channel_ends [OF lists.bounded_channel_axioms this] show ?thesis by (intro exI [of _ ?s1]) simp
qed

end
