(* ===== verification/Node_Lock.thy ===== *)
theory Node_Lock
  imports Node_Model "HOL-Library.Multiset"
begin

text \<open>
  Requests that run at the same time (\<^verbatim>\<open>node-agent/src/inference/model.rs\<close>, \<^verbatim>\<open>forward.rs\<close>):
  the handlers are tasks of one process, and the shard is behind \<^verbatim>\<open>CURRENT_SHARD\<close>'s lock for
  many readers or one writer. \<open>Node_Model\<close> describes each operation as if it ran alone; here
  the operations are cut into the steps between which others may run. Every interleaving is
  explained by one sequential run of the answered requests from a new node, no forward pass
  uses a model that has been replaced or unloaded meanwhile, and the requests do not block
  each other forever. The lock is that of the crate \<^verbatim>\<open>tokio\<close>, a parameter: a record of the
  functions called, with their documented behaviour as the assumptions of the locales
  \<open>rw_lock\<close> (who may hold it) and \<open>fair_rw_lock\<close> (who waits, waits in a first-in, first-out
  queue). No task is cancelled.
\<close>

section \<open>Locks for many readers or one writer\<close>

text \<open>
  \<^verbatim>\<open>read().await\<close> and \<^verbatim>\<open>write().await\<close> are two steps: a task asks for the guard, and gets it at
  once or later; \<^const>\<open>None\<close> is that it has to wait on. The number is the task's.
\<close>

record 'l lock_lib =
  new_lock :: 'l
  ask_read :: "nat \<Rightarrow> 'l \<Rightarrow> 'l"
  ask_write :: "nat \<Rightarrow> 'l \<Rightarrow> 'l"
  get_read :: "nat \<Rightarrow> 'l \<Rightarrow> 'l option"
  get_write :: "nat \<Rightarrow> 'l \<Rightarrow> 'l option"
  end_read :: "'l \<Rightarrow> 'l"
  end_write :: "'l \<Rightarrow> 'l"

text \<open>What a guard excludes. In which order, and whether at all, who waits is served is left open.\<close>

locale rw_lock =
  fixes lk :: "'l lock_lib" and readers writers :: "'l \<Rightarrow> nat"
  assumes new_lock: "readers (new_lock lk) = 0 \<and> writers (new_lock lk) = 0"
    and ask_read: "readers (ask_read lk i l) = readers l \<and> writers (ask_read lk i l) = writers l"
    and ask_write: "readers (ask_write lk i l) = readers l \<and> writers (ask_write lk i l) = writers l"
    and get_read: "get_read lk i l = Some l' \<Longrightarrow> writers l = 0 \<and> readers l' = Suc (readers l) \<and> writers l' = 0"
    and get_write: "get_write lk i l = Some l' \<Longrightarrow> readers l = 0 \<and> writers l = 0 \<and> readers l' = 0 \<and> writers l' = 1"
    and end_read: "readers l \<noteq> 0 \<Longrightarrow> Suc (readers (end_read lk l)) = readers l \<and> writers (end_read lk l) = writers l"
    and end_write: "writers l \<noteq> 0 \<Longrightarrow> readers (end_write lk l) = readers l \<and> Suc (writers (end_write lk l)) = writers l"
begin

definition exclusive :: "'l \<Rightarrow> bool" where
  "exclusive l \<longleftrightarrow> writers l \<le> 1 \<and> (writers l = 1 \<longrightarrow> readers l = 0)"

lemma exclusive_steps:
  "exclusive l \<Longrightarrow> exclusive (ask_read lk i l)"
  "exclusive l \<Longrightarrow> exclusive (ask_write lk i l)"
  "exclusive l \<Longrightarrow> get_read lk i l = Some l' \<Longrightarrow> exclusive l'"
  "exclusive l \<Longrightarrow> get_write lk i l = Some l' \<Longrightarrow> exclusive l'"
  "exclusive l \<Longrightarrow> readers l \<noteq> 0 \<Longrightarrow> exclusive (end_read lk l)"
  "exclusive l \<Longrightarrow> writers l \<noteq> 0 \<Longrightarrow> exclusive (end_write lk l)"
  using ask_read [of i l] ask_write [of i l] get_read [of i l l'] get_write [of i l l'] end_read [of l] end_write [of l]
  by (auto simp: exclusive_def)

lemma reader_excludes: "exclusive l \<Longrightarrow> readers l \<noteq> 0 \<Longrightarrow> writers l = 0"
  by (auto simp: exclusive_def)

end

text \<open>
  The policy that \<^verbatim>\<open>tokio\<close> documents for its lock: those who ask form one first-in, first-out
  queue, and a read guard is not given out before the write requests queued ahead of it have
  been served. \<open>waiting l\<close> is the queue, each task with whether it asks to write: the lock is
  given to the head of the queue alone, as soon as the guards in use allow it.
\<close>

locale fair_rw_lock = rw_lock lk readers writers
  for lk :: "'l lock_lib" and readers writers :: "'l \<Rightarrow> nat" +
  fixes waiting :: "'l \<Rightarrow> (nat \<times> bool) list"
  assumes new_waiting: "waiting (new_lock lk) = []"
    and ask_read_waiting: "waiting (ask_read lk i l) = waiting l @ [(i, False)]"
    and ask_write_waiting: "waiting (ask_write lk i l) = waiting l @ [(i, True)]"
    and get_read_head: "get_read lk i l \<noteq> None \<longleftrightarrow> writers l = 0 \<and> (\<exists>q. waiting l = (i, False) # q)"
    and get_write_head: "get_write lk i l \<noteq> None \<longleftrightarrow> readers l = 0 \<and> writers l = 0 \<and> (\<exists>q. waiting l = (i, True) # q)"
    and get_read_waiting: "get_read lk i l = Some l' \<Longrightarrow> waiting l' = tl (waiting l)"
    and get_write_waiting: "get_write lk i l = Some l' \<Longrightarrow> waiting l' = tl (waiting l)"
    and end_read_waiting: "waiting (end_read lk l) = waiting l"
    and end_write_waiting: "waiting (end_write lk l) = waiting l"
begin

lemma get_read_queue: "get_read lk i l = Some l' \<Longrightarrow> waiting l = (i, False) # waiting l'"
  using get_read_head [of i l] get_read_waiting [of i l l'] by auto

lemma get_write_queue: "get_write lk i l = Some l' \<Longrightarrow> waiting l = (i, True) # waiting l'"
  using get_write_head [of i l] get_write_waiting [of i l l'] by auto

end

text \<open>The contract can be met: the number of readers, whether there is a writer, and the queue.\<close>

type_synonym fifo = "nat \<times> bool \<times> (nat \<times> bool) list"

definition fifo_lock :: "fifo lock_lib" where
  "fifo_lock =
     \<lparr>new_lock = (0, False, []),
      ask_read = (\<lambda>i (r, w, q). (r, w, q @ [(i, False)])),
      ask_write = (\<lambda>i (r, w, q). (r, w, q @ [(i, True)])),
      get_read = (\<lambda>i (r, w, q).
        case q of (j, b) # q' \<Rightarrow> if j = i \<and> \<not> b \<and> \<not> w then Some (Suc r, w, q') else None | [] \<Rightarrow> None),
      get_write = (\<lambda>i (r, w, q).
        case q of (j, b) # q' \<Rightarrow> if j = i \<and> b \<and> \<not> w \<and> r = 0 then Some (r, True, q') else None | [] \<Rightarrow> None),
      end_read = (\<lambda>(r, w, q). (r - 1, w, q)),
      end_write = (\<lambda>(r, w, q). (r, False, q))\<rparr>"

interpretation fifo: fair_rw_lock fifo_lock fst "\<lambda>(r, w, q). of_bool w" "\<lambda>(r, w, q). q"
  by unfold_locales (auto simp: fifo_lock_def split: if_splits list.splits)

section \<open>Operations and their steps\<close>

datatype op = Load u64 shard_config | Unload | Forward u64 forward_request

datatype answer = Loaded "string + load_status" | Unloaded | Answered "string + forward_response"

text \<open>An operation that runs alone.\<close>

fun exec :: "('m, 'c, 'b) llama \<Rightarrow> op \<Rightarrow> 'm node \<Rightarrow> answer \<times> 'm node" where
  "exec ll (Load ms c) s = map_prod Loaded id (load_shard ll ms c s)"
| "exec ll Unload s = (Unloaded, unload_shard s)"
| "exec ll (Forward ms req) s = map_prod Answered id (forward ll ms req s)"

text \<open>
  Where an operation stands: not begun, behind the call of \<^verbatim>\<open>backend\<close>, before the write lock
  with the value to store and the answer, waiting for its guard, holding it, before the read
  lock, waiting for its guard, holding it, holding it with a reference to the model, answered.
\<close>

datatype 'm at =
    Start
  | Ready
  | Storing "'m shard_state option" answer
  | Write_queued "'m shard_state option" answer
  | Writing "'m shard_state option" answer
  | Waiting
  | Read_queued
  | Reading
  | Using 'm
  | Answer answer

definition call_backend :: "('m, 'c, 'b) llama \<Rightarrow> op \<Rightarrow> 'm node \<Rightarrow> 'm at \<times> 'm node" where
  "call_backend ll p s =
     (case p of
        Load ms c \<Rightarrow> (case backend ll s of (Inl e, s) \<Rightarrow> (Answer (Loaded (Inl e)), s) | (Inr _, s) \<Rightarrow> (Ready, s))
      | Unload \<Rightarrow> (Ready, s)
      | Forward ms req \<Rightarrow>
          (case backend ll s of (Inl e, s) \<Rightarrow> (Answer (Answered (Inl e)), s) | (Inr _, s) \<Rightarrow> (Ready, s)))"

text \<open>Up to the lock; loading makes the cell with \<^verbatim>\<open>get_or_init\<close>.\<close>

definition find_cell :: "('m, 'c, 'b) llama \<Rightarrow> op \<Rightarrow> 'm node \<Rightarrow> 'm at \<times> 'm node" where
  "find_cell ll p s =
     (case p of
        Load ms c \<Rightarrow>
          (case load_from_file ll (gguf_path c) of
             Inl e \<Rightarrow> (Answer (Loaded (Inl (''Failed to load model: '' @ e))), s)
           | Inr m \<Rightarrow>
               (Storing
                  (Some \<lparr>shard_model_name = config_model_name c, shard_first_layer = config_first_layer c,
                         shard_num_layers = config_num_layers c, shard_has_lm_head = config_has_lm_head c,
                         model = Some m\<rparr>)
                  (Loaded (Inr \<lparr>loaded = True, memory_used_bytes = 0, layers_loaded = config_num_layers c,
                                load_time_ms = ms, load_error = []\<rparr>)),
                (case current_shard s of None \<Rightarrow> s\<lparr>current_shard := Some None\<rparr> | Some _ \<Rightarrow> s)))
      | Unload \<Rightarrow> (case current_shard s of None \<Rightarrow> (Answer Unloaded, s) | Some _ \<Rightarrow> (Storing None Unloaded, s))
      | Forward ms req \<Rightarrow>
          (case get_loaded_model s of
             None \<Rightarrow> (Answer (Answered (Inl ''No model loaded'')), s)
           | Some _ \<Rightarrow> (Waiting, s)))"

text \<open>Under the read guard.\<close>

definition take_model :: "'m node \<Rightarrow> 'm at" where
  "take_model s =
     (case content_of s of
        None \<Rightarrow> Answer (Answered (Inl ''No shard loaded''))
      | Some sh \<Rightarrow>
          (case model sh of
             None \<Rightarrow> Answer (Answered (Inl ''No model instance''))
           | Some m \<Rightarrow> Using m))"

text \<open>
  The process: the node's cells, the lock, the operations with where they stand, and the
  answers in the order in which they were given.
\<close>

record ('m, 'l) world =
  node :: "'m node"
  lock :: 'l
  tasks :: "(op \<times> 'm at) list"
  history :: "(op \<times> answer) list"

definition new_world :: "'l lock_lib \<Rightarrow> op list \<Rightarrow> ('m, 'l) world" where
  "new_world lk ops = \<lparr>node = new_node, lock = new_lock lk, tasks = map (\<lambda>p. (p, Start)) ops, history = []\<rparr>"

definition move :: "nat \<Rightarrow> op \<Rightarrow> 'm at \<Rightarrow> ('m, 'l) world \<Rightarrow> ('m, 'l) world" where
  "move i p a s =
     s\<lparr>tasks := (tasks s)[i := (p, a)],
       history := (case a of Answer r \<Rightarrow> history s @ [(p, r)] | _ \<Rightarrow> history s)\<rparr>"

text \<open>A step of the \<open>i\<close>-th operation.\<close>

inductive act :: "'l lock_lib \<Rightarrow> ('m, 'c, 'b) llama \<Rightarrow> ('m, 'l) world \<Rightarrow> ('m, 'l) world \<Rightarrow> bool" for lk ll where
  begin_op: "i < length (tasks s) \<Longrightarrow> tasks s ! i = (p, Start) \<Longrightarrow> call_backend ll p (node s) = (a, nd) \<Longrightarrow>
    act lk ll s (move i p a (s\<lparr>node := nd\<rparr>))"
| to_cell: "i < length (tasks s) \<Longrightarrow> tasks s ! i = (p, Ready) \<Longrightarrow> find_cell ll p (node s) = (a, nd) \<Longrightarrow>
    act lk ll s (move i p a (s\<lparr>node := nd\<rparr>))"
| queue_write: "i < length (tasks s) \<Longrightarrow> tasks s ! i = (p, Storing v r) \<Longrightarrow>
    act lk ll s (move i p (Write_queued v r) (s\<lparr>lock := ask_write lk i (lock s)\<rparr>))"
| lock_write: "i < length (tasks s) \<Longrightarrow> tasks s ! i = (p, Write_queued v r) \<Longrightarrow> get_write lk i (lock s) = Some l \<Longrightarrow>
    act lk ll s (move i p (Writing v r) (s\<lparr>lock := l\<rparr>))"
| store: "i < length (tasks s) \<Longrightarrow> tasks s ! i = (p, Writing v r) \<Longrightarrow>
    act lk ll s (move i p (Answer r) (s\<lparr>node := (node s)\<lparr>current_shard := Some v\<rparr>, lock := end_write lk (lock s)\<rparr>))"
| queue_read: "i < length (tasks s) \<Longrightarrow> tasks s ! i = (p, Waiting) \<Longrightarrow>
    act lk ll s (move i p Read_queued (s\<lparr>lock := ask_read lk i (lock s)\<rparr>))"
| lock_read: "i < length (tasks s) \<Longrightarrow> tasks s ! i = (p, Read_queued) \<Longrightarrow> get_read lk i (lock s) = Some l \<Longrightarrow>
    act lk ll s (move i p Reading (s\<lparr>lock := l\<rparr>))"
| refer: "i < length (tasks s) \<Longrightarrow> tasks s ! i = (p, Reading) \<Longrightarrow> take_model (node s) = Using m \<Longrightarrow>
    act lk ll s (move i p (Using m) s)"
| refuse: "i < length (tasks s) \<Longrightarrow> tasks s ! i = (p, Reading) \<Longrightarrow> take_model (node s) = Answer r \<Longrightarrow>
    act lk ll s (move i p (Answer r) (s\<lparr>lock := end_read lk (lock s)\<rparr>))"
| compute: "i < length (tasks s) \<Longrightarrow> tasks s ! i = (Forward ms req, Using m) \<Longrightarrow>
    act lk ll s (move i (Forward ms req) (Answer (Answered (infer ll ms m req))) (s\<lparr>lock := end_read lk (lock s)\<rparr>))"

inductive_cases actE: "act lk ll s s'"

text \<open>The same as a function: the step of the \<open>i\<close>-th operation, if it need not wait, and a schedule.\<close>

definition act_of :: "'l lock_lib \<Rightarrow> ('m, 'c, 'b) llama \<Rightarrow> nat \<Rightarrow> ('m, 'l) world \<Rightarrow> ('m, 'l) world option" where
  "act_of lk ll i s =
     (if i < length (tasks s) then
        case tasks s ! i of
          (p, Start) \<Rightarrow> (case call_backend ll p (node s) of (a, nd) \<Rightarrow> Some (move i p a (s\<lparr>node := nd\<rparr>)))
        | (p, Ready) \<Rightarrow> (case find_cell ll p (node s) of (a, nd) \<Rightarrow> Some (move i p a (s\<lparr>node := nd\<rparr>)))
        | (p, Storing v r) \<Rightarrow> Some (move i p (Write_queued v r) (s\<lparr>lock := ask_write lk i (lock s)\<rparr>))
        | (p, Write_queued v r) \<Rightarrow> map_option (\<lambda>l. move i p (Writing v r) (s\<lparr>lock := l\<rparr>)) (get_write lk i (lock s))
        | (p, Writing v r) \<Rightarrow>
            Some (move i p (Answer r) (s\<lparr>node := (node s)\<lparr>current_shard := Some v\<rparr>, lock := end_write lk (lock s)\<rparr>))
        | (p, Waiting) \<Rightarrow> Some (move i p Read_queued (s\<lparr>lock := ask_read lk i (lock s)\<rparr>))
        | (p, Read_queued) \<Rightarrow> map_option (\<lambda>l. move i p Reading (s\<lparr>lock := l\<rparr>)) (get_read lk i (lock s))
        | (p, Reading) \<Rightarrow>
            (case take_model (node s) of
               Using m \<Rightarrow> Some (move i p (Using m) s)
             | Answer r \<Rightarrow> Some (move i p (Answer r) (s\<lparr>lock := end_read lk (lock s)\<rparr>))
             | _ \<Rightarrow> None)
        | (Forward ms req, Using m) \<Rightarrow>
            Some (move i (Forward ms req) (Answer (Answered (infer ll ms m req))) (s\<lparr>lock := end_read lk (lock s)\<rparr>))
        | _ \<Rightarrow> None
      else None)"

lemma act_of_act: "act_of lk ll i s = Some s' \<Longrightarrow> act lk ll s s'"
  by (auto simp: act_of_def intro: act.intros split: if_splits prod.splits at.splits op.splits)

fun schedule :: "'l lock_lib \<Rightarrow> ('m, 'c, 'b) llama \<Rightarrow> nat list \<Rightarrow> ('m, 'l) world \<Rightarrow> ('m, 'l) world option" where
  "schedule lk ll [] s = Some s"
| "schedule lk ll (i # is) s = Option.bind (act_of lk ll i s) (schedule lk ll is)"

lemma schedule_steps: "schedule lk ll is s = Some s' \<Longrightarrow> (act lk ll ^^ length is) s s'"
proof (induction "is" arbitrary: s)
  case (Cons i "is")
  then obtain s1 where "act_of lk ll i s = Some s1" "schedule lk ll is s1 = Some s'" by (auto simp: bind_eq_Some_conv)
  then show ?case using Cons.IH act_of_act by (metis length_Cons relpowp_Suc_I2)
qed simp

lemmas schedule_acts = relpowp_imp_rtranclp [OF schedule_steps]

section \<open>Sequential runs\<close>

text \<open>
  \<open>run_ops ll ps s\<close>: the operations of \<open>ps\<close> run one after the other, each alone, from \<open>s\<close> on:
  their answers, and the node they leave.
\<close>

fun run_ops :: "('m, 'c, 'b) llama \<Rightarrow> op list \<Rightarrow> 'm node \<Rightarrow> answer list \<times> 'm node" where
  "run_ops ll [] s = ([], s)"
| "run_ops ll (p # ps) s =
     (case exec ll p s of (r, s1) \<Rightarrow> case run_ops ll ps s1 of (rs, s2) \<Rightarrow> (r # rs, s2))"

lemma run_ops_append:
  "run_ops ll (ps @ qs) s =
     (case run_ops ll ps s of (rs, s1) \<Rightarrow> case run_ops ll qs s1 of (rs', s2) \<Rightarrow> (rs @ rs', s2))"
  by (induction ps arbitrary: s) (auto split: prod.split)

lemma run_ops_length: "length (fst (run_ops ll ps s)) = length ps"
  by (induction ps arbitrary: s) (auto split: prod.split, metis fst_conv)

text \<open>
  The answers agree, up to the text of one error: a forward pass that comes between the two
  halves of the first load, after it has made the cell and before it stores the model, finds an
  empty cell instead of none. Both are the error that nothing is loaded.
\<close>

definition same_answer :: "answer \<Rightarrow> answer \<Rightarrow> bool" where
  "same_answer r r' \<longleftrightarrow>
     r' = r \<or> r = Answered (Inl ''No model loaded'') \<and> r' = Answered (Inl ''No shard loaded'')"

text \<open>The node of the sequential run and the node of the process.\<close>

definition alike :: "('m, 'c, 'b) llama \<Rightarrow> 'm node \<Rightarrow> 'm node \<Rightarrow> bool" where
  "alike ll s0 s \<longleftrightarrow> content_of s0 = content_of s \<and> (current_shard s0 \<noteq> None \<longrightarrow> current_shard s \<noteq> None) \<and>
     (backend_ready s0 \<or> backend_ready s \<longrightarrow> backend_init ll = None)"

definition explains :: "('m, 'c, 'b) llama \<Rightarrow> (op \<times> answer) list \<Rightarrow> 'm node \<Rightarrow> bool" where
  "explains ll h s \<longleftrightarrow>
     (\<exists>rs s0. run_ops ll (map fst h) new_node = (rs, s0) \<and> list_all2 same_answer rs (map snd h) \<and> alike ll s0 s)"

text \<open>The model of the last successful load since the last unload, from the answers alone.\<close>

fun note_answer :: "('m, 'c, 'b) llama \<Rightarrow> op \<times> answer \<Rightarrow> 'm option \<Rightarrow> 'm option" where
  "note_answer ll (Load ms c, Loaded (Inr st)) cur =
     (case load_from_file ll (gguf_path c) of Inl e \<Rightarrow> cur | Inr m \<Rightarrow> Some m)"
| "note_answer ll (Unload, r) cur = None"
| "note_answer ll _ cur = cur"

definition loaded_after :: "('m, 'c, 'b) llama \<Rightarrow> (op \<times> answer) list \<Rightarrow> 'm option" where
  "loaded_after ll es = fold (note_answer ll) es None"

lemma loaded_after_simps [simp]:
  "loaded_after ll [] = None" "loaded_after ll (es @ [e]) = note_answer ll e (loaded_after ll es)"
  by (simp_all add: loaded_after_def)

definition model_of :: "'m shard_state option \<Rightarrow> 'm option" where
  "model_of c = Option.bind c model"

lemma backend_cases:
  obtains e where "backend ll s = (Inl (''Backend init: '' @ e), s)" "backend_init ll = Some e" "\<not> backend_ready s"
  | "backend ll s = (Inr (), s\<lparr>backend_ready := True\<rparr>)" "backend_ready s \<or> backend_init ll = None"
  by (cases "backend_ready s"; cases "backend_init ll") (auto simp: backend_def)

lemma exec_load:
  assumes "exec ll (Load ms c) s = (r, s')"
  shows "(\<exists>e. r = Loaded (Inl e) \<and> content_of s' = content_of s) \<or>
    (\<exists>st m. r = Loaded (Inr st) \<and> load_from_file ll (gguf_path c) = Inr m \<and> model_of (content_of s') = Some m)"
  using assms
  by - (rule backend_cases [of ll s];
    auto simp: load_shard_def load_shard_model_def content_of_def model_of_def split: sum.splits option.splits)

lemma exec_forward:
  assumes "exec ll (Forward ms req) s = (r, s')" and "backend_ready s \<longrightarrow> backend_init ll = None"
  shows "content_of s' = content_of s \<and> (\<exists>a. r = Answered a \<and>
    (backend_init ll = None \<longrightarrow> (case model_of (content_of s) of Some m \<Rightarrow> a = infer ll ms m req | None \<Rightarrow> isl a)) \<and>
    (backend_init ll \<noteq> None \<longrightarrow> isl a))"
  using assms
  by - (rule backend_cases [of ll s];
    auto simp: forward_def run_forward_pass_def get_loaded_model_def content_of_def model_of_def split: option.splits)

lemma exec_ready: "exec ll p s = (r, s') \<Longrightarrow> backend_ready s \<longrightarrow> backend_init ll = None \<Longrightarrow>
    backend_ready s' \<longrightarrow> backend_init ll = None"
  by (rule backend_cases [of ll s]; cases p)
    (auto simp: load_shard_def load_shard_model_def unload_shard_def unload_current_shard_def forward_def
      run_forward_pass_def split: sum.splits option.splits)

lemma exec_init_fails:
  "exec ll p s = (r, s') \<Longrightarrow> backend_init ll \<noteq> None \<Longrightarrow> \<not> backend_ready s \<Longrightarrow> content_of s = None \<Longrightarrow> content_of s' = None"
  by (rule backend_cases [of ll s]; cases p)
    (auto simp: load_shard_def load_shard_model_def unload_shard_def unload_current_shard_def forward_def
      run_forward_pass_def content_of_def split: option.splits)

text \<open>Running one more operation on both nodes keeps them alike.\<close>

lemma exec_alike:
  assumes "alike ll s0 s" and "exec ll p s = (r, s')"
  shows "\<exists>r0 s0'. exec ll p s0 = (r0, s0') \<and> same_answer r0 r \<and> alike ll s0' s'"
proof (cases p)
  case (Load ms c)
  with assms show ?thesis
    by - (rule backend_cases [of ll s0]; rule backend_cases [of ll s];
      auto simp: alike_def same_answer_def load_shard_def load_shard_model_def content_of_def split: sum.splits)
next
  case Unload
  with assms show ?thesis
    by (cases "current_shard s0"; cases "current_shard s")
      (auto simp: alike_def same_answer_def unload_shard_def unload_current_shard_def content_of_def split: option.splits)
next
  case (Forward ms req)
  with assms show ?thesis
    by - (rule backend_cases [of ll s0]; rule backend_cases [of ll s]; cases "current_shard s0"; cases "current_shard s";
      auto simp: alike_def same_answer_def forward_def run_forward_pass_def get_loaded_model_def content_of_def
        split: option.splits)
qed

lemma explains_more:
  assumes "explains ll h s" and "exec ll p s = (r, s')"
  shows "explains ll (h @ [(p, r)]) s'"
proof -
  obtain rs s0 where h: "run_ops ll (map fst h) new_node = (rs, s0)" "list_all2 same_answer rs (map snd h)" "alike ll s0 s"
    using assms(1) by (auto simp: explains_def)
  obtain r0 s0' where "exec ll p s0 = (r0, s0')" "same_answer r0 r" "alike ll s0' s'"
    using exec_alike [OF h(3) assms(2)] by blast
  with h show ?thesis by (auto simp: explains_def run_ops_append intro!: list_all2_appendI)
qed

lemma alike_trans: "alike ll s0 s \<Longrightarrow> content_of s' = content_of s \<Longrightarrow>
    (current_shard s \<noteq> None \<longrightarrow> current_shard s' \<noteq> None) \<Longrightarrow> (backend_ready s' \<longrightarrow> backend_init ll = None) \<Longrightarrow> alike ll s0 s'"
  by (auto simp: alike_def)

lemma explains_run: "explains ll h s \<Longrightarrow> \<exists>rs nd. run_ops ll (map fst h) new_node = (rs, nd) \<and>
    list_all2 same_answer rs (map snd h) \<and> content_of nd = content_of s"
  by (auto simp: explains_def alike_def)

text \<open>What the sequential run has loaded, and what its forward passes answer.\<close>

lemma same_answer_loaded [simp]: "same_answer (Loaded a) r \<longleftrightarrow> r = Loaded a" "same_answer r (Loaded a) \<longleftrightarrow> r = Loaded a"
  by (auto simp: same_answer_def)

lemma run_ops_loaded:
  "run_ops ll (map fst es) new_node = (rs, s0) \<Longrightarrow> list_all2 same_answer rs (map snd es) \<Longrightarrow>
     model_of (content_of s0) = loaded_after ll es \<and> (backend_ready s0 \<longrightarrow> backend_init ll = None) \<and>
     (backend_init ll \<noteq> None \<longrightarrow> content_of s0 = None)"
proof (induction es arbitrary: rs s0 rule: rev_induct)
  case (snoc e es)
  obtain p r where e: "e = (p, r)" by (cases e)
  obtain rs1 s1 where s1: "run_ops ll (map fst es) new_node = (rs1, s1)" by fastforce
  obtain r0 s2 where r0: "exec ll p s1 = (r0, s2)" by fastforce
  have eq: "rs = rs1 @ [r0]" "s0 = s2" using snoc.prems(1) by (auto simp: run_ops_append s1 r0 e)
  with snoc.prems(2) have same: "list_all2 same_answer rs1 (map snd es)" "same_answer r0 r"
    by (auto simp: e list_all2_append1 list_all2_Cons1 append_eq_append_conv2 append_eq_Cons_conv)
  note IH = snoc.IH [OF s1 same(1)]
  have ready: "backend_ready s2 \<longrightarrow> backend_init ll = None" using exec_ready [OF r0] IH by blast
  have none: "backend_init ll \<noteq> None \<longrightarrow> content_of s2 = None" using exec_init_fails [OF r0] IH by auto
  have "model_of (content_of s2) = note_answer ll (p, r) (loaded_after ll es)"
  proof (cases p)
    case (Load ms c)
    with exec_load [of ll ms c s1 r0 s2] r0 same(2) IH show ?thesis by auto
  next
    case Unload
    then have "content_of s2 = None"
      using r0 by (auto simp: unload_shard_def unload_current_shard_def content_of_def split: option.splits)
    then show ?thesis by (simp add: Unload model_of_def)
  next
    case (Forward ms req)
    with exec_forward [of ll ms req s1 r0 s2] r0 IH show ?thesis by auto
  qed
  then show ?case using ready none by (simp add: e eq)
qed (simp add: model_of_def content_of_def new_node_def)

lemma try_map_Inl: "try_map f x k = Inl e \<longleftrightarrow> (\<exists>d. x = Inl d \<and> e = f d) \<or> (\<exists>z. x = Inr z \<and> k z = Inl e)"
  by (cases x) auto

lemma infer_error: "infer ll ms m req \<noteq> Inl ''No model loaded''"
  by (auto simp: infer_def try_map_Inl)

lemma explained_forward:
  assumes "explains ll (es @ (Forward ms req, Answered a) # fs) s"
  shows "case loaded_after ll es of Some m \<Rightarrow> a = infer ll ms m req | None \<Rightarrow> isl a"
proof -
  obtain rs1 s1 where s1: "run_ops ll (map fst es) new_node = (rs1, s1)" by fastforce
  obtain r0 s2 where r0: "exec ll (Forward ms req) s1 = (r0, s2)" by fastforce
  have same: "list_all2 same_answer rs1 (map snd es)" "same_answer r0 (Answered a)"
  proof -
    obtain rs2 where "list_all2 same_answer (rs1 @ r0 # rs2) (map snd es @ Answered a # map snd fs)"
      using assms by (auto simp: explains_def run_ops_append s1 r0 split: prod.splits simp del: exec.simps)
    moreover have "length rs1 = length (map snd es)"
      using run_ops_length [of ll "map fst es" new_node] s1 by simp
    ultimately show "list_all2 same_answer rs1 (map snd es)" "same_answer r0 (Answered a)"
      by (auto simp: list_all2_append)
  qed
  note l = run_ops_loaded [OF s1 same(1)]
  with exec_forward [OF r0] obtain a' where a': "r0 = Answered a'"
    "backend_init ll = None \<longrightarrow> (case loaded_after ll es of Some m \<Rightarrow> a' = infer ll ms m req | None \<Rightarrow> isl a')"
    "backend_init ll \<noteq> None \<longrightarrow> isl a'" by auto
  have "backend_init ll \<noteq> None \<Longrightarrow> loaded_after ll es = None" using l by (auto simp: model_of_def)
  with a' same(2) infer_error [of ll ms _ req] show ?thesis
    by (cases "backend_init ll") (auto simp: same_answer_def split: option.splits)
qed

section \<open>Invariant\<close>

fun holds_read :: "op \<times> 'm at \<Rightarrow> bool" where
  "holds_read (p, Reading) = True"
| "holds_read (p, Using m) = True"
| "holds_read _ = False"

fun holds_write :: "op \<times> 'm at \<Rightarrow> bool" where
  "holds_write (p, Writing v r) = True"
| "holds_write _ = False"

fun answered :: "op \<times> 'm at \<Rightarrow> bool" where
  "answered (p, Answer r) = True"
| "answered _ = False"

text \<open>Waiting for the guard to read (\<^const>\<open>False\<close>) or to write (\<^const>\<open>True\<close>).\<close>

fun queued :: "bool \<Rightarrow> op \<times> 'm at \<Rightarrow> bool" where
  "queued b (p, Read_queued) = (\<not> b)"
| "queued b (p, Write_queued v r) = b"
| "queued b _ = False"

text \<open>The requests that have been answered, with the answers.\<close>

definition answers :: "(op \<times> 'm at) list \<Rightarrow> (op \<times> answer) list" where
  "answers ts = concat (map (\<lambda>(p, a). case a of Answer r \<Rightarrow> [(p, r)] | _ \<Rightarrow> []) ts)"

definition count :: "(op \<times> 'm at \<Rightarrow> bool) \<Rightarrow> (op \<times> 'm at) list \<Rightarrow> nat" where
  "count P ts = length (filter P ts)"

text \<open>What is known of the node where an operation stands.\<close>

fun will_store :: "('m, 'c, 'b) llama \<Rightarrow> 'm node \<Rightarrow> op \<Rightarrow> 'm shard_state option \<Rightarrow> answer \<Rightarrow> bool" where
  "will_store ll nd (Load ms c) v r \<longleftrightarrow> backend_ready nd \<and> current_shard nd \<noteq> None \<and>
     fst (find_cell ll (Load ms c) nd) = Storing v r"
| "will_store ll nd Unload v r \<longleftrightarrow> current_shard nd \<noteq> None \<and> v = None \<and> r = Unloaded"
| "will_store ll nd (Forward ms req) v r \<longleftrightarrow> False"

fun placed :: "('m, 'c, 'b) llama \<Rightarrow> 'm node \<Rightarrow> op \<times> 'm at \<Rightarrow> bool" where
  "placed ll nd (p, Start) \<longleftrightarrow> True"
| "placed ll nd (p, Ready) \<longleftrightarrow> p = Unload \<or> backend_ready nd"
| "placed ll nd (p, Storing v r) \<longleftrightarrow> will_store ll nd p v r"
| "placed ll nd (p, Write_queued v r) \<longleftrightarrow> will_store ll nd p v r"
| "placed ll nd (p, Writing v r) \<longleftrightarrow> will_store ll nd p v r"
| "placed ll nd (p, Waiting) \<longleftrightarrow> (\<exists>ms req. p = Forward ms req) \<and> backend_ready nd \<and> current_shard nd \<noteq> None"
| "placed ll nd (p, Read_queued) \<longleftrightarrow> (\<exists>ms req. p = Forward ms req) \<and> backend_ready nd \<and> current_shard nd \<noteq> None"
| "placed ll nd (p, Reading) \<longleftrightarrow> (\<exists>ms req. p = Forward ms req) \<and> backend_ready nd \<and> current_shard nd \<noteq> None"
| "placed ll nd (p, Using m) \<longleftrightarrow> (\<exists>ms req. p = Forward ms req) \<and> backend_ready nd \<and>
     (\<exists>sh. content_of nd = Some sh \<and> model sh = Some m)"
| "placed ll nd (p, Answer r) \<longleftrightarrow> True"

lemma count_update:
  "i < length ts \<Longrightarrow> count P (ts[i := x]) + of_bool (P (ts ! i)) = count P ts + of_bool (P x)"
proof (induction ts arbitrary: i)
  case (Cons t ts)
  then show ?case by (cases i) (auto simp: count_def)
qed simp

lemma answers_update:
  "i < length ts \<Longrightarrow> \<not> answered (ts ! i) \<Longrightarrow> mset (answers (ts[i := x])) = mset (answers ts @ answers [x])"
proof (induction ts arbitrary: i)
  case (Cons t ts)
  then show ?case
    by (cases i; cases t rule: answered.cases) (auto simp: answers_def split: at.split)
qed simp

lemma count_pos: "x \<in> set ts \<Longrightarrow> P x \<Longrightarrow> 0 < count P ts"
  by (auto simp: count_def filter_empty_conv)

text \<open>What others know of the node outlives its changes.\<close>

definition grows :: "'m node \<Rightarrow> 'm node \<Rightarrow> bool" where
  "grows nd nd' \<longleftrightarrow> (backend_ready nd \<longrightarrow> backend_ready nd') \<and> (current_shard nd \<noteq> None \<longrightarrow> current_shard nd' \<noteq> None)"

lemma storing_iff:
  "fst (find_cell ll (Load ms c) nd) = Storing v r \<longleftrightarrow> fst (find_cell ll (Load ms c) nd') = Storing v r"
  by (simp add: find_cell_def split: sum.split)

lemma will_store_grows: "will_store ll nd p v r \<Longrightarrow> grows nd nd' \<Longrightarrow> will_store ll nd' p v r"
  by (cases p) (auto simp: grows_def storing_iff [of ll _ _ nd' v r nd])

lemma placed_grows:
  assumes "placed ll nd x" and "grows nd nd'" and "holds_read x \<Longrightarrow> content_of nd' = content_of nd"
  shows "placed ll nd' x"
proof (cases x)
  case (Pair p a)
  with assms show ?thesis by (cases a) (auto simp: will_store_grows, auto simp: grows_def)
qed

section \<open>Every step keeps the invariant\<close>

lemma content_ready [simp]: "content_of (s\<lparr>backend_ready := b\<rparr>) = content_of s"
  by (simp add: content_of_def)

lemma call_backend_ok:
  assumes "call_backend ll p s = (a, s')" and "backend_ready s \<longrightarrow> backend_init ll = None"
  shows "placed ll s' (p, a) \<and> grows s s' \<and> (backend_ready s' \<longrightarrow> backend_init ll = None) \<and>
    content_of s' = content_of s \<and> (a = Ready \<or> (\<exists>r. a = Answer r \<and> exec ll p s = (r, s')))"
  using assms
  by - (rule backend_cases [of ll s]; cases p,
    auto simp: call_backend_def grows_def load_shard_def load_shard_model_def forward_def run_forward_pass_def)

lemma find_cell_ok:
  assumes "find_cell ll p s = (a, s')" and "placed ll s (p, Ready)"
  shows "placed ll s' (p, a) \<and> grows s s' \<and> backend_ready s' = backend_ready s \<and> content_of s' = content_of s \<and>
    (a = Waiting \<or> (\<exists>v r. a = Storing v r) \<or> (\<exists>r. a = Answer r \<and> exec ll p s = (r, s')))"
proof (cases p)
  case (Load ms c)
  with assms show ?thesis
    by (cases "current_shard s")
      (auto simp: find_cell_def grows_def content_of_def load_shard_def load_shard_model_def backend_def split: sum.splits)
next
  case Unload
  with assms show ?thesis
    by (cases "current_shard s")
      (auto simp: find_cell_def grows_def unload_shard_def unload_current_shard_def)
next
  case (Forward ms req)
  with assms show ?thesis
    by (cases "current_shard s")
      (auto simp: find_cell_def grows_def get_loaded_model_def forward_def run_forward_pass_def backend_def)
qed

lemma store_ok:
  assumes "will_store ll s p v r"
  shows "exec ll p s = (r, s\<lparr>current_shard := Some v\<rparr>)"
proof (cases p)
  case (Load ms c)
  with assms show ?thesis
    by (auto simp: find_cell_def load_shard_def load_shard_model_def backend_def split: sum.splits)
next
  case Unload
  with assms show ?thesis by (auto simp: unload_shard_def unload_current_shard_def)
qed (use assms in auto)

lemma take_model_ok:
  assumes "placed ll s (p, Reading)"
  shows "(\<exists>m. take_model s = Using m \<and> placed ll s (p, Using m)) \<or> (\<exists>r. take_model s = Answer r \<and> exec ll p s = (r, s))"
  using assms
  by (auto simp: take_model_def content_of_def forward_def run_forward_pass_def backend_def get_loaded_model_def
      split: option.split option.splits)

lemma compute_ok:
  assumes "placed ll s (Forward ms req, Using m)"
  shows "exec ll (Forward ms req) s = (Answered (infer ll ms m req), s)"
  using assms
  by (auto simp: content_of_def forward_def run_forward_pass_def backend_def get_loaded_model_def split: option.splits)

fun steps_to_answer :: "op \<times> 'm at \<Rightarrow> nat" where
  "steps_to_answer (p, Start) = 6"
| "steps_to_answer (p, Ready) = 5"
| "steps_to_answer (p, Storing v r) = 4"
| "steps_to_answer (p, Write_queued v r) = 3"
| "steps_to_answer (p, Writing v r) = 2"
| "steps_to_answer (p, Waiting) = 4"
| "steps_to_answer (p, Read_queued) = 3"
| "steps_to_answer (p, Reading) = 2"
| "steps_to_answer (p, Using m) = 1"
| "steps_to_answer (p, Answer r) = 0"

definition left_to_do :: "('m, 'l) world \<Rightarrow> nat" where
  "left_to_do s = sum_list (map steps_to_answer (tasks s))"

lemma left_move:
  fixes s :: "('m, 'l) world"
  assumes "i < length (tasks s)" and "steps_to_answer (p, a) < steps_to_answer (tasks s ! i)"
  shows "left_to_do (move i p a (s\<lparr>node := nd, lock := l\<rparr>)) < left_to_do s"
proof -
  have "sum_list (map steps_to_answer (ts[i := (p, a)])) < sum_list (map steps_to_answer ts)"
    if "i < length ts" "steps_to_answer (p, a) < steps_to_answer (ts ! i)" for ts :: "(op \<times> 'm at) list"
    using that
  proof (induction ts arbitrary: i)
    case (Cons t ts)
    then show ?case by (cases i) auto
  qed simp
  with assms show ?thesis by (simp add: left_to_do_def move_def)
qed

context rw_lock
begin

definition world_inv :: "('m, 'c, 'b) llama \<Rightarrow> ('m, 'l) world \<Rightarrow> bool" where
  "world_inv ll s \<longleftrightarrow>
     (\<forall>x \<in> set (tasks s). placed ll (node s) x) \<and>
     readers (lock s) = count holds_read (tasks s) \<and> writers (lock s) = count holds_write (tasks s) \<and>
     exclusive (lock s) \<and> (backend_ready (node s) \<longrightarrow> backend_init ll = None) \<and>
     explains ll (history s) (node s) \<and> mset (history s) = mset (answers (tasks s))"

lemma inv_move:
  assumes inv: "world_inv ll s" and i: "i < length (tasks s)" "tasks s ! i = (p, a0)" "\<not> answered (p, a0)"
    and l: "readers l + of_bool (holds_read (p, a0)) = readers (lock s) + of_bool (holds_read (p, a))"
      "writers l + of_bool (holds_write (p, a0)) = writers (lock s) + of_bool (holds_write (p, a))"
      "exclusive l"
    and nd: "placed ll nd (p, a)" "grows (node s) nd" "backend_ready nd \<longrightarrow> backend_init ll = None"
      "readers (lock s) = 0 \<or> content_of nd = content_of (node s)"
    and hist: "\<And>r. a = Answer r \<Longrightarrow> exec ll p (node s) = (r, nd)"
      "(\<And>r. a \<noteq> Answer r) \<Longrightarrow> content_of nd = content_of (node s)"
  shows "world_inv ll (move i p a (s\<lparr>node := nd, lock := l\<rparr>))"
proof -
  let ?ts = "(tasks s)[i := (p, a)]"
  have cnt: "count P ?ts + of_bool (P (p, a0)) = count P (tasks s) + of_bool (P (p, a))" for P
    using count_update [OF i(1), of P "(p, a)"] i(2) by simp
  have "placed ll nd x" if "x \<in> set (tasks s)" for x
  proof (rule placed_grows [OF _ nd(2)])
    show "placed ll (node s) x" using inv that by (simp add: world_inv_def)
    show "content_of nd = content_of (node s)" if "holds_read x"
      using count_pos [of x "tasks s" holds_read] that \<open>x \<in> set (tasks s)\<close> nd(4) inv by (auto simp: world_inv_def)
  qed
  then have "\<forall>x \<in> set ?ts. placed ll nd x" using nd(1) set_update_subset_insert [of "tasks s" i "(p, a)"] by auto
  moreover have "readers l = count holds_read ?ts" "writers l = count holds_write ?ts"
    using l(1,2) cnt [of holds_read] cnt [of holds_write] inv unfolding world_inv_def by linarith+
  moreover define h where "h = (case a of Answer r \<Rightarrow> history s @ [(p, r)] | _ \<Rightarrow> history s)"
  moreover have "explains ll h nd"
  proof (cases "\<exists>r. a = Answer r")
    case True
    then obtain r where r: "a = Answer r" "exec ll p (node s) = (r, nd)" using hist(1) by blast
    then show ?thesis using explains_more [of ll "history s" "node s" p r nd] inv by (simp add: h_def world_inv_def)
  next
    case False
    then have h: "h = history s" "content_of nd = content_of (node s)" using hist(2) by (auto simp: h_def split: at.split)
    obtain rs s0 where "run_ops ll (map fst h) new_node = (rs, s0)" "list_all2 same_answer rs (map snd h)" "alike ll s0 (node s)"
      using inv h(1) by (auto simp: world_inv_def explains_def)
    moreover from this(3) have "alike ll s0 nd"
      using alike_trans [of ll s0 "node s" nd] h(2) nd(2,3) by (simp add: grows_def)
    ultimately show ?thesis by (auto simp: explains_def)
  qed
  moreover have "mset h = mset (answers ?ts)"
    using answers_update [of i "tasks s" "(p, a)"] i inv by (cases a) (auto simp: h_def world_inv_def answers_def)
  ultimately show ?thesis using l(3) nd(3) by (simp add: world_inv_def move_def cong: at.case_cong)
qed

lemma inv_step:
  assumes "act lk ll s s'" and inv: "world_inv ll s"
  shows "world_inv ll s'"
proof -
  have at: "placed ll (node s) (p, a)" if "i < length (tasks s)" "tasks s ! i = (p, a)" for i p a
    using inv that nth_mem [of i "tasks s"] by (auto simp: world_inv_def)
  have locks: "readers (lock s) = count holds_read (tasks s)" "writers (lock s) = count holds_write (tasks s)"
    "exclusive (lock s)" "backend_ready (node s) \<longrightarrow> backend_init ll = None"
    using inv by (auto simp: world_inv_def)
  have held: "0 < readers (lock s)" if "i < length (tasks s)" "tasks s ! i = (p, a)" "holds_read (p, a)" for i p a
    using count_pos [of "(p, a)" "tasks s" holds_read] that locks(1) nth_mem [of i "tasks s"] by auto
  have heldw: "writers (lock s) \<noteq> 0" if "i < length (tasks s)" "tasks s ! i = (p, a)" "holds_write (p, a)" for i p a
    using count_pos [of "(p, a)" "tasks s" holds_write] that locks(2) nth_mem [of i "tasks s"] by (cases "writers (lock s) \<noteq> 0") auto
  have same: "s\<lparr>node := nd\<rparr> = s\<lparr>node := nd, lock := lock s\<rparr>" "s\<lparr>lock := l\<rparr> = s\<lparr>node := node s, lock := l\<rparr>"
    "s = s\<lparr>node := node s, lock := lock s\<rparr>" for nd l by simp_all
  note excl = exclusive_steps [OF locks(3)]
  show ?thesis
    using assms(1)
  proof cases
    case (begin_op i p a nd)
    note ok = call_backend_ok [OF begin_op(4) locks(4)]
    show ?thesis unfolding begin_op(1)
      by (subst same(1), rule inv_move [OF inv begin_op(2,3)]) (use ok locks in \<open>auto\<close>)
  next
    case (to_cell i p a nd)
    note ok = find_cell_ok [OF to_cell(4) at [OF to_cell(2,3)]]
    show ?thesis unfolding to_cell(1)
      by (subst same(1), rule inv_move [OF inv to_cell(2,3)]) (use ok locks in \<open>auto\<close>)
  next
    case (queue_write i p v r)
    show ?thesis unfolding queue_write(1)
      by (subst same(2), rule inv_move [OF inv queue_write(2,3)])
        (use at [OF queue_write(2,3)] ask_write [of i "lock s"] excl(2) locks(4) in \<open>auto simp: grows_def\<close>)
  next
    case (lock_write i p v r l)
    show ?thesis unfolding lock_write(1)
      by (subst same(2), rule inv_move [OF inv lock_write(2,3)])
        (use at [OF lock_write(2,3)] get_write [OF lock_write(4)] excl(4) [OF lock_write(4)] locks(4)
          in \<open>auto simp: grows_def\<close>)
  next
    case (store i p v r)
    have w: "writers (lock s) \<noteq> 0" "readers (lock s) = 0"
      using heldw [OF store(2,3)] locks(3) by (auto simp: exclusive_def)
    show ?thesis unfolding store(1)
      by (rule inv_move [OF inv store(2,3)])
        (use at [OF store(2,3)] store_ok [of ll "node s" p v r] w excl(6) locks(4) end_write [of "lock s"] in
          \<open>auto simp: grows_def\<close>)
  next
    case (queue_read i p)
    show ?thesis unfolding queue_read(1)
      by (subst same(2), rule inv_move [OF inv queue_read(2,3)])
        (use at [OF queue_read(2,3)] ask_read [of i "lock s"] excl(1) locks(4) in \<open>auto simp: grows_def\<close>)
  next
    case (lock_read i p l)
    show ?thesis unfolding lock_read(1)
      by (subst same(2), rule inv_move [OF inv lock_read(2,3)])
        (use at [OF lock_read(2,3)] get_read [OF lock_read(4)] excl(3) [OF lock_read(4)] locks(4)
          in \<open>auto simp: grows_def\<close>)
  next
    case (refer i p m)
    show ?thesis unfolding refer(1)
      by (subst same(3), rule inv_move [OF inv refer(2,3)])
        (use at [OF refer(2,3)] take_model_ok [OF at [OF refer(2,3)]] refer(4) locks in \<open>auto simp: grows_def\<close>)
  next
    case (refuse i p r)
    note r = held [OF refuse(2,3)]
    show ?thesis unfolding refuse(1)
      by (subst same(2), rule inv_move [OF inv refuse(2,3)])
        (use at [OF refuse(2,3)] take_model_ok [OF at [OF refuse(2,3)]] refuse(4) r excl(5) locks(4) end_read [of "lock s"]
          in \<open>auto simp: grows_def\<close>)
  next
    case (compute i ms req m)
    note r = held [OF compute(2,3)]
    show ?thesis unfolding compute(1)
      by (subst same(2), rule inv_move [OF inv compute(2,3)])
        (use compute_ok [OF at [OF compute(2,3)]] r excl(5) locks(4) end_read [of "lock s"]
          in \<open>auto simp: grows_def\<close>)
  qed
qed

lemma inv_new: "world_inv ll (new_world lk ops :: ('m, 'l) world)"
proof -
  have "count P (map (\<lambda>p. (p, Start)) ops) = 0" if "\<And>p. \<not> P (p, Start)" for P :: "op \<times> 'm at \<Rightarrow> bool"
    using that by (auto simp: count_def filter_empty_conv)
  then show ?thesis
    using new_lock by (auto simp: world_inv_def new_world_def new_node_def content_of_def exclusive_def
        explains_def alike_def answers_def o_def)
qed

lemma inv_run: "(act lk ll)\<^sup>*\<^sup>* s s' \<Longrightarrow> world_inv ll s \<Longrightarrow> world_inv ll s'"
  by (induction rule: rtranclp_induct) (auto intro: inv_step)

lemmas reachable_inv = inv_run [OF _ inv_new]

lemma act_decreases: "act lk ll s s' \<Longrightarrow> left_to_do s' < left_to_do s"
proof (induction rule: act.induct)
  case (begin_op i s p a nd)
  then have "steps_to_answer (p, a) < 6"
    by (cases p) (auto simp: call_backend_def split: prod.splits sum.splits)
  then show ?case using left_move [where nd = nd and l = "lock s", of i s p a] begin_op by simp
next
  case (to_cell i s p a nd)
  then have "steps_to_answer (p, a) < 5"
    by (cases p) (auto simp: find_cell_def split: sum.splits option.splits)
  then show ?case using left_move [where nd = nd and l = "lock s", of i s p a] to_cell by simp
next
  case (queue_write i s p v r)
  then show ?case using left_move [where nd = "node s" and l = "ask_write lk i (lock s)", of i s p "Write_queued v r"] by simp
next
  case (queue_read i s p)
  then show ?case using left_move [where nd = "node s" and l = "ask_read lk i (lock s)", of i s p Read_queued] by simp
next
  case (lock_write i s p v r l)
  then show ?case using left_move [where nd = "node s" and l = l, of i s p "Writing v r"] by simp
next
  case (store i s p v r)
  then show ?case using left_move [where nd = "(node s)\<lparr>current_shard := Some v\<rparr>" and l = "end_write lk (lock s)", of i s p "Answer r"] by simp
next
  case (lock_read i s p l)
  then show ?case using left_move [where nd = "node s" and l = l, of i s p Reading] by simp
next
  case (refer i s p m)
  then show ?case using left_move [where nd = "node s" and l = "lock s", of i s p "Using m"] by simp
next
  case (refuse i s p r)
  then show ?case using left_move [where nd = "node s" and l = "end_read lk (lock s)", of i s p "Answer r"] by simp
next
  case (compute i s ms req m)
  then show ?case using left_move [where nd = "node s" and l = "end_read lk (lock s)", of i s "Forward ms req" "Answer (Answered (infer ll ms m req))"] by simp
qed

lemma acts_bounded: "(act lk ll ^^ k) s s' \<Longrightarrow> left_to_do s' + k \<le> left_to_do s"
proof (induction k arbitrary: s')
  case (Suc k)
  then obtain s1 where "(act lk ll ^^ k) s s1" "act lk ll s1 s'" by auto
  with Suc.IH [of s1] act_decreases [of ll s1 s'] show ?case by simp
qed simp

lemma use_stays:
  assumes "(act lk ll)\<^sup>*\<^sup>* (new_world lk ops) s" and "i < length (tasks s)" and "tasks s ! i = (p, Using m)"
  shows "(\<exists>sh. content_of (node s) = Some sh \<and> model sh = Some m) \<and>
    (\<forall>q v r. (q, Writing v r) \<notin> set (tasks s)) \<and>
    (\<forall>s'. act lk ll s s' \<longrightarrow> content_of (node s') = content_of (node s))"
proof -
  note inv = reachable_inv [OF assms(1)]
  have mem: "(p, Using m) \<in> set (tasks s)" using assms(2,3) nth_mem by metis
  then have "readers (lock s) \<noteq> 0" using inv count_pos [of _ "tasks s" holds_read] by (fastforce simp: world_inv_def)
  then have "writers (lock s) = 0" using inv reader_excludes [of "lock s"] by (auto simp: world_inv_def)
  then have w: "(q, Writing v r) \<notin> set (tasks s)" for q v r
    using inv count_pos [of _ "tasks s" holds_write] by (fastforce simp: world_inv_def)
  have "content_of (node s') = content_of (node s)" if "act lk ll s s'" for s'
    using that
  proof cases
    case (begin_op i p a nd)
    then show ?thesis using call_backend_ok [of ll p "node s" a nd] inv by (simp add: move_def world_inv_def)
  next
    case (to_cell i p a nd)
    then have "placed ll (node s) (p, Ready)" using inv nth_mem [of i "tasks s"] by (auto simp: world_inv_def)
    with to_cell show ?thesis using find_cell_ok [of ll p "node s" a nd] by (simp add: move_def)
  next
    case (store i p v r)
    then show ?thesis using w [of p v r] nth_mem [of i "tasks s"] by simp
  qed (simp_all add: move_def)
  moreover have "placed ll (node s) (p, Using m)" using inv mem by (auto simp: world_inv_def)
  ultimately show ?thesis using w by auto
qed

lemma linearizable:
  assumes "(act lk ll)\<^sup>*\<^sup>* (new_world lk ops) s"
  shows "explains ll (history s) (node s) \<and> mset (history s) = mset (answers (tasks s))"
  using reachable_inv [OF assms] by (simp add: world_inv_def)

end

section \<open>No deadlock\<close>

context fair_rw_lock
begin

text \<open>The queue consists of the tasks that wait for a guard.\<close>

definition queue_inv :: "('m, 'l) world \<Rightarrow> bool" where
  "queue_inv s \<longleftrightarrow> distinct (waiting (lock s)) \<and>
     (\<forall>i b. (i, b) \<in> set (waiting (lock s)) \<longleftrightarrow> i < length (tasks s) \<and> queued b (tasks s ! i))"

lemma queue_move:
  assumes inv: "queue_inv s" and i: "i < length (tasks s)" and q: "\<And>b. \<not> queued b (tasks s ! i)" "\<And>b. \<not> queued b (p, a)"
    and l: "waiting l = waiting (lock s)"
  shows "queue_inv (move i p a (s\<lparr>node := nd, lock := l\<rparr>))"
  using inv i q l by (auto simp: queue_inv_def move_def nth_list_update)

lemma queue_join:
  assumes inv: "queue_inv s" and i: "i < length (tasks s)" and q: "\<And>b. \<not> queued b (tasks s ! i)"
    "\<And>b. queued b (p, a) \<longleftrightarrow> b = b0" and l: "waiting l = waiting (lock s) @ [(i, b0)]"
  shows "queue_inv (move i p a (s\<lparr>lock := l\<rparr>))"
  using inv i q l by (auto simp: queue_inv_def move_def nth_list_update)

lemma queue_leave:
  assumes inv: "queue_inv s" and i: "i < length (tasks s)" and q: "\<And>b. queued b (tasks s ! i) \<longleftrightarrow> b = b0"
    "\<And>b. \<not> queued b (p, a)" and l: "waiting (lock s) = (i, b0) # waiting l"
  shows "queue_inv (move i p a (s\<lparr>lock := l\<rparr>))"
proof -
  have d: "distinct ((i, b0) # waiting l)" using inv l by (simp add: queue_inv_def)
  have m: "(j, b) \<in> set (waiting l) \<longleftrightarrow> (j, b) \<noteq> (i, b0) \<and> j < length (tasks s) \<and> queued b (tasks s ! j)" for j b
    using inv l d unfolding queue_inv_def by (metis distinct.simps(2) list.set_intros(2) set_ConsD)
  show ?thesis using d m i q by (auto simp: queue_inv_def move_def nth_list_update)
qed

lemma queue_step:
  assumes "act lk ll s s'" and inv: "queue_inv s"
  shows "queue_inv s'"
  using assms(1)
proof cases
  case (begin_op i p a nd)
  then have "\<not> queued b (p, a)" for b by (cases p) (auto simp: call_backend_def split: prod.splits sum.splits)
  then show ?thesis unfolding begin_op(1) using queue_move [OF inv begin_op(2), of p a "lock s" nd] begin_op(3) by simp
next
  case (to_cell i p a nd)
  then have "\<not> queued b (p, a)" for b by (cases p) (auto simp: find_cell_def split: sum.splits option.splits)
  then show ?thesis unfolding to_cell(1) using queue_move [OF inv to_cell(2), of p a "lock s" nd] to_cell(3) by simp
next
  case (queue_write i p v r)
  then show ?thesis by (auto intro: queue_join [OF inv] simp: ask_write_waiting)
next
  case (lock_write i p v r l)
  show ?thesis unfolding lock_write(1)
    by (rule queue_leave [OF inv lock_write(2), of True]) (use lock_write(3) get_write_queue [OF lock_write(4)] in auto)
next
  case (store i p v r)
  then show ?thesis by (auto intro!: queue_move [OF inv] simp: end_write_waiting)
next
  case (queue_read i p)
  then show ?thesis by (auto intro: queue_join [OF inv] simp: ask_read_waiting)
next
  case (lock_read i p l)
  show ?thesis unfolding lock_read(1)
    by (rule queue_leave [OF inv lock_read(2), of False]) (use lock_read(3) get_read_queue [OF lock_read(4)] in auto)
next
  case (refer i p m)
  then show ?thesis using queue_move [OF inv refer(2), of p "Using m" "lock s" "node s"] by simp
next
  case (refuse i p r)
  then show ?thesis using queue_move [OF inv refuse(2), of p "Answer r" "end_read lk (lock s)" "node s"]
    by (simp add: end_read_waiting)
next
  case (compute i ms req m)
  then show ?thesis
    using queue_move [OF inv compute(2), of "Forward ms req" "Answer (Answered (infer ll ms m req))" "end_read lk (lock s)" "node s"]
    by (simp add: end_read_waiting)
qed

lemma queue_new: "queue_inv (new_world lk ops)"
  by (auto simp: queue_inv_def new_world_def new_waiting)

lemma queue_run: "(act lk ll)\<^sup>*\<^sup>* s s' \<Longrightarrow> queue_inv s \<Longrightarrow> queue_inv s'"
  by (induction rule: rtranclp_induct) (auto intro: queue_step)

lemmas reachable_queue = queue_run [OF _ queue_new]

text \<open>Who does not wait for a guard can go on; if nobody holds one, the head of the queue gets it.\<close>

lemma unqueued_acts:
  assumes inv: "world_inv ll s" and i: "i < length (tasks s)" "tasks s ! i = (p, a)"
    and q: "\<not> answered (p, a)" "\<And>b. \<not> queued b (p, a)"
  shows "\<exists>s'. act lk ll s s'"
proof -
  have at: "placed ll (node s) (p, a)" using inv i nth_mem [of i "tasks s"] by (auto simp: world_inv_def)
  show ?thesis
  proof (cases a)
    case Start
    then show ?thesis using act.begin_op [OF i(1)] i(2) by (metis prod.collapse)
  next
    case Ready
    then show ?thesis using act.to_cell [OF i(1)] i(2) by (metis prod.collapse)
  next
    case Reading
    then show ?thesis
      using act.refer [OF i(1)] act.refuse [OF i(1)] i(2) take_model_ok [of ll "node s" p] at by blast
  next
    case (Using m)
    with at obtain ms req where "p = Forward ms req" by auto
    with Using show ?thesis using act.compute [OF i(1)] i(2) by blast
  next
    case (Storing v r)
    then show ?thesis using act.queue_write [OF i(1)] i(2) by blast
  next
    case (Writing v r)
    then show ?thesis using act.store [OF i(1)] i(2) by blast
  next
    case Waiting
    then show ?thesis using act.queue_read [OF i(1)] i(2) by blast
  qed (use q in auto)
qed

lemma head_acts:
  assumes q: "queue_inv s" "waiting (lock s) = (i, b) # is" and idle: "readers (lock s) = 0" "writers (lock s) = 0"
  shows "\<exists>s'. act lk ll s s'"
proof -
  obtain p a where i: "i < length (tasks s)" "tasks s ! i = (p, a)" "queued b (p, a)"
    using q unfolding queue_inv_def by (metis list.set_intros(1) prod.collapse)
  show ?thesis
  proof (cases a)
    case Read_queued
    then obtain l where "get_read lk i (lock s) = Some l" using i(3) get_read_head [of i "lock s"] q(2) idle by auto
    then show ?thesis using act.lock_read [OF i(1)] i(2) Read_queued by blast
  next
    case (Write_queued v r)
    then obtain l where "get_write lk i (lock s) = Some l" using i(3) get_write_head [of i "lock s"] q(2) idle by auto
    then show ?thesis using act.lock_write [OF i(1)] i(2) Write_queued by blast
  qed (use i(3) in auto)
qed

lemma world_progress:
  assumes inv: "world_inv ll s" "queue_inv s" and x: "x \<in> set (tasks s)" "\<not> answered x"
  shows "\<exists>s'. act lk ll s s'"
proof (cases "readers (lock s) = 0 \<and> writers (lock s) = 0")
  case True
  obtain i where i: "i < length (tasks s)" "tasks s ! i = x" using x(1) by (auto simp: in_set_conv_nth)
  show ?thesis
  proof (cases "waiting (lock s)")
    case Nil
    then have "\<not> queued b x" for b using inv(2) i by (auto simp: queue_inv_def)
    then show ?thesis using unqueued_acts [OF inv(1) i(1), of "fst x" "snd x"] i(2) x(2) by simp
  next
    case (Cons w ws)
    then show ?thesis using head_acts [OF inv(2), of "fst w" "snd w" ws] True by simp
  qed
next
  case False
  then have "count holds_read (tasks s) \<noteq> 0 \<or> count holds_write (tasks s) \<noteq> 0"
    using inv(1) by (auto simp: world_inv_def)
  then obtain y where y: "y \<in> set (tasks s)" "holds_read y \<or> holds_write y"
    by (auto simp: count_def filter_empty_conv)
  then obtain j where "j < length (tasks s)" "tasks s ! j = y" by (auto simp: in_set_conv_nth)
  moreover have "\<not> answered y" "\<not> queued b y" for b using y(2) by (cases y rule: answered.cases; auto)+
  ultimately show ?thesis using unqueued_acts [OF inv(1), of j "fst y" "snd y"] by simp
qed

lemma all_answered:
  fixes s :: "('m, 'l) world"
  assumes "(act lk ll ^^ k) (new_world lk ops) s"
  shows "k \<le> 6 * length ops \<and> ((\<forall>s'. \<not> act lk ll s s') \<longrightarrow> (\<forall>x \<in> set (tasks s). answered x))"
proof -
  have "left_to_do (new_world lk ops :: ('m, 'l) world) = 6 * length ops"
    by (simp add: left_to_do_def new_world_def o_def sum_list_triv)
  then have "k \<le> 6 * length ops" using acts_bounded [OF assms] by simp
  moreover have "(act lk ll)\<^sup>*\<^sup>* (new_world lk ops) s" using assms by (rule relpowp_imp_rtranclp)
  ultimately show ?thesis using world_progress [OF reachable_inv reachable_queue] by blast
qed

end

section \<open>Properties\<close>

text \<open>
  C4: With every lock that keeps readers and writers apart, requests that load, unload and use
  the shard may interleave in any way, also while a model is being loaded or computed with:
  run one after the other from a new node, in the order in which they were answered, the
  answered requests give the same answers and leave the same shard loaded. Only the text of
  one error may differ: a forward pass that falls between the two halves of the first load
  fails with \<^verbatim>\<open>No shard loaded\<close> where it fails with \<^verbatim>\<open>No model loaded\<close> when it runs alone. In
  particular a forward pass is computed with the model of the last load answered before it
  and after the last unload, and fails if there is none.
\<close>

theorem requests_linearizable:
  assumes "rw_lock lk readers writers" and "(act lk ll)\<^sup>*\<^sup>* (new_world lk ops) s"
  shows "(\<exists>rs nd. run_ops ll (map fst (history s)) new_node = (rs, nd) \<and>
      list_all2 same_answer rs (map snd (history s)) \<and> content_of nd = content_of (node s)) \<and>
    mset (history s) = mset (answers (tasks s)) \<and>
    (\<forall>es ms req a fs. history s = es @ (Forward ms req, Answered a) # fs \<longrightarrow>
      (case loaded_after ll es of Some m \<Rightarrow> a = infer ll ms m req | None \<Rightarrow> isl a))"
proof -
  have h: "explains ll (history s) (node s)" "mset (history s) = mset (answers (tasks s))"
    using rw_lock.linearizable [OF assms] by blast+
  have "case loaded_after ll es of Some m \<Rightarrow> a = infer ll ms m req | None \<Rightarrow> isl a"
    if "history s = es @ (Forward ms req, Answered a) # fs" for es ms req a fs
    using explained_forward [of ll es ms req a fs "node s"] h(1) unfolding that by blast
  then show ?thesis by (intro conjI explains_run [OF h(1)] h(2) allI impI)
qed

text \<open>
  Two runs of a load, forward passes and an unload. In the first an unload begins while a
  forward pass is computing, and a second forward pass comes behind it: both have to wait. In
  the second the forward pass falls between the halves of the load.
\<close>

definition demo_ops :: "op list" where
  "demo_ops = [Load 5 (demo_config ''m''), Forward 6 demo_request, Unload, Forward 7 demo_request]"

lemmas demo_defs = demo_ops_def recording_def new_world_def new_node_def fifo_lock_def act_of_def
  call_backend_def backend_def find_cell_def move_def
  get_loaded_model_def take_model_def content_of_def demo_config_def

abbreviation demo_world :: "(string, fifo) world" where
  "demo_world \<equiv> new_world fifo_lock demo_ops"

lemma demo_schedule:
  "\<exists>s. schedule fifo_lock demo_llama [0, 0, 0, 0, 0, 1, 1, 1, 1, 1, 2, 2, 2, 3, 3, 3] demo_world = Some s \<and>
     length (tasks s) = 4 \<and> tasks s ! 1 = (Forward 6 demo_request, Using ''m'') \<and>
     act_of fifo_lock demo_llama 2 s = None \<and> act_of fifo_lock demo_llama 3 s = None"
  by (simp add: demo_defs)

lemma demo_between:
  "\<exists>s. schedule fifo_lock demo_llama [0, 0, 1, 1, 1, 1, 1, 0, 0, 0] demo_world = Some s \<and>
     map fst (history s) = [Forward 6 demo_request, Load 5 (demo_config ''m'')] \<and>
     map snd (history s) ! 0 = Answered (Inl ''No shard loaded'') \<and> content_of (node s) \<noteq> None"
  by (simp add: demo_defs)

theorem requests_linearizable_witness:
  "\<exists>s rs nd. (act fifo_lock demo_llama)\<^sup>*\<^sup>* demo_world s \<and>
     map fst (history s) = [Forward 6 demo_request, Load 5 (demo_config ''m'')] \<and>
     map snd (history s) ! 0 = Answered (Inl ''No shard loaded'') \<and>
     run_ops demo_llama (map fst (history s)) new_node = (rs, nd) \<and>
     list_all2 same_answer rs (map snd (history s)) \<and> rs ! 0 = Answered (Inl ''No model loaded'') \<and>
     content_of nd = content_of (node s) \<and> content_of nd \<noteq> None"
proof -
  obtain s where s: "schedule fifo_lock demo_llama [0, 0, 1, 1, 1, 1, 1, 0, 0, 0] demo_world = Some s"
    "map fst (history s) = [Forward 6 demo_request, Load 5 (demo_config ''m'')]"
    "map snd (history s) ! 0 = Answered (Inl ''No shard loaded'')" "content_of (node s) \<noteq> None"
    using demo_between by (elim exE conjE)
  from requests_linearizable [OF fifo.rw_lock_axioms schedule_acts [OF s(1)], THEN conjunct1] obtain rs nd where
    r: "run_ops demo_llama (map fst (history s)) new_node = (rs, nd)"
    "list_all2 same_answer rs (map snd (history s))" "content_of nd = content_of (node s)" by blast
  moreover have "rs ! 0 = Answered (Inl ''No model loaded'')"
    using r(1) unfolding s(2)
    by (auto simp: forward_def run_forward_pass_def backend_def recording_def new_node_def get_loaded_model_def split: prod.splits)
  ultimately show ?thesis using schedule_acts [OF s(1)] s(2-4) by metis
qed

text \<open>
  C9: While a forward pass computes, the model it uses is the one that is loaded: no other
  request replaces or unloads it, and none holds the write guard.
\<close>

theorem model_in_use_stays:
  assumes "rw_lock lk readers writers"
    and "(act lk ll)\<^sup>*\<^sup>* (new_world lk ops) s" and "i < length (tasks s)" and "tasks s ! i = (p, Using m)"
  shows "(\<exists>sh. content_of (node s) = Some sh \<and> model sh = Some m) \<and>
    (\<forall>q v r. (q, Writing v r) \<notin> set (tasks s)) \<and>
    (\<forall>s'. act lk ll s s' \<longrightarrow> content_of (node s') = content_of (node s))"
  using rw_lock.use_stays [OF assms] by blast

theorem model_in_use_stays_witness:
  "\<exists>s. act_of fifo_lock demo_llama 2 s = None \<and> (\<exists>sh. content_of (node s) = Some sh \<and> model sh = Some ''m'')"
proof -
  obtain s where s: "schedule fifo_lock demo_llama [0, 0, 0, 0, 0, 1, 1, 1, 1, 1, 2, 2, 2, 3, 3, 3] demo_world = Some s"
    "length (tasks s) = 4" "tasks s ! 1 = (Forward 6 demo_request, Using ''m'')" "act_of fifo_lock demo_llama 2 s = None"
    using demo_schedule by blast
  with model_in_use_stays [OF fifo.rw_lock_axioms schedule_acts [OF s(1)], of 1] show ?thesis by auto
qed

text \<open>
  C19: With a lock that serves in the order of asking, so that readers wait behind a queued
  writer, the requests do not deadlock: as long as one is unanswered, some request can go on;
  and after at most six steps per request all are answered.
\<close>

theorem requests_answered:
  assumes "fair_rw_lock lk readers writers waiting" and "(act lk ll ^^ k) (new_world lk ops) s"
  shows "k \<le> 6 * length ops \<and> ((\<forall>s'. \<not> act lk ll s s') \<longrightarrow> (\<forall>x \<in> set (tasks s). answered x))"
  using fair_rw_lock.all_answered [OF assms] .

text \<open>
  The state in which one forward pass computes, the unload waits for it, and the second
  forward pass for the unload.
\<close>

theorem requests_answered_witness:
  "\<exists>s s'. (act fifo_lock demo_llama ^^ 16) demo_world s \<and> act_of fifo_lock demo_llama 2 s = None \<and>
     act_of fifo_lock demo_llama 3 s = None \<and> act fifo_lock demo_llama s s'"
proof -
  obtain s where s: "schedule fifo_lock demo_llama [0, 0, 0, 0, 0, 1, 1, 1, 1, 1, 2, 2, 2, 3, 3, 3] demo_world = Some s"
    "length (tasks s) = 4" "tasks s ! 1 = (Forward 6 demo_request, Using ''m'')"
    "act_of fifo_lock demo_llama 2 s = None" "act_of fifo_lock demo_llama 3 s = None"
    using demo_schedule by blast
  have "length [0, 0, 0, 0, 0, 1, 1, 1, 1, 1, 2, 2, 2, 3, 3, 3 :: nat] = 16" by simp
  with schedule_steps [OF s(1)] have k: "(act fifo_lock demo_llama ^^ 16) demo_world s" by metis
  have "(Forward 6 demo_request, Using ''m'') \<in> set (tasks s)" using s(2,3) nth_mem [of 1 "tasks s"] by simp
  then have "\<exists>s'. act fifo_lock demo_llama s s'"
    using requests_answered [OF fifo.fair_rw_lock_axioms k] by force
  then show ?thesis using k s(4,5) by blast
qed

end
