(* ===== verification/Node_Client.thy ===== *)
theory Node_Client
  imports Prelude
begin

text \<open>
  The client of the orchestrator (\<^verbatim>\<open>node-agent/src/network/grpc_client.rs\<close>). The generated
  client is a parameter: a record of the functions called, over its own types of connections
  and messages. A call returns the reply or the error, and the connection afterwards.
\<close>

record ('c, 's, 'q, 'a, 'te, 'e) orchestrator_client =
  client_connect :: "string \<Rightarrow> 'te + 'c"
  report_node_status :: "'c \<Rightarrow> 's \<Rightarrow> ('e + unit) \<times> 'c"
  client_request_partition :: "'c \<Rightarrow> 'q \<Rightarrow> ('e + 'a) \<times> 'c"

record 'c orchestrator_connection =
  client :: 'c

definition connect ::
  "('c, 's, 'q, 'a, 'te, 'e) orchestrator_client \<Rightarrow> string \<Rightarrow> 'te + 'c orchestrator_connection" where
  "connect lib addr =
     (case client_connect lib (''http://'' @ addr) of
        Inl e \<Rightarrow> Inl e
      | Inr c \<Rightarrow> Inr \<lparr>client = c\<rparr>)"

definition report_status ::
  "('c, 's, 'q, 'a, 'te, 'e) orchestrator_client \<Rightarrow> 's \<Rightarrow> 'c orchestrator_connection \<Rightarrow>
   ('e + unit) \<times> 'c orchestrator_connection" where
  "report_status lib status conn =
     (case report_node_status lib (client conn) status of
        (Inl e, c) \<Rightarrow> (Inl e, conn\<lparr>client := c\<rparr>)
      | (Inr _, c) \<Rightarrow> (Inr (), conn\<lparr>client := c\<rparr>))"

definition request_partition ::
  "('c, 's, 'q, 'a, 'te, 'e) orchestrator_client \<Rightarrow> 'q \<Rightarrow> 'c orchestrator_connection \<Rightarrow>
   ('e + 'a) \<times> 'c orchestrator_connection" where
  "request_partition lib request conn =
     (case client_request_partition lib (client conn) request of
        (Inl e, c) \<Rightarrow> (Inl e, conn\<lparr>client := c\<rparr>)
      | (Inr a, c) \<Rightarrow> (Inr a, conn\<lparr>client := c\<rparr>))"

end
