(* ===== verification/Spec2Isabelle.thy ===== *)
theory Spec2Isabelle
  imports Gguf_Plan Node_Main Node_Shard Node_Channel Node_Lock Node_Client
begin

text \<open>
  ArcFlare runs a language model on a cluster of scrap hardware. The Rust part of the
  repository consists of two programs, and this development models both:

  \<^item> \<^verbatim>\<open>tools/gguf-splitter\<close> cuts a model file (GGUF) into one shard per node;
  \<^item> \<^verbatim>\<open>node-agent\<close> runs on a node: it reports and tunes the hardware, loads a shard, answers
    forward passes and streams generated text over gRPC, runs an \<^verbatim>\<open>rpc-server\<close> child process
    and announces itself by UDP.

  \<^bold>\<open>Shared theories.\<close> \<open>Prelude\<close>: machine integers, the outcome of a fallible function (value,
  error, panic), arithmetic with and without overflow checks, slices, counted loops.
  \<open>Rust_Text\<close>, \<open>Rust_Lines\<close>, \<open>Rust_Float\<close>, \<open>Rust_F64\<close>: what the programs use of Rust's
  strings (as UTF-8 bytes), number parsing and printing, and binary64 arithmetic.

  \<^bold>\<open>The splitter\<close> (\<^verbatim>\<open>tools/gguf-splitter/src/main.rs\<close>), in the order of its code:
  \<open>Gguf_Bytes\<close> (\<^verbatim>\<open>read_u32\<close>, \<^verbatim>\<open>read_u64\<close>, \<^verbatim>\<open>align_up\<close>), \<open>Gguf_Metadata\<close> (\<^verbatim>\<open>skip_value\<close>,
  \<^verbatim>\<open>get_metadata_string\<close>), \<open>Gguf_Tensors\<close> (header, start search, tensor infos),
  \<open>Gguf_Layers\<close> (\<^verbatim>\<open>count_layers\<close>, \<^verbatim>\<open>group_tensors_by_layer\<close>, \<^verbatim>\<open>get_shard_tensor_indices\<close>),
  \<open>Gguf_Sizes\<close> (\<^verbatim>\<open>compute_data_sizes\<close>), \<open>Gguf_Write\<close> (the bytes that \<^verbatim>\<open>write_shard\<close>
  produces), \<open>Gguf_File\<close> (\<^verbatim>\<open>write_shard\<close> as a sequence of writes that fail when the disk is full,
  refined to those bytes), \<open>Gguf_Main\<close> (\<^verbatim>\<open>main\<close> over a map of files, its loop refined to
  \<open>write_files\<close>), \<open>Gguf_Split\<close> (the whole run with \<^verbatim>\<open>--split\<close>) and \<open>Gguf_Plan\<close> (the run without). The files are byte lists, the
  format is specified by encoders, and the locales \<open>skipper\<close> and \<open>codec\<close> of \<open>Gguf_Bytes\<close> state
  how a reader inverts an encoder. The lemmas show that parsing inverts the format on
  well-formed sources and that what it returns is well typed on any input; that the shards
  partition the tensors in the order of a stable sort by layer; that a shard is again a GGUF
  file; that a split of an aligned source loses no tensor byte and touches no existing file;
  what a full disk leaves; and, on the other side, the inputs on which the code misbehaves.
  \<open>skip_value\<close> recurses with \<open>d\<close> as the number of stack frames available: with overflow checks
  the length of the file is enough (\<open>checked_stack_enough\<close>), in a release build no number is.

  \<^bold>\<open>The node agent\<close> (\<^verbatim>\<open>node-agent/src\<close>). \<open>Node_Os\<close> is the interface to the system: an operation
  is a state transformer on the list of files written and commands run, and the system's
  answers are functions of that history. On it rest \<open>Node_Tuning\<close> (\<^verbatim>\<open>tuning/\<close>),
  \<open>Node_Overclock\<close> (\<^verbatim>\<open>overclocking/\<close>), \<open>Node_Drivers\<close> (\<^verbatim>\<open>drivers/check.rs\<close>) and
  \<open>Node_Hardware\<close> (\<^verbatim>\<open>hardware/\<close>), with frame properties (what an operation may touch),
  accounting, and exactness of the numbers. \<open>Node_Shard\<close> (\<^verbatim>\<open>inference/shard.rs\<close>) is the node's
  own notion of layer, related to the splitter's. \<open>Node_Slot\<close> states the contract of a thing
  of which the agent has at most one, as the locale \<open>slot\<close> with the extensions
  \<open>keeping_slot\<close> and \<open>replacing_slot\<close>; \<open>Node_Rpc\<close> (\<^verbatim>\<open>inference/rpc.rs\<close>, the child process, with
  a step relation that includes children that end by themselves) interprets the first,
  \<open>Node_Model\<close> (\<^verbatim>\<open>inference/model.rs\<close>, \<^verbatim>\<open>forward.rs\<close>, the loaded shard) the second.
  \<open>Node_Stream\<close> is \<^verbatim>\<open>forward_stream\<close> of \<^verbatim>\<open>network/grpc_server.rs\<close>, refined to greedy
  decoding, which \<open>greedy\<close> describes without the code's loop; \<open>Node_Service\<close> the other handlers of that file, with \<open>Node_Benchmark\<close>
  (\<^verbatim>\<open>hardware/benchmark.rs\<close>); \<open>Node_Discovery\<close>
  (\<^verbatim>\<open>network/discovery.rs\<close>) the broadcaster, a loop that may run forever, with \<^const>\<open>None\<close> for
  not returning and time in seconds; \<open>Node_Main\<close> (\<^verbatim>\<open>main.rs\<close>) puts start-up, serving, the
  signals and shut-down together; \<open>Node_Client\<close> (\<^verbatim>\<open>network/grpc_client.rs\<close>) are the calls of the
  orchestrator.

  \<^bold>\<open>Concurrency.\<close> \<open>Node_Channel\<close> runs the generating task of \<open>Node_Stream\<close> and a client that
  may leave at any time as two processes over a bounded channel: a step relation, an
  invariant, freedom from deadlock, a bound of \<open>3 * n + 4\<close> steps, and the refinement to the
  task that runs alone. \<open>Node_Lock\<close> runs the operations of \<open>Node_Model\<close> as tasks cut at the
  shard's lock: every interleaving is explained by one sequential run (\<open>run_ops\<close>) of the
  answered requests from a new node, a model in use is not replaced, and nothing blocks
  forever: after at most six steps per request all are answered. The sequential run may differ
  in the text of one error, which of two ways nothing is loaded (\<open>same_answer\<close>).
  Channel and lock are those of the crate \<^verbatim>\<open>tokio\<close>: records of functions whose documented
  behaviour is stated in the locales \<open>bounded_channel\<close>, \<open>rw_lock\<close> (readers and writers exclude
  each other, all that safety needs) and \<open>fair_rw_lock\<close>, which extends it by the first-in,
  first-out queue in which a reader waits behind a writer. The properties assume the
  locale's predicate, and an interpretation shows that it can be met. Handlers are not
  cancelled in the model.

  \<^bold>\<open>Parameters.\<close> Code outside the repository is a parameter of the definitions that use it: the
  file system and the commands (record \<open>os\<close>), the crates \<^verbatim>\<open>sysinfo\<close> (record \<open>sysinfo\<close>),
  \<^verbatim>\<open>llama-cpp-4\<close> (record \<open>llama\<close>; a path loads the same model each time, so the model files do
  not change while the agent runs), \<^verbatim>\<open>machine-uid\<close>, \<^verbatim>\<open>serde_json\<close> (reader and printers), the
  spawning of the child, elapsed times, the children that end while the agent serves, the
  time of the signals, the channel and the lock of \<^verbatim>\<open>tokio\<close>, the space on the disk.
  The flag \<open>oc\<close> is the build profile's overflow checks, \<open>inference\<close> the cargo feature.
  \<open>reads_back\<close> is the one hypothesis about the system: files of \<^verbatim>\<open>/proc/sys\<close> read as written.

  \<^bold>\<open>Not modelled.\<close> The code generated from \<^verbatim>\<open>arcflare.proto\<close> (the messages are records with the
  fields the agent uses), tonic's server loop, the parsing of the command line, log messages.
  Serving in \<open>Node_Main\<close> is abstract: it ends or it does not. The memory map of the splitter's
  source is the file's content when it is opened, and of the errors of opening it only a
  missing file is modelled. Paths are compared as strings, so two spellings or a link of one
  file count as two files; creating a shard over the source itself
  ends the modelled run (\<open>MapTruncated\<close>). Errors other than a full disk while a shard is
  written look like one. The orchestrator is a separate program in Python.
\<close>

end
